(* ===== verification/Prelude.thy ===== *)
theory Prelude
  imports Complex_Main "HOL-Library.Word"
begin

text \<open>
  Shared vocabulary of the development: the machine types of the Rust sources, runs of a
  component over a list of events, and the contracts (locales) that the components'
  operations are shown to meet: an invariant every step keeps, a field no step writes, a
  wrapping counter that grows by a known weight (always, or under an invariant), and a
  functional simulation.
  Unsigned integers are words of their width and wrap, as the release profile of
  Cargo.toml compiles them (no overflow checks); \<open>usize\<close> values are lengths of lists in
  memory and are kept as \<open>nat\<close>.
\<close>

subsection \<open>Machine types\<close>

type_synonym u8 = "8 word"
type_synonym u16 = "16 word"
type_synonym u32 = "32 word"
type_synonym u64 = "64 word"
type_synonym usize = nat
type_synonym bytes = "u8 list"

subsection \<open>Runs\<close>

fun run :: "('s \<Rightarrow> 'e \<Rightarrow> 's \<times> 'o) \<Rightarrow> 's \<Rightarrow> 'e list \<Rightarrow> 's \<times> 'o list" where
  "run f s [] = (s, [])"
| "run f s (e # es) =
     (let (s', r) = f s e; (s'', rs) = run f s' es in (s'', r # rs))"

lemma run_Cons:
  "run f s (e # es) =
     (fst (run f (fst (f s e)) es), snd (f s e) # snd (run f (fst (f s e)) es))"
  by (simp add: split_def Let_def)

lemma run_fst_Cons [simp]: "fst (run f s (e # es)) = fst (run f (fst (f s e)) es)"
  and run_snd_Cons [simp]: "snd (run f s (e # es)) = snd (f s e) # snd (run f (fst (f s e)) es)"
  by (simp_all add: run_Cons del: run.simps)

declare run.simps(2) [simp del]

lemma run_append:
  "run f s (xs @ ys) =
     (fst (run f (fst (run f s xs)) ys), snd (run f s xs) @ snd (run f (fst (run f s xs)) ys))"
  by (induction xs arbitrary: s) (simp_all add: run_Cons)

lemma length_run [simp]: "length (snd (run f s es)) = length es"
  by (induction es arbitrary: s) simp_all

lemma run_nth:
  "k < length es \<Longrightarrow> snd (run f s es) ! k = snd (f (fst (run f s (take k es))) (es ! k))"
proof (induction es arbitrary: s k)
  case (Cons e es)
  then show ?case by (cases k) simp_all
qed simp

subsection \<open>Contracts of a component\<close>

locale invariant_machine =
  fixes step :: "'s \<Rightarrow> 'e \<Rightarrow> 's \<times> 'o" and inv :: "'s \<Rightarrow> bool"
  assumes step_inv: "inv s \<Longrightarrow> inv (fst (step s e))"
begin

lemma run_inv: "inv s \<Longrightarrow> inv (fst (run step s es))"
  by (induction es arbitrary: s) (simp_all add: step_inv)

end

locale framed =
  fixes step :: "'s \<Rightarrow> 'e \<Rightarrow> 's \<times> 'o" and field :: "'s \<Rightarrow> 'a"
  assumes step_frame: "field (fst (step s e)) = field s"
begin

lemma run_frame: "field (fst (run step s es)) = field s"
  by (induction es arbitrary: s) (simp_all add: step_frame)

end

locale tally =
  fixes step :: "'s \<Rightarrow> 'e \<Rightarrow> 's \<times> 'o" and count :: "'s \<Rightarrow> 'w::len word"
    and weight :: "'e \<Rightarrow> 'o \<Rightarrow> nat"
  assumes step_tally: "count (fst (step s e)) = count s + of_nat (weight e (snd (step s e)))"
begin

lemma run_tally:
  "count (fst (run step s es)) =
     count s + of_nat (sum_list (map2 weight es (snd (run step s es))))"
  by (induction es arbitrary: s) (simp_all add: step_tally add.assoc)

end

locale guarded_tally = invariant_machine step inv
  for step :: "'s \<Rightarrow> 'e \<Rightarrow> 's \<times> 'o" and inv :: "'s \<Rightarrow> bool" +
  fixes count :: "'s \<Rightarrow> 'w::len word" and weight :: "'e \<Rightarrow> 'o \<Rightarrow> nat"
  assumes step_weight:
    "inv s \<Longrightarrow> count (fst (step s e)) = count s + of_nat (weight e (snd (step s e)))"
begin

lemma run_weight:
  "inv s \<Longrightarrow> count (fst (run step s es)) =
     count s + of_nat (sum_list (map2 weight es (snd (run step s es))))"
  by (induction es arbitrary: s) (simp_all add: step_weight step_inv add.assoc)

end

locale counter =
  fixes step :: "'s \<Rightarrow> 'e \<Rightarrow> 's \<times> 'o" and count :: "'s \<Rightarrow> 'w::len word"
    and hit :: "'e \<Rightarrow> 'o \<Rightarrow> bool"
  assumes step_count:
    "count (fst (step s e)) = (if hit e (snd (step s e)) then count s + 1 else count s)"
begin

lemma run_count:
  "count (fst (run step s es)) =
     count s + of_nat (length (filter (\<lambda>(e, r). hit e r) (zip es (snd (run step s es)))))"
  by (induction es arbitrary: s) (simp_all add: step_count)

end

sublocale counter \<subseteq> tally step count "\<lambda>e r. if hit e r then 1 else 0"
  by unfold_locales (simp add: step_count)

locale simulation = invariant_machine step inv
  for step :: "'s \<Rightarrow> 'e \<Rightarrow> 's \<times> 'o" and inv :: "'s \<Rightarrow> bool" +
  fixes astep :: "'a \<Rightarrow> 'e \<Rightarrow> 'a \<times> 'o" and abs :: "'s \<Rightarrow> 'a"
  assumes step_sim: "inv s \<Longrightarrow> astep (abs s) e = (abs (fst (step s e)), snd (step s e))"
begin

lemma run_sim: "inv s \<Longrightarrow> run astep (abs s) es = (abs (fst (run step s es)), snd (run step s es))"
  by (induction es arbitrary: s) (simp_all add: run_Cons step_sim step_inv)

end

subsection \<open>Words\<close>

lemma word_of_nat_unat_small: "n < 2 ^ LENGTH('w) \<Longrightarrow> unat (of_nat n :: 'w::len word) = n"
  by (simp add: unat_of_nat take_bit_nat_eq_self)

lemma unat_u16_less: "unat (w :: u16) < 2 ^ 16"
  and unat_u32_less: "unat (v :: u32) < 2 ^ 32"
  and unat_u64_less: "unat (u :: u64) < 2 ^ 64"
  using unsigned_less [of w] unsigned_less [of v] unsigned_less [of u] by simp_all

lemma unat_Suc_word: "w < v \<Longrightarrow> unat (w + 1) = Suc (unat w)" for w v :: "'w::len word"
proof -
  assume "w < v"
  then have "unat w < unat v" by (simp add: word_less_nat_alt)
  moreover have "unat v < 2 ^ LENGTH('w)" by (rule unsigned_less)
  ultimately have "Suc (unat w) < 2 ^ LENGTH('w)" by linarith
  then show ?thesis by (simp add: unat_word_ariths)
qed

lemma word_Suc_le: "w < v \<Longrightarrow> w + 1 \<le> v" for w v :: "'w::len word"
  by (rule inc_le)

definition saturating_sub :: "'w::len word \<Rightarrow> 'w word \<Rightarrow> 'w word" where
  "saturating_sub a b = (if b \<le> a then a - b else 0)"

lemma unat_saturating_sub: "unat (saturating_sub a b) = unat a - unat b"
  by (simp add: saturating_sub_def unat_sub word_le_nat_alt)

end
