(* ===== verification/Rust_Bytes.thy ===== *)
theory Rust_Bytes
  imports Prelude
begin

text \<open>
  Bytes and text: little-endian encodings (\<^verbatim>\<open>to_le_bytes\<close>, \<^verbatim>\<open>from_le_bytes\<close>), slices
  whose bounds are checked (\<open>None\<close> where Rust panics), the fallible conversion of a subslice
  to a fixed-size array, and the decimal rendering of unsigned integers that
  \<^verbatim>\<open>format!\<close> produces. The lemmas are the round trips the codecs rest on.
\<close>

subsection \<open>Little-endian numbers\<close>

fun nat_le :: "nat \<Rightarrow> nat \<Rightarrow> bytes" where
  "nat_le 0 n = []"
| "nat_le (Suc k) n = of_nat (n mod 256) # nat_le k (n div 256)"

fun le_nat :: "bytes \<Rightarrow> nat" where
  "le_nat [] = 0"
| "le_nat (b # bs) = unat b + 256 * le_nat bs"

lemma length_nat_le [simp]: "length (nat_le k n) = k"
  by (induction k arbitrary: n) simp_all

lemma unat_u8_less [simp]: "unat (b :: u8) < 256"
  using unsigned_less [of b] by simp

lemma le_nat_nat_le: "le_nat (nat_le k n) = n mod 256 ^ k"
proof (induction k arbitrary: n)
  case (Suc k)
  have "unat (of_nat (n mod 256) :: u8) = n mod 256"
    by (rule word_of_nat_unat_small) simp
  then have "le_nat (nat_le (Suc k) n) = n mod 256 + 256 * (n div 256 mod 256 ^ k)"
    using Suc by simp
  also have "\<dots> = n mod (256 * 256 ^ k)" by (simp add: mod_mult2_eq)
  finally show ?case by simp
qed simp

lemma nat_le_le_nat: "nat_le (length bs) (le_nat bs) = bs"
proof (induction bs)
  case (Cons b bs)
  have "(unat b + 256 * le_nat bs) mod 256 = unat b" by (simp add: mod_less)
  moreover have "(unat b + 256 * le_nat bs) div 256 = le_nat bs" by simp
  ultimately show ?case using Cons by simp
qed simp

lemma le_nat_less: "le_nat bs < 256 ^ length bs"
proof (induction bs)
  case (Cons b bs)
  have "unat b < 256" by (rule unat_u8_less)
  with Cons have "unat b + 256 * le_nat bs < 256 * 256 ^ length bs" by linarith
  then show ?case by simp
qed simp

subsection \<open>Slices and fixed-size arrays\<close>

definition subslice :: "nat \<Rightarrow> nat \<Rightarrow> 'a list \<Rightarrow> 'a list option" where
  "subslice a b xs = (if a \<le> b \<and> b \<le> length xs then Some (take (b - a) (drop a xs)) else None)"

definition index :: "'a list \<Rightarrow> nat \<Rightarrow> 'a option" where
  "index xs i = (if i < length xs then Some (xs ! i) else None)"

definition to_array :: "nat \<Rightarrow> 'a list \<Rightarrow> 'a list option" where
  "to_array n xs = (if length xs = n then Some xs else None)"

lemma subslice_ok: "a \<le> b \<Longrightarrow> b \<le> length xs \<Longrightarrow> subslice a b xs = Some (take (b - a) (drop a xs))"
  by (simp add: subslice_def)

lemma subslice_append:
  "length pre = i \<Longrightarrow> j = i + length mid \<Longrightarrow> subslice i j (pre @ mid @ post) = Some mid"
  by (simp add: subslice_def)

lemma index_append: "length pre = i \<Longrightarrow> index (pre @ x # post) i = Some x"
  by (auto simp: index_def nth_append)

lemma take_take_drop: "take n xs @ take m (drop n xs) @ drop (n + m) xs = xs"
  by (metis append_take_drop_id drop_drop add.commute)

lemma to_array_ok: "length xs = n \<Longrightarrow> to_array n xs = Some xs"
  by (simp add: to_array_def)

locale le_codec =
  fixes enc :: "'w::len word \<Rightarrow> bytes" and dec :: "bytes \<Rightarrow> 'w word" and size :: nat
  assumes dec_enc: "dec (enc w) = w"
    and length_enc: "length (enc w) = size"
    and enc_dec: "length bs = size \<Longrightarrow> enc (dec bs) = bs"
begin

lemma enc_inject: "enc v = enc w \<longleftrightarrow> v = w"
  using dec_enc by metis

lemma subslice_enc:
  "length pre = a \<Longrightarrow> b = a + size \<Longrightarrow> subslice a b (pre @ enc w @ post) = Some (enc w)"
  by (simp add: subslice_def length_enc)

lemma to_array_enc: "to_array size (enc w) = Some (enc w)"
  by (simp add: to_array_def length_enc)

end

definition u16_to_le :: "u16 \<Rightarrow> bytes" where "u16_to_le w = nat_le 2 (unat w)"
definition u32_to_le :: "u32 \<Rightarrow> bytes" where "u32_to_le w = nat_le 4 (unat w)"
definition u64_to_le :: "u64 \<Rightarrow> bytes" where "u64_to_le w = nat_le 8 (unat w)"
definition u16_from_le :: "bytes \<Rightarrow> u16" where "u16_from_le bs = of_nat (le_nat bs)"
definition u32_from_le :: "bytes \<Rightarrow> u32" where "u32_from_le bs = of_nat (le_nat bs)"
definition u64_from_le :: "bytes \<Rightarrow> u64" where "u64_from_le bs = of_nat (le_nat bs)"

lemma le_word_roundtrip:
  fixes w :: "'w::len word"
  assumes "256 ^ k = (2 :: nat) ^ LENGTH('w)"
  shows "of_nat (le_nat (nat_le k (unat w))) = w"
proof -
  have "unat w < 256 ^ k" unfolding assms by (rule unsigned_less)
  then show ?thesis by (simp add: le_nat_nat_le)
qed

lemma le_word_roundtrip':
  assumes "256 ^ k = (2 :: nat) ^ LENGTH('w::len)" and "length bs = k"
  shows "nat_le k (unat (of_nat (le_nat bs) :: 'w word)) = bs"
proof -
  have "le_nat bs < 2 ^ LENGTH('w)" using le_nat_less [of bs] assms by simp
  then have "unat (of_nat (le_nat bs) :: 'w word) = le_nat bs" by (rule word_of_nat_unat_small)
  then show ?thesis using nat_le_le_nat [of bs] assms(2) by simp
qed

interpretation le16: le_codec u16_to_le u16_from_le 2
  by unfold_locales
    (simp_all add: u16_to_le_def u16_from_le_def le_word_roundtrip le_word_roundtrip' del: of_nat_unat)

interpretation le32: le_codec u32_to_le u32_from_le 4
  by unfold_locales
    (simp_all add: u32_to_le_def u32_from_le_def le_word_roundtrip le_word_roundtrip' del: of_nat_unat)

interpretation le64: le_codec u64_to_le u64_from_le 8
  by unfold_locales
    (simp_all add: u64_to_le_def u64_from_le_def le_word_roundtrip le_word_roundtrip' del: of_nat_unat)

subsection \<open>Decimal text\<close>

definition digit :: "nat \<Rightarrow> char" where
  "digit d = char_of (48 + d)"

fun fmt_nat :: "nat \<Rightarrow> string" where
  "fmt_nat n = (if n < 10 then [digit n] else fmt_nat (n div 10) @ [digit (n mod 10)])"

declare fmt_nat.simps [simp del]

definition parse_nat :: "string \<Rightarrow> nat" where
  "parse_nat cs = foldl (\<lambda>a c. 10 * a + (of_char c - 48)) 0 cs"

definition is_digit :: "char \<Rightarrow> bool" where
  "is_digit c \<longleftrightarrow> 48 \<le> (of_char c :: nat) \<and> (of_char c :: nat) \<le> 57"

lemma of_char_digit: "d < 10 \<Longrightarrow> of_char (digit d) = 48 + d"
  by (simp add: digit_def)

lemma is_digit_digit: "d < 10 \<Longrightarrow> is_digit (digit d)"
  by (simp add: is_digit_def of_char_digit)

lemma parse_fmt_nat: "parse_nat (fmt_nat n) = n"
proof (induction n rule: fmt_nat.induct)
  case (1 n)
  then show ?case
    by (cases "n < 10") (simp_all add: fmt_nat.simps [of n] parse_nat_def of_char_digit)
qed

lemma fmt_nat_inject: "fmt_nat m = fmt_nat n \<longleftrightarrow> m = n"
  using parse_fmt_nat by metis

lemma fmt_nat_digits: "c \<in> set (fmt_nat n) \<Longrightarrow> is_digit c"
proof (induction n rule: fmt_nat.induct)
  case (1 n)
  then show ?case
    by (cases "n < 10") (auto simp: fmt_nat.simps [of n] is_digit_digit)
qed

lemma fmt_nat_nonempty: "fmt_nat n \<noteq> []"
  by (simp add: fmt_nat.simps [of n])

definition fmt_u64 :: "u64 \<Rightarrow> string" where
  "fmt_u64 w = fmt_nat (unat w)"

lemma fmt_u64_inject: "fmt_u64 v = fmt_u64 w \<longleftrightarrow> v = w"
  by (simp add: fmt_u64_def fmt_nat_inject word_unat_eq_iff)

definition fmt_int :: "int \<Rightarrow> string" where
  "fmt_int i = (if i < 0 then CHR ''-'' # fmt_nat (nat (- i)) else fmt_nat (nat i))"

end
