(* ===== verification/Queue_Bridge.thy ===== *)
theory Queue_Bridge
  imports Rust_Bytes "HOL-Library.Monad_Syntax"
begin

text \<open>
  \<^verbatim>\<open>src/queue_bridge.rs\<close>: the message envelope with its 24-byte header and the router that
  picks a processing queue. The codec lemmas give the exact language \<open>from_bytes\<close> accepts
  and the round trip; the router lemmas give bounds, affinity, balance and counters.
  A result \<open>None\<close> at the outer option is a panic (slice out of range, remainder by zero).
\<close>

subsection \<open>Priorities\<close>

datatype message_priority = Low | Normal | High | Critical

fun priority_u8 :: "message_priority \<Rightarrow> u8" where
  "priority_u8 Low = 0"
| "priority_u8 Normal = 1"
| "priority_u8 High = 2"
| "priority_u8 Critical = 3"

lemma priority_u8_inject: "priority_u8 p = priority_u8 q \<longleftrightarrow> p = q"
  by (cases p; cases q) simp_all

text \<open>The derived \<^verbatim>\<open>Ord\<close>: the order of the discriminants.\<close>

instantiation message_priority :: linorder
begin

definition less_eq_message_priority :: "message_priority \<Rightarrow> message_priority \<Rightarrow> bool" where
  "less_eq_message_priority p q \<longleftrightarrow> priority_u8 p \<le> priority_u8 q"

definition less_message_priority :: "message_priority \<Rightarrow> message_priority \<Rightarrow> bool" where
  "less_message_priority p q \<longleftrightarrow> priority_u8 p < priority_u8 q"

instance
  by standard
    (auto simp: less_eq_message_priority_def less_message_priority_def
      simp flip: priority_u8_inject)

end

definition priority_of_u8 :: "u8 \<Rightarrow> message_priority option" where
  "priority_of_u8 b =
     (if b = 0 then Some Low else if b = 1 then Some Normal
      else if b = 2 then Some High else if b = 3 then Some Critical else None)"

lemma priority_of_u8_inverse [simp]: "priority_of_u8 (priority_u8 p) = Some p"
  by (cases p) (simp_all add: priority_of_u8_def)

lemma priority_of_u8_Some: "priority_of_u8 b = Some p \<longleftrightarrow> b = priority_u8 p"
  by (cases p) (auto simp: priority_of_u8_def)

subsection \<open>The message codec\<close>

record gateway_message =
  source_device_id :: u64
  timestamp_ms :: u64
  priority :: message_priority
  payload :: bytes
  routing_key :: u32

definition to_bytes :: "gateway_message \<Rightarrow> bytes" where
  "to_bytes m =
     u64_to_le (source_device_id m) @ u64_to_le (timestamp_ms m) @ [priority_u8 (priority m)]
     @ u32_to_le (routing_key m) @ u16_to_le (of_nat (length (payload m))) @ [0] @ payload m"

text \<open>The operator \<^verbatim>\<open>?\<close> in a function that returns an \<^verbatim>\<open>Option\<close>.\<close>

definition try_q :: "'a option \<Rightarrow> ('a \<Rightarrow> 'b option option) \<Rightarrow> 'b option option" where
  "try_q x f = (case x of None \<Rightarrow> Some None | Some v \<Rightarrow> f v)"

lemma try_q_Some [simp]: "try_q (Some v) f = f v"
  and try_q_None [simp]: "try_q None f = Some None"
  by (simp_all add: try_q_def)

definition from_bytes :: "bytes \<Rightarrow> gateway_message option option" where
  "from_bytes buf =
     (if length buf < 24 then Some None
      else do {
        s \<leftarrow> subslice 0 8 buf;
        try_q (to_array 8 s) (\<lambda>a. do {
          let source = u64_from_le a;
          s \<leftarrow> subslice 8 16 buf;
          try_q (to_array 8 s) (\<lambda>a. do {
            let timestamp = u64_from_le a;
            b \<leftarrow> index buf 16;
            try_q (priority_of_u8 b) (\<lambda>prio. do {
              s \<leftarrow> subslice 17 21 buf;
              try_q (to_array 4 s) (\<lambda>a. do {
                let key = u32_from_le a;
                s \<leftarrow> subslice 21 23 buf;
                try_q (to_array 2 s) (\<lambda>a. do {
                  let payload_len = unat (u16_from_le a);
                  if length buf < 24 + payload_len then Some None
                  else do {
                    p \<leftarrow> subslice 24 (24 + payload_len) buf;
                    Some (Some \<lparr>source_device_id = source, timestamp_ms = timestamp,
                                priority = prio, payload = p, routing_key = key\<rparr>)
                  }
                })
              })
            })
          })
        })
      })"

lemma from_bytes_layout:
  assumes "length a = 8" "length b = 8" "length c = 4" "length d = 2"
  shows "from_bytes (a @ b @ p # c @ d @ pad # rest) =
     (case priority_of_u8 p of None \<Rightarrow> Some None
      | Some prio \<Rightarrow>
          if length rest < unat (u16_from_le d) then Some None
          else Some (Some \<lparr>source_device_id = u64_from_le a, timestamp_ms = u64_from_le b,
                 priority = prio, payload = take (unat (u16_from_le d)) rest,
                 routing_key = u32_from_le c\<rparr>))"
proof -
  let ?buf = "a @ b @ p # c @ d @ pad # rest"
  let ?n = "unat (u16_from_le d)"
  have len: "length ?buf = 24 + length rest" using assms by simp
  have "subslice 0 8 ?buf = Some a" using subslice_append [of "[]" 0 8 a] assms by simp
  moreover have "subslice 8 16 ?buf = Some b" using assms by (intro subslice_append) simp_all
  moreover have "index ?buf 16 = Some p" using index_append [of "a @ b"] assms by simp
  moreover have "subslice 17 21 ?buf = Some c"
    using subslice_append [of "a @ b @ [p]" 17 21 c] assms by simp
  moreover have "subslice 21 23 ?buf = Some d"
    using subslice_append [of "a @ b @ p # c" 21 23 d] assms by simp
  moreover have "subslice 24 (24 + ?n) ?buf = Some (take ?n rest)" if "?n \<le> length rest"
    using subslice_append [of "a @ b @ p # c @ d @ [pad]" 24 "24 + ?n" "take ?n rest" "drop ?n rest"]
      assms that by simp
  ultimately show ?thesis
    using assms unfolding from_bytes_def len
    by (simp add: to_array_ok not_less split: option.split)
qed

lemma buffer_layout:
  assumes "24 \<le> length buf"
  obtains a b p c d pad rest where "buf = a @ b @ p # c @ d @ pad # rest"
    and "length a = 8" "length b = 8" "length c = 4" "length d = 2"
proof -
  define x where "x = drop 16 buf"
  have buf: "buf = take 8 buf @ take 8 (drop 8 buf) @ x"
    using take_take_drop [of 8 buf 8] by (simp add: x_def)
  have lx: "8 \<le> length x" using assms by (simp add: x_def)
  then obtain p x' where p: "x = p # x'" by (cases x) simp_all
  have x': "x' = take 4 x' @ take 2 (drop 4 x') @ drop 6 x'"
    using take_take_drop [of 4 x' 2] by simp
  obtain pad rest where r: "drop 6 x' = pad # rest"
    using lx p by (cases "drop 6 x'") simp_all
  show thesis
  proof (rule that)
    show "buf = take 8 buf @ take 8 (drop 8 buf) @ p # take 4 x' @ take 2 (drop 4 x') @ pad # rest"
      using buf x' unfolding p r by simp
    show "length (take 8 buf) = 8" "length (take 8 (drop 8 buf)) = 8"
      using assms by simp_all
    show "length (take 4 x') = 4" "length (take 2 (drop 4 x')) = 2"
      using lx p by simp_all
  qed
qed

lemma u16_length: "unat (u16_from_le (u16_to_le (of_nat n))) = n mod 2 ^ 16"
  by (simp add: le16.dec_enc unat_of_nat)

lemma from_bytes_encoded:
  "from_bytes (u64_to_le i @ u64_to_le t @ priority_u8 p # u32_to_le k @ u16_to_le n @ pad # rest) =
     (if length rest < unat n then Some None
      else Some (Some \<lparr>source_device_id = i, timestamp_ms = t, priority = p,
             payload = take (unat n) rest, routing_key = k\<rparr>))"
  by (simp add: from_bytes_layout le64.length_enc le32.length_enc le16.length_enc
      le64.dec_enc le32.dec_enc le16.dec_enc)

subsection \<open>The router\<close>

record gateway_router =
  messages_routed :: u64
  bytes_routed :: u64
  queue_count :: u32

definition router_new :: "u32 \<Rightarrow> gateway_router" where
  "router_new n = \<lparr>messages_routed = 0, bytes_routed = 0, queue_count = max n 1\<rparr>"

text \<open>The operator \<^verbatim>\<open>%\<close> panics when the divisor is zero.\<close>

definition checked_rem :: "u32 \<Rightarrow> u32 \<Rightarrow> u32 option" where
  "checked_rem a b = (if b = 0 then None else Some (a mod b))"

definition route_count :: "gateway_router \<Rightarrow> gateway_message \<Rightarrow> gateway_router" where
  "route_count r msg =
     r\<lparr>messages_routed := messages_routed r + 1,
       bytes_routed := bytes_routed r + of_nat (length (payload msg))\<rparr>"

definition route :: "gateway_router \<Rightarrow> gateway_message \<Rightarrow> gateway_router \<times> u32 option" where
  "route r msg =
     (let r' = route_count r msg in (r', checked_rem (routing_key msg) (queue_count r')))"

definition route_with_priority ::
  "gateway_router \<Rightarrow> gateway_message \<Rightarrow> gateway_router \<times> u32 option" where
  "route_with_priority r msg =
     (let r' = route_count r msg
      in if priority msg = Critical then (r', Some 0)
         else (r', checked_rem (routing_key msg) (queue_count r')))"

definition router_ok :: "gateway_router \<Rightarrow> bool" where
  "router_ok r \<longleftrightarrow> 0 < queue_count r"

lemma router_new_ok: "router_ok (router_new n)"
proof -
  have "(0 :: u32) < 1" by simp
  also have "1 \<le> max n 1" by (rule max.cobounded2)
  finally show ?thesis by (simp add: router_ok_def router_new_def)
qed

lemma route_frame [simp]:
  "queue_count (fst (route r m)) = queue_count r"
  "queue_count (fst (route_with_priority r m)) = queue_count r"
  by (simp_all add: route_def route_with_priority_def route_count_def Let_def)

text \<open>What a user of a router relies on: every message gets a queue that exists.\<close>

locale bounded_router = invariant_machine rt ok
  for rt :: "'r \<Rightarrow> 'm \<Rightarrow> 'r \<times> u32 option" and ok :: "'r \<Rightarrow> bool" +
  fixes queues :: "'r \<Rightarrow> u32"
  assumes queues_frame: "queues (fst (rt r m)) = queues r"
    and routed: "ok r \<Longrightarrow> \<exists>i. snd (rt r m) = Some i \<and> i < queues r"
begin

lemma run_routed:
  "ok r \<Longrightarrow> x \<in> set (snd (run rt r ms)) \<Longrightarrow> \<exists>i. x = Some i \<and> i < queues r"
proof (induction ms arbitrary: r)
  case (Cons m ms)
  from Cons.prems(2) consider "x = snd (rt r m)" | "x \<in> set (snd (run rt (fst (rt r m)) ms))"
    by auto
  then show ?case
  proof cases
    case 1
    then show ?thesis using routed [OF Cons.prems(1)] by blast
  next
    case 2
    then show ?thesis using Cons.IH [OF step_inv [OF Cons.prems(1)]] by (simp add: queues_frame)
  qed
qed simp

end

lemma word_mod_less: "0 < b \<Longrightarrow> a mod b < b" for a b :: "'w::len word"
  by (simp add: word_mod_less_divisor)

interpretation plain: bounded_router route router_ok queue_count
  by unfold_locales
    (auto simp: router_ok_def route_def route_count_def checked_rem_def Let_def word_mod_less)

interpretation prio: bounded_router route_with_priority router_ok queue_count
  by unfold_locales
    (auto simp: router_ok_def route_with_priority_def route_count_def checked_rem_def Let_def
      word_mod_less)



interpretation router_queues: framed route_with_priority queue_count
  by unfold_locales simp

lemma route_with_priority_queue:
  "snd (route_with_priority r m) =
     (if priority m = Critical then Some 0 else checked_rem (routing_key m) (queue_count r))"
  by (simp add: route_with_priority_def route_count_def Let_def)


lemma run_route_with_priority:
  "snd (run route_with_priority r ms) = map (\<lambda>m. snd (route_with_priority r m)) ms"
proof (induction ms arbitrary: r)
  case (Cons m ms)
  then show ?case by (simp add: route_with_priority_queue)
qed simp

subsection \<open>Properties\<close>

text \<open>C11. Round trip of the message codec, for every message: decoding what \<open>to_bytes\<close>
  wrote gives the message back with its payload cut to the length modulo 65536 (the header
  stores the length in 16 bits).\<close>

theorem message_roundtrip:
  "from_bytes (to_bytes m) =
     Some (Some (m\<lparr>payload := take (length (payload m) mod 65536) (payload m)\<rparr>))"
proof -
  let ?n = "of_nat (length (payload m)) :: u16"
  have n: "unat ?n = length (payload m) mod 65536" by (simp add: unat_of_nat)
  then have "\<not> length (payload m) < unat ?n" by (simp add: not_less)
  then have "from_bytes (to_bytes m) =
     Some (Some \<lparr>source_device_id = source_device_id m, timestamp_ms = timestamp_ms m,
       priority = priority m, payload = take (unat ?n) (payload m), routing_key = routing_key m\<rparr>)"
    by (simp add: to_bytes_def from_bytes_encoded)
  then show ?thesis by (simp add: n)
qed

text \<open>A message survives the codec exactly when its payload is shorter than 65536 bytes:
  a longer payload is silently truncated, with no error.\<close>

theorem message_roundtrip_iff:
  "from_bytes (to_bytes m) = Some (Some m) \<longleftrightarrow> length (payload m) < 65536"
proof -
  let ?k = "length (payload m) mod 65536"
  have "take ?k (payload m) = payload m \<longleftrightarrow> length (payload m) < 65536"
  proof
    assume "take ?k (payload m) = payload m"
    then have "length (payload m) \<le> ?k" by simp
    then show "length (payload m) < 65536"
      using mod_less_divisor [of 65536 "length (payload m)"] by linarith
  qed simp
  moreover have "from_bytes (to_bytes m) =
      Some (Some (m\<lparr>payload := take ?k (payload m)\<rparr>))"
    using le16.dec_enc by (simp add: to_bytes_def from_bytes_encoded unat_of_nat)
  moreover have "m\<lparr>payload := x\<rparr> = m \<longleftrightarrow> x = payload m" for x
    by (cases m) auto
  ultimately show ?thesis by simp
qed

text \<open>C10. The decoder accepts exactly the encodings of messages with a payload of at most
  65535 bytes, with any padding byte and any trailing bytes, and returns that message.\<close>

theorem from_bytes_exact:
  "from_bytes buf = Some (Some m) \<longleftrightarrow>
     length (payload m) < 65536 \<and>
     (\<exists>pad rest. buf = u64_to_le (source_device_id m) @ u64_to_le (timestamp_ms m)
        @ priority_u8 (priority m) # u32_to_le (routing_key m)
        @ u16_to_le (of_nat (length (payload m))) @ pad # payload m @ rest)"
  (is "_ \<longleftrightarrow> ?enc")
proof
  assume dec: "from_bytes buf = Some (Some m)"
  then have "24 \<le> length buf" by (simp add: from_bytes_def split: if_splits)
  then obtain a b p c d pad rest where buf: "buf = a @ b @ p # c @ d @ pad # rest"
    and len: "length a = 8" "length b = 8" "length c = 4" "length d = 2"
    by (rule buffer_layout)
  let ?n = "unat (u16_from_le d)"
  from dec obtain prio where p: "p = priority_u8 prio" and n: "?n \<le> length rest"
    and m: "m = \<lparr>source_device_id = u64_from_le a, timestamp_ms = u64_from_le b,
      priority = prio, payload = take ?n rest, routing_key = u32_from_le c\<rparr>"
    unfolding buf from_bytes_layout [OF len]
    by (auto simp: priority_of_u8_Some split: option.splits if_splits)
  have lp: "length (payload m) = ?n" using n by (simp add: m)
  have fields: "u64_to_le (source_device_id m) = a" "u64_to_le (timestamp_ms m) = b"
    "priority m = prio" "u32_to_le (routing_key m) = c" "payload m @ drop ?n rest = rest"
    using len le64.enc_dec le32.enc_dec by (simp_all add: m)
  have d: "u16_to_le (of_nat (length (payload m))) = d"
    using len(4) le16.enc_dec [of d] by (simp add: lp)
  have "buf = u64_to_le (source_device_id m) @ u64_to_le (timestamp_ms m)
        @ priority_u8 (priority m) # u32_to_le (routing_key m)
        @ u16_to_le (of_nat (length (payload m))) @ pad # payload m @ drop ?n rest"
    unfolding fields d buf p ..
  moreover have "?n < 65536" using unsigned_less [of "u16_from_le d"] by simp
  moreover have "length (payload m) < 65536" using lp \<open>?n < 65536\<close> by simp
  ultimately show ?enc by blast
next
  assume ?enc
  then obtain pad rest where n: "length (payload m) < 65536"
    and buf: "buf = u64_to_le (source_device_id m) @ u64_to_le (timestamp_ms m)
        @ priority_u8 (priority m) # u32_to_le (routing_key m)
        @ u16_to_le (of_nat (length (payload m))) @ pad # payload m @ rest"
    by blast
  have "unat (of_nat (length (payload m)) :: u16) = length (payload m)"
    using n by (intro word_of_nat_unat_small) simp
  then show "from_bytes buf = Some (Some m)"
    unfolding buf from_bytes_encoded by simp
qed

text \<open>The decoder never panics: on no input does a slice or an index leave the buffer.\<close>

theorem from_bytes_total: "from_bytes buf \<noteq> None"
proof (cases "24 \<le> length buf")
  case True
  then obtain a b p c d pad rest where "buf = a @ b @ p # c @ d @ pad # rest"
    and "length a = 8" "length b = 8" "length c = 4" "length d = 2"
    by (rule buffer_layout)
  then show ?thesis by (simp add: from_bytes_layout split: option.split)
qed (simp add: from_bytes_def)

text \<open>C36. The queue of a message depends on the message and the number of queues alone,
  whatever was routed before: critical messages go to queue 0, the others to the routing key
  modulo the number of queues; the index always exists, also for a router made with 0 queues.\<close>

theorem router_assigns:
  "snd (run route_with_priority (router_new n) ms) =
     map (\<lambda>m. Some (if priority m = Critical then 0 else routing_key m mod max n 1)) ms \<and>
   list_all (\<lambda>x. \<exists>i. x = Some i \<and> i < max n 1)
     (snd (run route_with_priority (router_new n) ms))"
proof
  have "queue_count (router_new n) \<noteq> 0" using router_new_ok [of n] by (auto simp: router_ok_def)
  then show "snd (run route_with_priority (router_new n) ms) =
     map (\<lambda>m. Some (if priority m = Critical then 0 else routing_key m mod max n 1)) ms"
    by (auto simp: run_route_with_priority route_with_priority_queue checked_rem_def router_new_def)
  show "list_all (\<lambda>x. \<exists>i. x = Some i \<and> i < max n 1)
     (snd (run route_with_priority (router_new n) ms))"
    using prio.run_routed [OF router_new_ok] by (auto simp: list_all_iff router_new_def)
qed


end
