(* ===== verification/Rust_Collections.thy ===== *)
theory Rust_Collections
  imports Prelude "HOL-Library.AList" "HOL-Library.Char_ord" "HOL-Library.List_Lexorder"
begin

text \<open>
  The standard maps the gateway keeps its state in. A \<^verbatim>\<open>HashMap\<close> is an association list
  with distinct keys (its order is never observed); a \<^verbatim>\<open>BTreeMap\<close> is an association list
  whose keys ascend, so that iterating it visits the keys in order (strings bytewise, as
  Rust's \<^verbatim>\<open>Ord\<close> for \<^verbatim>\<open>str\<close>). Both meet the contract \<open>key_map\<close>, on which the lemmas about
  lookups and lengths are proved once.
\<close>

subsection \<open>The contract of a finite map\<close>

locale key_map =
  fixes emp :: "'m" and ins :: "'k \<Rightarrow> 'v \<Rightarrow> 'm \<Rightarrow> 'm" and del :: "'k \<Rightarrow> 'm \<Rightarrow> 'm"
    and get :: "'m \<Rightarrow> 'k \<Rightarrow> 'v option" and len :: "'m \<Rightarrow> nat" and wf :: "'m \<Rightarrow> bool"
  assumes wf_emp: "wf emp"
    and wf_ins: "wf m \<Longrightarrow> wf (ins k v m)"
    and wf_del: "wf m \<Longrightarrow> wf (del k m)"
    and get_emp: "get emp = Map.empty"
    and get_ins: "wf m \<Longrightarrow> get (ins k v m) = (get m)(k \<mapsto> v)"
    and get_del: "wf m \<Longrightarrow> get (del k m) = (get m)(k := None)"
    and fin_dom: "finite (dom (get m))"
    and len_card: "wf m \<Longrightarrow> len m = card (dom (get m))"
begin

lemma len_emp: "len emp = 0"
  by (simp add: len_card wf_emp get_emp)

lemma len_ins: "wf m \<Longrightarrow> len (ins k v m) = (if get m k = None then Suc (len m) else len m)"
  by (simp add: len_card wf_ins get_ins fin_dom card_insert_if domIff)

lemma len_del: "wf m \<Longrightarrow> len (del k m) = (if get m k = None then len m else len m - 1)"
  by (auto simp: len_card wf_del get_del fin_dom dom_fun_upd domIff card_Diff_singleton_if)

lemma del_ins_len: "wf m \<Longrightarrow> get m k = None \<Longrightarrow> len (del k (ins k v m)) = len m"
  by (simp add: len_del len_ins wf_ins get_ins)

end

locale retain_map = key_map emp ins del get len wf
  for emp :: "'m" and ins :: "'k \<Rightarrow> 'v \<Rightarrow> 'm \<Rightarrow> 'm" and del :: "'k \<Rightarrow> 'm \<Rightarrow> 'm"
    and get :: "'m \<Rightarrow> 'k \<Rightarrow> 'v option" and len :: "'m \<Rightarrow> nat" and wf :: "'m \<Rightarrow> bool" +
  fixes retain :: "('k \<Rightarrow> 'v \<Rightarrow> bool) \<Rightarrow> 'm \<Rightarrow> 'm"
  assumes wf_retain: "wf m \<Longrightarrow> wf (retain P m)"
    and get_retain: "wf m \<Longrightarrow> get (retain P m) k =
          (case get m k of None \<Rightarrow> None | Some v \<Rightarrow> if P k v then Some v else None)"
begin

lemma dom_retain: "wf m \<Longrightarrow> dom (get (retain P m)) = {k. \<exists>v. get m k = Some v \<and> P k v}"
  by (auto simp: get_retain dom_def split: option.splits)

lemma len_retain_le: "wf m \<Longrightarrow> len (retain P m) \<le> len m"
  by (simp add: len_card wf_retain dom_retain) (rule card_mono [OF fin_dom], auto)

text \<open>What \<open>retain\<close> drops, as a number: the keys whose value fails the predicate.\<close>

lemma len_retain:
  assumes "wf m"
  shows "len m - len (retain P m) = card {k. \<exists>v. get m k = Some v \<and> \<not> P k v}"
proof -
  let ?drop = "{k. \<exists>v. get m k = Some v \<and> \<not> P k v}"
  let ?keep = "{k. \<exists>v. get m k = Some v \<and> P k v}"
  have "dom (get m) = ?keep \<union> ?drop" and "?keep \<inter> ?drop = {}" by auto
  moreover have "finite ?keep" "finite ?drop"
    by (rule finite_subset [OF _ fin_dom [of m]], auto)+
  ultimately have "card (dom (get m)) = card ?keep + card ?drop"
    by (simp add: card_Un_disjoint)
  with assms show ?thesis by (simp add: len_card wf_retain dom_retain)
qed

end

subsection \<open>HashMap\<close>

type_synonym ('k, 'v) hash_map = "('k \<times> 'v) list"

definition hm_wf :: "('k, 'v) hash_map \<Rightarrow> bool" where
  "hm_wf m \<longleftrightarrow> distinct (map fst m)"

definition hm_get :: "('k, 'v) hash_map \<Rightarrow> 'k \<Rightarrow> 'v option" where
  "hm_get m k = map_of m k"

definition hm_insert :: "'k \<Rightarrow> 'v \<Rightarrow> ('k, 'v) hash_map \<Rightarrow> ('k, 'v) hash_map" where
  "hm_insert k v m = AList.update k v m"

definition hm_remove :: "'k \<Rightarrow> ('k, 'v) hash_map \<Rightarrow> ('k, 'v) hash_map" where
  "hm_remove k m = AList.delete k m"

definition hm_retain :: "('k \<Rightarrow> 'v \<Rightarrow> bool) \<Rightarrow> ('k, 'v) hash_map \<Rightarrow> ('k, 'v) hash_map" where
  "hm_retain P m = filter (\<lambda>(k, v). P k v) m"

lemma hm_get_map_of: "hm_get m = map_of m"
  by (simp add: hm_get_def fun_eq_iff)

lemma distinct_map_filter_fst: "distinct (map fst m) \<Longrightarrow> distinct (map fst (filter P m))"
  by (induction m) auto

lemma map_of_filter_distinct:
  "distinct (map fst m) \<Longrightarrow> map_of (filter (\<lambda>(k, v). P k v) m) k =
     (case map_of m k of None \<Rightarrow> None | Some v \<Rightarrow> if P k v then Some v else None)"
  by (induction m) (auto simp: map_of_eq_None_iff rev_image_eqI split: option.splits)

lemma hm_len_card: "hm_wf m \<Longrightarrow> length m = card (dom (hm_get m))"
proof -
  assume "hm_wf m"
  then have "card (fst ` set m) = length m"
    by (metis distinct_card hm_wf_def length_map list.set_map)
  then show ?thesis by (simp add: hm_get_map_of dom_map_of_conv_image_fst)
qed

interpretation hm: retain_map "[]" hm_insert hm_remove hm_get length hm_wf hm_retain
proof unfold_locales
  show "hm_wf []" by (simp add: hm_wf_def)
  show "hm_wf m \<Longrightarrow> hm_wf (hm_insert k v m)" for m :: "('a, 'b) hash_map" and k v
    by (simp add: hm_wf_def hm_insert_def distinct_update)
  show "hm_wf m \<Longrightarrow> hm_wf (hm_remove k m)" for m :: "('a, 'b) hash_map" and k
    by (simp add: hm_wf_def hm_remove_def distinct_delete)
  show "hm_get [] = Map.empty" by (simp add: hm_get_def fun_eq_iff)
  show "hm_get (hm_insert k v m) = (hm_get m)(k \<mapsto> v)" for m :: "('a, 'b) hash_map" and k v
    by (simp add: hm_get_def hm_insert_def update_conv' fun_eq_iff)
  show "hm_get (hm_remove k m) = (hm_get m)(k := None)" for m :: "('a, 'b) hash_map" and k
    by (simp add: hm_get_def hm_remove_def delete_conv' fun_eq_iff)
  show "finite (dom (hm_get m))" for m :: "('a, 'b) hash_map"
    by (simp add: hm_get_map_of finite_dom_map_of)
  show "hm_wf m \<Longrightarrow> length m = card (dom (hm_get m))" for m :: "('a, 'b) hash_map"
    by (rule hm_len_card)
  show "hm_wf m \<Longrightarrow> hm_wf (hm_retain P m)" for m :: "('a, 'b) hash_map" and P
    by (simp add: hm_wf_def hm_retain_def distinct_map_filter_fst)
  show "hm_wf m \<Longrightarrow> hm_get (hm_retain P m) k =
      (case hm_get m k of None \<Rightarrow> None | Some v \<Rightarrow> if P k v then Some v else None)"
    for m :: "('a, 'b) hash_map" and P k
    by (simp add: hm_wf_def hm_get_def hm_retain_def map_of_filter_distinct)
qed

subsection \<open>BTreeMap\<close>

type_synonym ('k, 'v) btree_map = "('k \<times> 'v) list"

definition bt_wf :: "('k::linorder, 'v) btree_map \<Rightarrow> bool" where
  "bt_wf m \<longleftrightarrow> sorted_wrt (<) (map fst m)"

definition bt_get :: "('k::linorder, 'v) btree_map \<Rightarrow> 'k \<Rightarrow> 'v option" where
  "bt_get m k = map_of m k"

fun bt_insert :: "'k::linorder \<Rightarrow> 'v \<Rightarrow> ('k, 'v) btree_map \<Rightarrow> ('k, 'v) btree_map" where
  "bt_insert k v [] = [(k, v)]"
| "bt_insert k v ((k', v') # m) =
     (if k < k' then (k, v) # (k', v') # m
      else if k = k' then (k, v) # m
      else (k', v') # bt_insert k v m)"

definition bt_remove :: "'k::linorder \<Rightarrow> ('k, 'v) btree_map \<Rightarrow> ('k, 'v) btree_map" where
  "bt_remove k m = AList.delete k m"

lemma bt_get_map_of: "bt_get m = map_of m"
  by (simp add: bt_get_def fun_eq_iff)

lemma keys_bt_insert: "fst ` set (bt_insert k v m) = insert k (fst ` set m)"
  by (induction k v m rule: bt_insert.induct) (simp_all add: insert_commute)

lemma bt_wf_insert: "bt_wf m \<Longrightarrow> bt_wf (bt_insert k v m)"
  unfolding bt_wf_def
proof (induction m)
  case (Cons p m)
  obtain k' v' where p: "p = (k', v')" by (cases p)
  from Cons have "sorted_wrt (<) (map fst (bt_insert k v m))" by simp
  moreover have "\<forall>x \<in> set (map fst (bt_insert k v m)). k' < x" if "k' < k"
    using Cons.prems that by (simp add: p keys_bt_insert)
  ultimately show ?case using Cons.prems by (auto simp: p dest: less_trans)
qed simp

lemma map_of_bt_insert: "map_of (bt_insert k v m) = (map_of m)(k \<mapsto> v)"
  by (induction m) auto

lemma bt_wf_distinct: "bt_wf m \<Longrightarrow> distinct (map fst m)"
  by (simp add: bt_wf_def strict_sorted_iff)

lemma bt_wf_delete: "bt_wf m \<Longrightarrow> bt_wf (AList.delete k m)"
  unfolding bt_wf_def by (simp add: AList.delete_eq sorted_wrt_map sorted_wrt_filter)

interpretation bt: key_map "[]" bt_insert bt_remove bt_get length bt_wf
proof unfold_locales
  show "bt_wf ([] :: ('a::linorder, 'b) btree_map)" by (simp add: bt_wf_def)
  show "bt_wf m \<Longrightarrow> bt_wf (bt_insert k v m)" for m :: "('a::linorder, 'b) btree_map" and k v
    by (rule bt_wf_insert)
  show "bt_wf m \<Longrightarrow> bt_wf (bt_remove k m)" for m :: "('a::linorder, 'b) btree_map" and k
    by (simp add: bt_remove_def bt_wf_delete)
  show "bt_get [] = Map.empty" by (simp add: bt_get_def fun_eq_iff)
  show "bt_get (bt_insert k v m) = (bt_get m)(k \<mapsto> v)"
    for m :: "('a::linorder, 'b) btree_map" and k v
    by (simp add: bt_get_def map_of_bt_insert fun_eq_iff)
  show "bt_get (bt_remove k m) = (bt_get m)(k := None)"
    for m :: "('a::linorder, 'b) btree_map" and k
    by (simp add: bt_get_def bt_remove_def delete_conv' fun_eq_iff)
  show "finite (dom (bt_get m))" for m :: "('a::linorder, 'b) btree_map"
    by (simp add: bt_get_map_of finite_dom_map_of)
  show "bt_wf m \<Longrightarrow> length m = card (dom (bt_get m))" for m :: "('a::linorder, 'b) btree_map"
    using hm_len_card [of m] by (simp add: hm_wf_def hm_get_map_of bt_get_map_of bt_wf_distinct)
qed

end
