(* ===== verification/Device_Keys.thy ===== *)
theory Device_Keys
  imports Rust_Bytes Rust_Collections
begin

text \<open>
  \<^verbatim>\<open>src/device_keys.rs\<close>: per-device keys derived from a master secret and cached in a
  \<^verbatim>\<open>HashMap\<close>. The key derivation \<^verbatim>\<open>alice_crypto::derive_key\<close> followed by
  \<^verbatim>\<open>Key::from_bytes\<close> is the parameter \<open>kdf\<close> (context string, then secret). The lemmas
  show that the cache is transparent: whatever the history, a device's key is the derived one.
\<close>

record 'key device_key_store =
  master_secret :: bytes
  key_cache :: "(u64, 'key) hash_map"

definition key_store_new :: "bytes \<Rightarrow> 'key device_key_store" where
  "key_store_new secret = \<lparr>master_secret = secret, key_cache = []\<rparr>"

text \<open>The KDF context \<^verbatim>\<open>alice-gw:device:{device_id}\<close>.\<close>

definition key_context :: "u64 \<Rightarrow> string" where
  "key_context device_id = ''alice-gw:device:'' @ fmt_u64 device_id"

definition derive_device_key ::
  "(string \<Rightarrow> bytes \<Rightarrow> 'key) \<Rightarrow> 'key device_key_store \<Rightarrow> u64 \<Rightarrow> 'key device_key_store \<times> 'key" where
  "derive_device_key kdf st device_id =
     (case hm_get (key_cache st) device_id of
        Some key \<Rightarrow> (st, key)
      | None \<Rightarrow>
          let key = kdf (key_context device_id) (master_secret st)
          in (st\<lparr>key_cache := hm_insert device_id key (key_cache st)\<rparr>, key))"

definition revoke_device :: "'key device_key_store \<Rightarrow> u64 \<Rightarrow> 'key device_key_store" where
  "revoke_device st device_id = st\<lparr>key_cache := hm_remove device_id (key_cache st)\<rparr>"

definition cached_key_count :: "'key device_key_store \<Rightarrow> usize" where
  "cached_key_count st = length (key_cache st)"

definition clear_cache :: "'key device_key_store \<Rightarrow> 'key device_key_store" where
  "clear_cache st = st\<lparr>key_cache := []\<rparr>"

subsection \<open>Sequences of operations\<close>

datatype key_op = Derive u64 | Revoke u64 | Clear

fun key_step ::
  "(string \<Rightarrow> bytes \<Rightarrow> 'key) \<Rightarrow> 'key device_key_store \<Rightarrow> key_op
     \<Rightarrow> 'key device_key_store \<times> 'key option" where
  "key_step kdf st (Derive d) = (let (st', k) = derive_device_key kdf st d in (st', Some k))"
| "key_step kdf st (Revoke d) = (revoke_device st d, None)"
| "key_step kdf st Clear = (clear_cache st, None)"

text \<open>The invariant: the cache is a map, and holds nothing but derived keys.\<close>

definition key_store_ok :: "(string \<Rightarrow> bytes \<Rightarrow> 'key) \<Rightarrow> bytes \<Rightarrow> 'key device_key_store \<Rightarrow> bool" where
  "key_store_ok kdf secret st \<longleftrightarrow>
     master_secret st = secret \<and> hm_wf (key_cache st) \<and>
     (\<forall>d k. hm_get (key_cache st) d = Some k \<longrightarrow> k = kdf (key_context d) secret)"

lemma key_store_new_ok: "key_store_ok kdf secret (key_store_new secret)"
  by (simp add: key_store_ok_def key_store_new_def hm.wf_emp hm.get_emp)

lemma derive_ok: "key_store_ok kdf secret st \<Longrightarrow> key_store_ok kdf secret (fst (derive_device_key kdf st d))"
  by (auto simp: key_store_ok_def derive_device_key_def Let_def hm.wf_ins hm.get_ins
      split: option.split)

lemma revoke_ok: "key_store_ok kdf secret st \<Longrightarrow> key_store_ok kdf secret (revoke_device st d)"
  by (auto simp: key_store_ok_def revoke_device_def hm.wf_del hm.get_del split: if_splits)

lemma clear_ok: "key_store_ok kdf secret st \<Longrightarrow> key_store_ok kdf secret (clear_cache st)"
  by (simp add: key_store_ok_def clear_cache_def hm.wf_emp hm.get_emp)

interpretation key_store: invariant_machine "key_step kdf" "key_store_ok kdf secret"
  for kdf :: "string \<Rightarrow> bytes \<Rightarrow> 'key" and secret
proof unfold_locales
  show "key_store_ok kdf secret st \<Longrightarrow> key_store_ok kdf secret (fst (key_step kdf st e))" for st e
    by (cases e) (simp_all add: derive_ok revoke_ok clear_ok split_def Let_def)
qed

lemma derive_key_value:
  "key_store_ok kdf secret st \<Longrightarrow> snd (derive_device_key kdf st d) = kdf (key_context d) secret"
  by (auto simp: key_store_ok_def derive_device_key_def Let_def split: option.split)

text \<open>A reference store without a cache, which derives every key afresh, and the simulation.\<close>

fun fresh_step :: "(string \<Rightarrow> bytes \<Rightarrow> 'key) \<Rightarrow> bytes \<Rightarrow> key_op \<Rightarrow> bytes \<times> 'key option" where
  "fresh_step kdf secret (Derive d) = (secret, Some (kdf (key_context d) secret))"
| "fresh_step kdf secret _ = (secret, None)"

interpretation key_store_sim:
  simulation "key_step kdf" "key_store_ok kdf secret" "fresh_step kdf" master_secret
  for kdf :: "string \<Rightarrow> bytes \<Rightarrow> 'key" and secret
proof unfold_locales
  show "key_store_ok kdf secret s \<Longrightarrow> fresh_step kdf (master_secret s) e =
      (master_secret (fst (key_step kdf s e)), snd (key_step kdf s e))" for s e
    using derive_ok [of kdf secret s] derive_key_value [of kdf secret s]
    by (cases e) (simp_all add: split_def Let_def revoke_device_def clear_cache_def key_store_ok_def)
qed

lemma key_context_inject: "key_context d = key_context d' \<longleftrightarrow> d = d'"
  by (simp add: key_context_def fmt_u64_inject)

lemma run_fresh: "run (fresh_step kdf) secret ops =
    (secret, map (\<lambda>x. case x of Derive d \<Rightarrow> Some (kdf (key_context d) secret) | _ \<Rightarrow> None) ops)"
  by (induction ops) (auto simp: run_Cons split: key_op.split)

text \<open>How many keys are cached: each derived device counts once until it is revoked.\<close>

fun cached_devices :: "u64 set \<Rightarrow> key_op list \<Rightarrow> u64 set" where
  "cached_devices D [] = D"
| "cached_devices D (Derive d # ops) = cached_devices (insert d D) ops"
| "cached_devices D (Revoke d # ops) = cached_devices (D - {d}) ops"
| "cached_devices D (Clear # ops) = cached_devices {} ops"

lemma dom_run_keys:
  "key_store_ok kdf secret st \<Longrightarrow>
   dom (hm_get (key_cache (fst (run (key_step kdf) st ops)))) =
     cached_devices (dom (hm_get (key_cache st))) ops"
proof (induction ops arbitrary: st)
  case (Cons x ops)
  have "key_store_ok kdf secret (fst (key_step kdf st x))"
    using Cons.prems by (rule key_store.step_inv)
  note IH = Cons.IH [OF this]
  have wf: "hm_wf (key_cache st)" using Cons.prems by (simp add: key_store_ok_def)
  show ?case
  proof (cases x)
    case (Derive d)
    have "dom (hm_get (key_cache (fst (derive_device_key kdf st d)))) =
        insert d (dom (hm_get (key_cache st)))"
      using wf by (auto simp: derive_device_key_def Let_def hm.get_ins split: option.split)
    with IH Derive show ?thesis by (simp add: split_def Let_def)
  next
    case (Revoke d)
    have "dom (hm_get (hm_remove d (key_cache st))) = dom (hm_get (key_cache st)) - {d}"
      using wf by (auto simp: hm.get_del)
    with IH Revoke show ?thesis by (simp add: revoke_device_def)
  next
    case Clear
    with IH show ?thesis by (simp add: clear_cache_def hm.get_emp)
  qed
qed simp

subsection \<open>Properties\<close>

text \<open>C18. The key cache is transparent: over any sequence of derivations, revocations and
  clears, every derivation returns the key derived from the device's context and the master
  secret, exactly as a store without a cache would; in particular revoking a device never
  changes the key it gets next.\<close>

theorem key_cache_transparent:
  "snd (run (key_step kdf) (key_store_new secret) ops) =
     map (\<lambda>x. case x of Derive d \<Rightarrow> Some (kdf (key_context d) secret) | _ \<Rightarrow> None) ops"
proof -
  have "run (fresh_step kdf) (master_secret (key_store_new secret :: 'a device_key_store)) ops =
      (master_secret (fst (run (key_step kdf) (key_store_new secret) ops)),
       snd (run (key_step kdf) (key_store_new secret) ops))"
    by (rule key_store_sim.run_sim) (rule key_store_new_ok)
  then show ?thesis by (simp add: run_fresh key_store_new_def)
qed

text \<open>Distinct devices have distinct derivation contexts, over the whole 64-bit range of
  device identifiers: the decimal text of an identifier determines it.\<close>

theorem key_context_injective: "key_context d = key_context d' \<longleftrightarrow> d = d'"
  by (rule key_context_inject)

text \<open>C38. The number of cached keys after any sequence of operations is the number of devices
  derived and neither revoked nor cleared since: one entry per device.\<close>

theorem cached_key_count_run:
  "cached_key_count (fst (run (key_step kdf) (key_store_new secret) ops)) =
     card (cached_devices {} ops)"
proof -
  let ?st = "fst (run (key_step kdf) (key_store_new secret) ops)"
  have ok: "key_store_ok kdf secret ?st"
    by (rule key_store.run_inv) (rule key_store_new_ok)
  then have "cached_key_count ?st = card (dom (hm_get (key_cache ?st)))"
    by (simp add: cached_key_count_def key_store_ok_def hm.len_card)
  also have "dom (hm_get (key_cache ?st)) = cached_devices {} ops"
    using dom_run_keys [OF key_store_new_ok] by (simp add: key_store_new_def hm.get_emp)
  finally show ?thesis .
qed

end
