(* ===== verification/Rounding.thy ===== *)
theory Rounding
  imports Complex_Main
begin

text \<open>
  Rounding of rationals to the grid of IEEE-754 binary64 numbers, ties to even: the
  arithmetic core under the \<^verbatim>\<open>f64\<close> values of the gateway (token counts, watermark
  ratios, timeouts, averages). \<open>round64\<close> computes; \<open>on_grid\<close> says which rationals
  the format holds (with gradual underflow and no bound on the exponent from above: the
  overflow to infinity is in theory Rust_Float). The lemmas show that \<open>round64\<close> is
  monotone, exact on the grid, odd, at most half a unit in the last place away, and that no number
  of the format is closer (\<open>round64_nearest\<close>).
\<close>

subsection \<open>What every rounding owes its users\<close>

locale rounding =
  fixes rnd :: "rat \<Rightarrow> rat" and grid :: "rat \<Rightarrow> bool"
  assumes rnd_mono: "x \<le> y \<Longrightarrow> rnd x \<le> rnd y"
    and rnd_on_grid: "grid (rnd x)"
    and rnd_fix: "grid r \<Longrightarrow> rnd r = r"
begin

lemma rnd_le: "x \<le> r \<Longrightarrow> grid r \<Longrightarrow> rnd x \<le> r"
  using rnd_mono [of x r] by (simp add: rnd_fix)

lemma rnd_ge: "r \<le> x \<Longrightarrow> grid r \<Longrightarrow> r \<le> rnd x"
  using rnd_mono [of r x] by (simp add: rnd_fix)

lemma rnd_idem: "rnd (rnd x) = rnd x"
  by (rule rnd_fix) (rule rnd_on_grid)

lemma rnd_faithful: "grid r \<Longrightarrow> \<not> (x < r \<and> r < rnd x) \<and> \<not> (rnd x < r \<and> r < x)"
  using rnd_le [of x r] rnd_ge [of r x] by linarith

end

subsection \<open>Powers of two\<close>

abbreviation pow2 :: "int \<Rightarrow> rat" where
  "pow2 e \<equiv> 2 powi e"

lemma pow2_pos: "0 < pow2 e"
  by simp

lemma pow2_mono: "a \<le> b \<Longrightarrow> pow2 a \<le> pow2 b"
  by (rule power_int_increasing) simp_all

lemma pow2_strict_mono: "a < b \<Longrightarrow> pow2 a < pow2 b"
  by (rule power_int_strict_increasing) simp_all

lemma pow2_less_iff: "pow2 a < pow2 b \<longleftrightarrow> a < b"
  by (meson linorder_not_less pow2_mono pow2_strict_mono)

lemma pow2_add: "pow2 (a + b) = pow2 a * pow2 b"
  by (simp add: power_int_add)

lemma pow2_diff: "pow2 (a - b) = pow2 a / pow2 b"
  by (simp add: power_int_diff)

lemma pow2_int: "0 \<le> e \<Longrightarrow> pow2 e = of_int (2 ^ nat e)"
  by (simp add: power_int_nonneg_exp)

lemma pow2_split: "u \<le> e \<Longrightarrow> pow2 e = of_int (2 ^ nat (e - u)) * pow2 u"
  by (metis pow2_int pow2_add diff_add_cancel diff_ge_0_iff_ge)

subsection \<open>The binary exponent of a rational\<close>

fun nlog2 :: "nat \<Rightarrow> nat" where
  "nlog2 n = (if n < 2 then 0 else Suc (nlog2 (n div 2)))"

declare nlog2.simps [simp del]

lemma nlog2_bounds: "0 < n \<Longrightarrow> 2 ^ nlog2 n \<le> n \<and> n < 2 ^ Suc (nlog2 n)"
proof (induction n rule: nlog2.induct)
  case (1 n)
  show ?case
  proof (cases "n < 2")
    case True
    with "1.prems" show ?thesis by (simp add: nlog2.simps [of n])
  next
    case False
    with "1.IH" have "2 ^ nlog2 (n div 2) \<le> n div 2 \<and> n div 2 < 2 ^ Suc (nlog2 (n div 2))"
      by simp
    then have "2 * 2 ^ nlog2 (n div 2) \<le> n \<and> n < 2 * 2 ^ Suc (nlog2 (n div 2))"
      by linarith
    with False show ?thesis by (simp add: nlog2.simps [of n])
  qed
qed

lemma nlog2_rat_bounds:
  assumes "0 < n"
  shows "(2::rat) ^ nlog2 n \<le> of_nat n" and "of_nat n + 1 \<le> (2::rat) ^ Suc (nlog2 n)"
proof -
  from nlog2_bounds [OF assms] have "2 ^ nlog2 n \<le> n" "n + 1 \<le> 2 ^ Suc (nlog2 n)"
    by simp_all
  then have "(of_nat (2 ^ nlog2 n) :: rat) \<le> of_nat n"
    and "(of_nat (n + 1) :: rat) \<le> of_nat (2 ^ Suc (nlog2 n))"
    by (simp_all only: of_nat_le_iff)
  then show "(2::rat) ^ nlog2 n \<le> of_nat n" and "of_nat n + 1 \<le> (2::rat) ^ Suc (nlog2 n)"
    by simp_all
qed

definition ilog2 :: "rat \<Rightarrow> int" where
  "ilog2 q = (if 1 \<le> q then int (nlog2 (nat \<lfloor>q\<rfloor>))
              else - int (Suc (nlog2 (nat (\<lceil>1 / q\<rceil> - 1)))))"

lemma ilog2_bounds:
  assumes "0 < q"
  shows "pow2 (ilog2 q) \<le> q \<and> q < pow2 (ilog2 q + 1)"
proof (cases "1 \<le> q")
  case True
  let ?n = "nat \<lfloor>q\<rfloor>" let ?k = "nlog2 ?n"
  have n: "0 < ?n" "of_nat ?n \<le> q" "q < of_nat ?n + 1"
    using True by (simp_all, linarith)
  note b = nlog2_rat_bounds [OF n(1)]
  from b(1) n(2) have "2 ^ ?k \<le> q" by (rule order_trans)
  moreover from n(3) b(2) have "q < 2 ^ Suc ?k" by (rule less_le_trans)
  moreover have "ilog2 q = int ?k" using True by (simp add: ilog2_def)
  ultimately show ?thesis by (simp add: power_int_add)
next
  case False
  let ?c = "\<lceil>1 / q\<rceil>" let ?n = "nat (?c - 1)" let ?k = "nlog2 ?n"
  have inv: "1 < 1 / q" using False assms by simp
  then have c: "2 \<le> ?c" by linarith
  then have n: "0 < ?n" "int ?n = ?c - 1" by linarith+
  have ceil: "1 / q \<le> of_int ?c" "of_int ?c - 1 < 1 / q"
    using ceiling_correct [of "1 / q"] by simp_all
  note b = nlog2_rat_bounds [OF n(1)]
  have "(of_nat ?n :: rat) = of_int ?c - 1" using n(2)
    by (metis of_int_1 of_int_diff of_int_of_nat_eq)
  with b ceil have lo: "2 ^ ?k < 1 / q" and hi: "1 / q \<le> 2 ^ Suc ?k" by linarith+
  have e: "ilog2 q = - int (Suc ?k)" using False by (simp add: ilog2_def)
  have "pow2 (ilog2 q) = 1 / 2 ^ Suc ?k"
    unfolding e by (simp only: power_int_minus_divide power_int_of_nat)
  moreover have "ilog2 q + 1 = - int ?k" using e by simp
  then have "pow2 (ilog2 q + 1) = 1 / 2 ^ ?k"
    by (simp only: power_int_minus_divide power_int_of_nat)
  moreover have "1 / 2 ^ Suc ?k \<le> q" using hi assms by (simp add: field_simps)
  moreover have "q < 1 / 2 ^ ?k" using lo assms by (simp add: field_simps)
  ultimately show ?thesis by simp
qed

lemma ilog2_le: "0 < q \<Longrightarrow> q < pow2 (k + 1) \<Longrightarrow> ilog2 q \<le> k"
  using ilog2_bounds [of q] pow2_less_iff [of "ilog2 q" "k + 1"] by linarith

lemma ilog2_ge: "0 < q \<Longrightarrow> pow2 k \<le> q \<Longrightarrow> k \<le> ilog2 q"
  using ilog2_bounds [of q] pow2_less_iff [of k "ilog2 q + 1"] by linarith

lemma ilog2_mono: "0 < p \<Longrightarrow> p \<le> q \<Longrightarrow> ilog2 p \<le> ilog2 q"
  using ilog2_bounds [of p] by (intro ilog2_ge) linarith+

subsection \<open>Rounding a rational to an integer, ties to even\<close>

definition rne :: "rat \<Rightarrow> int" where
  "rne x = (let f = \<lfloor>x\<rfloor>; d = x - of_int f
            in if d < 1 / 2 then f else if 1 / 2 < d then f + 1
               else if even f then f else f + 1)"

lemma rne_of_int [simp]: "rne (of_int n) = n"
  by (simp add: rne_def)

lemma rne_cases: "rne x = \<lfloor>x\<rfloor> \<or> rne x = \<lfloor>x\<rfloor> + 1"
  by (auto simp: rne_def Let_def)

lemma rne_err: "\<bar>of_int (rne x) - x\<bar> \<le> 1 / 2"
proof -
  have "of_int \<lfloor>x\<rfloor> \<le> x" "x < of_int \<lfloor>x\<rfloor> + 1" by linarith+
  then show ?thesis
    unfolding rne_def Let_def by (simp split: if_split)
qed

lemma rne_mono: "x \<le> y \<Longrightarrow> rne x \<le> rne y"
proof -
  assume le: "x \<le> y"
  then have f: "\<lfloor>x\<rfloor> \<le> \<lfloor>y\<rfloor>" by (rule floor_mono)
  show ?thesis
  proof (cases "\<lfloor>x\<rfloor> = \<lfloor>y\<rfloor>")
    case True
    with le show ?thesis unfolding rne_def Let_def by (simp split: if_split)
  next
    case False
    with f have "\<lfloor>x\<rfloor> + 1 \<le> \<lfloor>y\<rfloor>" by simp
    with rne_cases [of x] rne_cases [of y] show ?thesis by linarith
  qed
qed

lemma rne_neg: "rne (- x) = - rne x"
proof (cases "x = of_int \<lfloor>x\<rfloor>")
  case True
  then have "rne x = \<lfloor>x\<rfloor>" "rne (- x) = - \<lfloor>x\<rfloor>"
    by (metis rne_of_int, metis of_int_minus rne_of_int)
  then show ?thesis by simp
next
  case False
  then have "\<lfloor>- x\<rfloor> = - \<lfloor>x\<rfloor> - 1" by linarith
  then show ?thesis unfolding rne_def Let_def by (simp split: if_split)
qed

lemma rne_le_int: "x \<le> of_int n \<Longrightarrow> rne x \<le> n"
  using rne_mono [of x "of_int n"] by simp

lemma rne_ge_int: "of_int n \<le> x \<Longrightarrow> n \<le> rne x"
  using rne_mono [of "of_int n" x] by simp


subsection \<open>Rounding a rational to the binary64 grid\<close>

definition ulp_exp :: "rat \<Rightarrow> int" where
  "ulp_exp q = max (ilog2 \<bar>q\<bar> - 52) (-1074)"

definition round64 :: "rat \<Rightarrow> rat" where
  "round64 q = (if q = 0 then 0
                else let e = ulp_exp q in of_int (rne (q / pow2 e)) * pow2 e)"

definition on_grid :: "rat \<Rightarrow> bool" where
  "on_grid q \<longleftrightarrow> (\<exists>m e. q = of_int m * pow2 e \<and> \<bar>m\<bar> \<le> 2 ^ 53 \<and> -1074 \<le> e)"

lemma ulp_exp_neg [simp]: "ulp_exp (- q) = ulp_exp q"
  by (simp add: ulp_exp_def)

lemma ulp_exp_ge: "-1074 \<le> ulp_exp q"
  by (simp add: ulp_exp_def)

lemma ulp_exp_mono: "0 < p \<Longrightarrow> p \<le> q \<Longrightarrow> ulp_exp p \<le> ulp_exp q"
  using ilog2_mono [of p q] by (simp add: ulp_exp_def)

lemma round64_0 [simp]: "round64 0 = 0"
  by (simp add: round64_def)

lemma round64_eq: "q \<noteq> 0 \<Longrightarrow> round64 q = of_int (rne (q / pow2 (ulp_exp q))) * pow2 (ulp_exp q)"
  by (simp add: round64_def Let_def)

lemma round64_neg: "round64 (- q) = - round64 q"
  by (cases "q = 0") (simp_all add: round64_eq rne_neg)

lemma on_grid_neg: "on_grid (- q) = on_grid q"
proof -
  have "on_grid (- q)" if "on_grid q" for q
  proof -
    from that obtain m e where "q = of_int m * pow2 e" "\<bar>m\<bar> \<le> 2 ^ 53" "-1074 \<le> e"
      by (auto simp: on_grid_def)
    then show ?thesis unfolding on_grid_def by (intro exI [of _ "- m"] exI [of _ e]) simp
  qed
  from this [of q] this [of "- q"] show ?thesis by auto
qed

lemma on_grid_int: "\<bar>n\<bar> \<le> 2 ^ 53 \<Longrightarrow> on_grid (of_int n)"
  unfolding on_grid_def by (intro exI [of _ n] exI [of _ 0]) simp

lemma on_grid_pow2: "-1074 \<le> e \<Longrightarrow> on_grid (pow2 e)"
  unfolding on_grid_def by (intro exI [of _ 1] exI [of _ e]) simp

text \<open>The significand that \<open>round64\<close> computes has at most 53 bits.\<close>

lemma ulp_exp_scaled:
  assumes "q \<noteq> 0"
  shows "\<bar>q / pow2 (ulp_exp q)\<bar> < 2 ^ 53"
proof -
  have "\<bar>q\<bar> < pow2 (ilog2 \<bar>q\<bar> + 1)" using assms ilog2_bounds [of "\<bar>q\<bar>"] by simp
  also have "\<dots> \<le> pow2 (ulp_exp q + 53)" by (rule pow2_mono) (simp add: ulp_exp_def)
  finally have "\<bar>q\<bar> < 2 ^ 53 * pow2 (ulp_exp q)" by (simp add: pow2_add mult.commute)
  then show ?thesis by (simp add: abs_divide pos_divide_less_eq)
qed

lemma round64_on_grid: "on_grid (round64 q)"
proof (cases "q = 0")
  case True
  then show ?thesis using on_grid_int [of 0] by simp
next
  case False
  let ?x = "q / pow2 (ulp_exp q)"
  have "?x \<le> of_int (2 ^ 53)" "of_int (- (2 ^ 53)) \<le> ?x"
    using ulp_exp_scaled [OF False] unfolding of_int_power of_int_minus of_int_numeral
    by linarith+
  then have "\<bar>rne ?x\<bar> \<le> 2 ^ 53"
    using rne_le_int [of ?x "2 ^ 53"] rne_ge_int [of "- (2 ^ 53)" ?x] by (simp add: abs_le_iff)
  then show ?thesis
    unfolding on_grid_def round64_eq [OF False] using ulp_exp_ge [of q] by blast
qed

text \<open>A grid point is a multiple of the unit in the last place of any number at most it
  that is not far below: rounding leaves it alone.\<close>

lemma on_grid_multiple:
  assumes "on_grid r" and "0 < r"
  shows "\<exists>n. r = of_int n * pow2 (ulp_exp r)"
proof -
  from assms(1) obtain m e where r: "r = of_int m * pow2 e" and m: "\<bar>m\<bar> \<le> 2 ^ 53"
    and e: "-1074 \<le> e" by (auto simp: on_grid_def)
  from assms(2) r have mpos: "0 < m"
    using pow2_pos [of e] by (metis of_int_0_less_iff zero_less_mult_pos2)
  show ?thesis
  proof (cases "m = 2 ^ 53")
    case True
    then have "r = pow2 (e + 53)" using r by (simp add: pow2_add)
    moreover have "ulp_exp r \<le> e + 53"
    proof -
      have "ilog2 r \<le> e + 53"
        using assms(2) \<open>r = pow2 (e + 53)\<close> by (intro ilog2_le pow2_strict_mono) (simp_all add: pow2_strict_mono)
      then show ?thesis using e assms(2) by (simp add: ulp_exp_def)
    qed
    ultimately show ?thesis using pow2_split by blast
  next
    case False
    have "of_int m < (of_int (2 ^ 53) :: rat)" using False m mpos by (simp only: of_int_less_iff)
    then have "r < pow2 (e + 52 + 1)" using r by (simp add: pow2_add mult.commute)
    then have "ilog2 r \<le> e + 52" using assms(2) by (intro ilog2_le)
    then have le: "ulp_exp r \<le> e" using e assms(2) by (simp add: ulp_exp_def)
    have "r = of_int (m * 2 ^ nat (e - ulp_exp r)) * pow2 (ulp_exp r)"
      using pow2_split [OF le] r by (metis mult.assoc of_int_mult)
    then show ?thesis by blast
  qed
qed

lemma round64_grid_pos: "on_grid r \<Longrightarrow> 0 < r \<Longrightarrow> round64 r = r"
proof -
  assume "on_grid r" and "0 < r"
  then obtain n where n: "r = of_int n * pow2 (ulp_exp r)" using on_grid_multiple by blast
  then have "r / pow2 (ulp_exp r) = of_int n" by (metis nonzero_mult_div_cancel_right pow2_pos less_irrefl)
  then have "round64 r = of_int n * pow2 (ulp_exp r)" using \<open>0 < r\<close> by (simp add: round64_eq)
  with n show ?thesis by simp
qed

lemma round64_grid [simp]: "on_grid r \<Longrightarrow> round64 r = r"
proof (cases r "0::rat" rule: linorder_cases)
  case less
  assume "on_grid r"
  with less have "round64 (- r) = - r" by (intro round64_grid_pos) (simp_all add: on_grid_neg)
  then show ?thesis by (simp add: round64_neg)
qed (simp_all add: round64_grid_pos)

lemma round64_idem [simp]: "round64 (round64 q) = round64 q"
  by (simp add: round64_on_grid)

lemma round64_nonneg: "0 \<le> q \<Longrightarrow> 0 \<le> round64 q"
  by (cases "q = 0") (simp_all add: round64_eq rne_ge_int)

lemma round64_mono_pos:
  assumes "0 < x" and "x \<le> y"
  shows "round64 x \<le> round64 y"
proof (cases "ulp_exp x = ulp_exp y")
  case True
  let ?u = "pow2 (ulp_exp y)"
  have "x / ?u \<le> y / ?u" using assms(2) by (simp add: divide_right_mono)
  then have "rne (x / ?u) \<le> rne (y / ?u)" by (rule rne_mono)
  then have "(of_int (rne (x / ?u)) :: rat) * ?u \<le> of_int (rne (y / ?u)) * ?u"
    by (intro mult_right_mono) simp_all
  then show ?thesis using assms True by (simp add: round64_eq)
next
  case False
  let ?k = "ilog2 y"
  from assms have lt: "ulp_exp x < ulp_exp y" using False ulp_exp_mono [of x y] by simp
  with assms have uy: "ulp_exp y = ?k - 52" and lg: "ilog2 x < ?k"
    by (auto simp: ulp_exp_def max_def split: if_splits)
  have "x < pow2 (ilog2 x + 1)" using ilog2_bounds [OF assms(1)] by simp
  also have "\<dots> \<le> pow2 ?k" using lg by (intro pow2_mono) simp
  finally have "x / pow2 (ulp_exp x) \<le> pow2 (?k - ulp_exp x)"
    by (simp add: pow2_diff divide_right_mono)
  also have pk: "\<dots> = of_int (2 ^ nat (?k - ulp_exp x))"
    using lt uy by (intro pow2_int) simp
  finally have "x / pow2 (ulp_exp x) \<le> of_int (2 ^ nat (?k - ulp_exp x))" .
  then have "rne (x / pow2 (ulp_exp x)) \<le> 2 ^ nat (?k - ulp_exp x)" by (rule rne_le_int)
  then have "of_int (rne (x / pow2 (ulp_exp x))) \<le> pow2 (?k - ulp_exp x)"
    unfolding pk by (simp only: of_int_le_iff)
  then have "round64 x \<le> pow2 (?k - ulp_exp x) * pow2 (ulp_exp x)"
    using assms(1) by (simp add: round64_eq mult_right_mono)
  also have "\<dots> = pow2 52 * pow2 (ulp_exp y)" by (simp only: pow2_add [symmetric] uy) simp
  also have "\<dots> \<le> round64 y"
  proof -
    have "pow2 ?k \<le> y" using assms ilog2_bounds [of y] by simp
    then have "pow2 ?k / pow2 (ulp_exp y) \<le> y / pow2 (ulp_exp y)"
      by (rule divide_right_mono) simp
    then have "of_int (2 ^ 52) \<le> y / pow2 (ulp_exp y)"
      by (simp add: pow2_diff [symmetric] uy)
    then have "2 ^ 52 \<le> rne (y / pow2 (ulp_exp y))" by (rule rne_ge_int)
    then have "(of_int (2 ^ 52) :: rat) \<le> of_int (rne (y / pow2 (ulp_exp y)))"
      by (simp only: of_int_le_iff)
    then show ?thesis using assms by (simp add: round64_eq)
  qed
  finally show ?thesis .
qed

lemma round64_mono: "x \<le> y \<Longrightarrow> round64 x \<le> round64 y"
proof -
  assume le: "x \<le> y"
  consider "0 < x" | "x \<le> 0" "0 \<le> y" | "y < 0" by linarith
  then show ?thesis
  proof cases
    case 1
    then show ?thesis using le by (rule round64_mono_pos)
  next
    case 2
    then show ?thesis using round64_nonneg [of y] round64_nonneg [of "- x"]
      by (simp add: round64_neg)
  next
    case 3
    then have "round64 (- y) \<le> round64 (- x)" using le by (intro round64_mono_pos) simp_all
    then show ?thesis by (simp add: round64_neg)
  qed
qed

interpretation r64: rounding round64 on_grid
  by unfold_locales (simp_all add: round64_mono round64_on_grid)

interpretation rint: rounding "\<lambda>x. of_int (rne x)" "\<lambda>x. x \<in> \<int>"
  by unfold_locales (auto simp: rne_mono elim: Ints_cases)

subsection \<open>The rounding error\<close>

lemma round64_err: "\<bar>round64 q - q\<bar> \<le> pow2 (ulp_exp q - 1)"
proof (cases "q = 0")
  case True
  then show ?thesis by simp
next
  case False
  let ?u = "pow2 (ulp_exp q)"
  have "round64 q - q = (of_int (rne (q / ?u)) - q / ?u) * ?u"
    by (simp add: round64_eq [OF False] left_diff_distrib)
  then have "\<bar>round64 q - q\<bar> = \<bar>of_int (rne (q / ?u)) - q / ?u\<bar> * ?u"
    by (simp add: abs_mult)
  also have "\<dots> \<le> 1 / 2 * ?u"
    by (intro mult_right_mono rne_err) simp
  finally show ?thesis by (simp add: pow2_diff)
qed

lemma ulp_exp_bound:
  assumes "0 \<le> q" and "q < pow2 k" and "-1021 \<le> k" and "q \<noteq> 0"
  shows "ulp_exp q \<le> k - 53"
proof -
  from assms(1,2,4) have "ilog2 q \<le> k - 1" by (intro ilog2_le) simp_all
  then show ?thesis using assms by (simp add: ulp_exp_def)
qed

lemma round64_err_below:
  assumes "0 \<le> q" and "q < pow2 k" and "-1021 \<le> k"
  shows "\<bar>round64 q - q\<bar> \<le> pow2 (k - 54)"
proof (cases "q = 0")
  case False
  from ulp_exp_bound [OF assms False] have "pow2 (ulp_exp q - 1) \<le> pow2 (k - 54)"
    by (intro pow2_mono) simp
  with round64_err [of q] show ?thesis by linarith
qed simp

text \<open>Relative error, with the absolute floor of the subnormal range.\<close>

lemma round64_rel_err:
  assumes "0 \<le> q"
  shows "round64 q \<le> q + q * pow2 (-53) + pow2 (-1075)"
proof (cases "q = 0")
  case False
  with assms have q: "0 < q" by simp
  have "pow2 (ulp_exp q - 1) \<le> q * pow2 (-53) + pow2 (-1075)"
  proof (cases "ilog2 \<bar>q\<bar> - 52 \<le> -1074")
    case True
    then have e: "ulp_exp q - 1 = -1075" by (simp add: ulp_exp_def)
    have "0 \<le> q * pow2 (-53)" using q by simp
    then show ?thesis unfolding e by linarith
  next
    case False
    then have "ulp_exp q - 1 = ilog2 q + -53" using q by (simp add: ulp_exp_def)
    then have "pow2 (ulp_exp q - 1) = pow2 (ilog2 q) * pow2 (-53)"
      by (simp only: pow2_add)
    also have "\<dots> \<le> q * pow2 (-53)"
      using ilog2_bounds [OF q] by (intro mult_right_mono) simp_all
    also have "\<dots> \<le> q * pow2 (-53) + pow2 (-1075)" using pow2_pos [of "-1075"] by linarith
    finally show ?thesis .
  qed
  with round64_err [of q] show ?thesis by linarith
qed simp

subsection \<open>Rounding is to nearest\<close>

lemma rne_nearest: "\<bar>of_int (rne x) - x\<bar> \<le> \<bar>of_int n - x\<bar>"
proof (cases "n = rne x")
  case False
  then have "1 \<le> \<bar>n - rne x\<bar>" by linarith
  then have "(of_int 1 :: rat) \<le> of_int \<bar>n - rne x\<bar>" by (simp only: of_int_le_iff)
  then have "1 \<le> \<bar>of_int n - (of_int (rne x) :: rat)\<bar>" by simp
  with rne_err [of x] show ?thesis by linarith
qed simp

lemma round64_nearest_pos:
  assumes "0 < q" and "on_grid r"
  shows "\<bar>round64 q - q\<bar> \<le> \<bar>r - q\<bar>"
proof -
  let ?u = "pow2 (ulp_exp q)"
  have multiple: "\<bar>round64 q - q\<bar> \<le> \<bar>of_int n * ?u - q\<bar>" for n
  proof -
    have "\<bar>of_int (rne (q / ?u)) - q / ?u\<bar> * ?u \<le> \<bar>of_int n - q / ?u\<bar> * ?u"
      by (intro mult_right_mono rne_nearest) simp
    then have "\<bar>(of_int (rne (q / ?u)) - q / ?u) * ?u\<bar> \<le> \<bar>(of_int n - q / ?u) * ?u\<bar>"
      by (simp add: abs_mult)
    then show ?thesis using assms(1) by (simp add: round64_eq left_diff_distrib)
  qed
  from assms(2) obtain m e where r: "r = of_int m * pow2 e" "-1074 \<le> e"
    by (auto simp: on_grid_def)
  show ?thesis
  proof (cases "ulp_exp q = -1074")
    case True
    then have "r = of_int (m * 2 ^ nat (e - ulp_exp q)) * ?u"
      using r pow2_split [of "ulp_exp q" e] by (simp add: mult.assoc)
    with multiple show ?thesis by metis
  next
    case False
    then have e: "ulp_exp q = ilog2 q - 52" using assms(1) by (simp add: ulp_exp_def max_def split: if_splits)
    let ?b = "pow2 (ilog2 q)"
    have b: "?b \<le> q" using ilog2_bounds [OF assms(1)] by simp
    show ?thesis
    proof (cases "?b \<le> r")
      case True
      then have "0 < r" using pow2_pos [of "ilog2 q"] by linarith
      have "ilog2 q \<le> ilog2 r" using True \<open>0 < r\<close> by (intro ilog2_ge)
      then have le: "ulp_exp q \<le> ulp_exp r" using assms(1) \<open>0 < r\<close> by (simp add: ulp_exp_def)
      obtain n where "r = of_int n * pow2 (ulp_exp r)" using on_grid_multiple [OF assms(2) \<open>0 < r\<close>] by blast
      then have "r = of_int (n * 2 ^ nat (ulp_exp r - ulp_exp q)) * ?u"
        using pow2_split [OF le] by (simp add: mult.assoc)
      with multiple show ?thesis by metis
    next
      case False
      have "?b = of_int (2 ^ 52) * ?u" using pow2_split [of "ulp_exp q" "ilog2 q"] e by simp
      with multiple [of "2 ^ 52"] have "\<bar>round64 q - q\<bar> \<le> \<bar>?b - q\<bar>" by simp
      with False b show ?thesis by linarith
    qed
  qed
qed

text \<open>\<open>round64\<close> is rounding to nearest: no number of the format is closer.\<close>

lemma round64_nearest:
  assumes "on_grid r"
  shows "\<bar>round64 q - q\<bar> \<le> \<bar>r - q\<bar>"
proof (cases q "0 :: rat" rule: linorder_cases)
  case less
  with round64_nearest_pos [of "- q" "- r"] assms show ?thesis
    by (simp add: round64_neg on_grid_neg abs_minus_commute)
qed (use assms round64_nearest_pos in simp_all)

end
