(* ===== verification/Rust_Float.thy ===== *)
theory Rust_Float
  imports Prelude Rounding
begin

text \<open>
  The \<^verbatim>\<open>f64\<close> and \<^verbatim>\<open>f32\<close> values of Rust: IEEE-754 binary64 arithmetic rounding to nearest,
  ties to even, with NaN, infinities and signed zeros, and the decoding of binary32 bit
  patterns. A finite value \<open>Fin s q\<close> carries its sign bit and its rational value (the sign
  bit tells the two zeros apart and is \<open>q < 0\<close> otherwise). NaN payloads are not kept:
  no operation of the gateway reads one.
\<close>

datatype fp = NaN | Inf bool | Fin bool rat

type_synonym f64 = fp
type_synonym f32 = "32 word"

fun fval :: "fp \<Rightarrow> rat" where
  "fval (Fin s q) = q"
| "fval _ = 0"

fun is_fin :: "fp \<Rightarrow> bool" where
  "is_fin (Fin s q) = True"
| "is_fin _ = False"

text \<open>The least power of two above every finite binary64 value.\<close>

definition f64_limit :: rat where
  "f64_limit = 2 ^ 1024"

text \<open>The values that a variable of type \<^verbatim>\<open>f64\<close> can hold.\<close>

fun f64_ok :: "fp \<Rightarrow> bool" where
  "f64_ok (Fin s q) \<longleftrightarrow> on_grid q \<and> \<bar>q\<bar> < f64_limit \<and> (q \<noteq> 0 \<longrightarrow> s = (q < 0))"
| "f64_ok _ = True"

subsection \<open>Arithmetic\<close>

definition round_fp :: "bool \<Rightarrow> rat \<Rightarrow> fp" where
  "round_fp s q =
     (let r = round64 q
      in if f64_limit \<le> \<bar>r\<bar> then Inf (q < 0)
         else Fin (if q = 0 then s else q < 0) r)"

fun fneg :: "fp \<Rightarrow> fp" where
  "fneg NaN = NaN"
| "fneg (Inf s) = Inf (\<not> s)"
| "fneg (Fin s q) = Fin (\<not> s) (- q)"

fun fadd :: "fp \<Rightarrow> fp \<Rightarrow> fp" where
  "fadd (Fin s p) (Fin t q) = round_fp (s \<and> t) (p + q)"
| "fadd NaN _ = NaN"
| "fadd _ NaN = NaN"
| "fadd (Inf s) (Inf t) = (if s = t then Inf s else NaN)"
| "fadd (Inf s) _ = Inf s"
| "fadd _ (Inf t) = Inf t"

definition fsub :: "fp \<Rightarrow> fp \<Rightarrow> fp" where
  "fsub a b = fadd a (fneg b)"

fun fmul :: "fp \<Rightarrow> fp \<Rightarrow> fp" where
  "fmul (Fin s p) (Fin t q) = round_fp (s \<noteq> t) (p * q)"
| "fmul NaN _ = NaN"
| "fmul _ NaN = NaN"
| "fmul (Inf s) (Inf t) = Inf (s \<noteq> t)"
| "fmul (Inf s) (Fin t q) = (if q = 0 then NaN else Inf (s \<noteq> (q < 0)))"
| "fmul (Fin s p) (Inf t) = (if p = 0 then NaN else Inf ((p < 0) \<noteq> t))"

fun fdiv :: "fp \<Rightarrow> fp \<Rightarrow> fp" where
  "fdiv (Fin s p) (Fin t q) =
     (if q = 0 then (if p = 0 then NaN else Inf (s \<noteq> t)) else round_fp (s \<noteq> t) (p / q))"
| "fdiv NaN _ = NaN"
| "fdiv _ NaN = NaN"
| "fdiv (Inf s) (Inf t) = NaN"
| "fdiv (Inf s) (Fin t q) = Inf (s \<noteq> t)"
| "fdiv (Fin s p) (Inf t) = Fin (s \<noteq> t) 0"

subsection \<open>Comparison, minimum and maximum\<close>

fun fle :: "fp \<Rightarrow> fp \<Rightarrow> bool" where
  "fle (Fin s p) (Fin t q) = (p \<le> q)"
| "fle NaN _ = False"
| "fle _ NaN = False"
| "fle (Inf s) (Inf t) = (s \<or> \<not> t)"
| "fle (Inf s) (Fin t q) = s"
| "fle (Fin s p) (Inf t) = (\<not> t)"

fun flt :: "fp \<Rightarrow> fp \<Rightarrow> bool" where
  "flt (Fin s p) (Fin t q) = (p < q)"
| "flt NaN _ = False"
| "flt _ NaN = False"
| "flt (Inf s) (Inf t) = (s \<and> \<not> t)"
| "flt (Inf s) (Fin t q) = s"
| "flt (Fin s p) (Inf t) = (\<not> t)"

definition feq :: "fp \<Rightarrow> fp \<Rightarrow> bool" where
  "feq a b \<longleftrightarrow> fle a b \<and> fle b a"

text \<open>\<^verbatim>\<open>f64::max\<close> and \<^verbatim>\<open>f64::min\<close> return the other operand when one is NaN.\<close>

definition fmax :: "fp \<Rightarrow> fp \<Rightarrow> fp" where
  "fmax a b = (if a = NaN then b else if b = NaN then a else if flt a b then b else a)"

definition fmin :: "fp \<Rightarrow> fp \<Rightarrow> fp" where
  "fmin a b = (if a = NaN then b else if b = NaN then a else if flt b a then b else a)"

subsection \<open>Conversions\<close>

definition flit :: "rat \<Rightarrow> fp" where
  "flit q = round_fp False q"

definition f64_of_u32 :: "u32 \<Rightarrow> fp" where
  "f64_of_u32 w = round_fp False (of_nat (unat w))"

definition f64_of_u64 :: "u64 \<Rightarrow> fp" where
  "f64_of_u64 w = round_fp False (of_nat (unat w))"

definition trunc :: "rat \<Rightarrow> int" where
  "trunc q = (if 0 \<le> q then \<lfloor>q\<rfloor> else \<lceil>q\<rceil>)"

fun ftrunc :: "fp \<Rightarrow> fp" where
  "ftrunc (Fin s q) = Fin s (of_int (trunc q))"
| "ftrunc x = x"

definition ffract :: "fp \<Rightarrow> fp" where
  "ffract x = fsub x (ftrunc x)"

fun fabs :: "fp \<Rightarrow> fp" where
  "fabs (Fin s q) = Fin False \<bar>q\<bar>"
| "fabs (Inf s) = Inf False"
| "fabs NaN = NaN"

text \<open>The saturating cast \<^verbatim>\<open>x as i64\<close>.\<close>

fun i64_of_f64 :: "fp \<Rightarrow> int" where
  "i64_of_f64 (Fin s q) = max (- (2 ^ 63)) (min (2 ^ 63 - 1) (trunc q))"
| "i64_of_f64 (Inf s) = (if s then - (2 ^ 63) else 2 ^ 63 - 1)"
| "i64_of_f64 NaN = 0"

text \<open>The value of an \<^verbatim>\<open>f32\<close> bit pattern.\<close>

definition f32_value :: "f32 \<Rightarrow> fp" where
  "f32_value w =
     (let n = unat w; s = (2 ^ 31 \<le> n); e = (n div 2 ^ 23) mod 256; m = n mod 2 ^ 23;
          sg = (if s then - 1 else 1)
      in if e = 255 then (if m = 0 then Inf s else NaN)
         else if e = 0 then Fin s (sg * of_nat m * pow2 (-149))
         else Fin s (sg * of_nat (2 ^ 23 + m) * pow2 (int e - 150)))"

subsection \<open>Order\<close>

lemma fle_refl: "a \<noteq> NaN \<Longrightarrow> fle a a"
  by (cases a) auto

lemma fle_trans: "fle a b \<Longrightarrow> fle b c \<Longrightarrow> fle a c"
  by (cases a; cases b; cases c) auto

lemma flt_fle_trans: "flt a b \<Longrightarrow> fle b c \<Longrightarrow> flt a c"
  by (cases a; cases b; cases c) auto

lemma fle_flt_trans: "fle a b \<Longrightarrow> flt b c \<Longrightarrow> flt a c"
  by (cases a; cases b; cases c) auto

lemma flt_imp_fle: "flt a b \<Longrightarrow> fle a b"
  by (cases a; cases b) auto

lemma flt_iff_not_fle: "a \<noteq> NaN \<Longrightarrow> b \<noteq> NaN \<Longrightarrow> flt a b \<longleftrightarrow> \<not> fle b a"
  by (cases a; cases b) auto

lemma fle_NaN [simp]: "\<not> fle a NaN" "\<not> fle NaN a" "\<not> flt a NaN" "\<not> flt NaN a"
  by (cases a; simp)+

lemma fmin_le2: "b \<noteq> NaN \<Longrightarrow> fle (fmin a b) b"
  by (cases a; cases b) (auto simp: fmin_def)

lemma fmax_ge2: "b \<noteq> NaN \<Longrightarrow> fle b (fmax a b)"
  by (cases a; cases b) (auto simp: fmax_def)

lemma fmin_greatest: "fle c a \<or> a = NaN \<Longrightarrow> fle c b \<Longrightarrow> fle c (fmin a b)"
  by (auto simp: fmin_def)

lemma fmax_not_NaN: "b \<noteq> NaN \<Longrightarrow> fmax a b \<noteq> NaN"
  by (auto simp: fmax_def)

lemma fmin_not_NaN: "b \<noteq> NaN \<Longrightarrow> fmin a b \<noteq> NaN"
  by (auto simp: fmin_def)

lemma fle_zero_sign [simp]: "fle x (Fin s q) = fle x (Fin True q)" "fle (Fin s q) x = fle (Fin True q) x"
  if "NO_MATCH True s" for x
  by (cases x; simp)+

lemma fle_Inf [simp]: "fle (Inf True) x \<longleftrightarrow> x \<noteq> NaN" "fle x (Inf False) \<longleftrightarrow> x \<noteq> NaN"
  by (cases x; simp)+

subsection \<open>Rounded results\<close>

lemma f64_limit_pos [simp]: "0 < f64_limit"
  by (simp add: f64_limit_def)

lemma below_f64_limit: "q \<le> 2 ^ 64 \<Longrightarrow> q < f64_limit"
proof -
  assume "q \<le> 2 ^ 64"
  also have "(2 :: rat) ^ 64 < 2 ^ 1024" by (rule power_strict_increasing) simp_all
  finally show ?thesis by (simp add: f64_limit_def)
qed

lemma round_fp_not_NaN [simp]: "round_fp s q \<noteq> NaN"
  by (simp add: round_fp_def Let_def)

lemma round_fp_grid:
  "on_grid q \<Longrightarrow> \<bar>q\<bar> < f64_limit \<Longrightarrow> round_fp s q = Fin (if q = 0 then s else q < 0) q"
  by (simp add: round_fp_def Let_def)

lemma on_grid_0 [simp]: "on_grid 0"
  using on_grid_int [of 0] by simp

lemma round64_sign: "round64 q \<noteq> 0 \<Longrightarrow> round64 q < 0 \<longleftrightarrow> q < 0"
  using round64_nonneg [of q] round64_nonneg [of "- q"] by (simp add: round64_neg) linarith

lemma round_fp_ok [simp]: "f64_ok (round_fp s q)"
  using round64_sign [of q] by (auto simp: round_fp_def Let_def round64_on_grid)

lemma fadd_NaN [simp]: "fadd a NaN = NaN"
  by (cases a) simp_all

lemma fadd_ok [simp]: "f64_ok (fadd a b)"
  by (cases a; cases b) simp_all

lemma fsub_ok [simp]: "f64_ok (fsub a b)"
  by (simp add: fsub_def)

lemma fmul_ok [simp]: "f64_ok (fmul a b)"
  by (cases a; cases b) simp_all

lemma fdiv_ok [simp]: "f64_ok (fdiv a b)"
  by (cases a; cases b) simp_all

lemma fmin_ok: "f64_ok a \<Longrightarrow> f64_ok b \<Longrightarrow> f64_ok (fmin a b)"
  by (simp add: fmin_def)

lemma round_fp_mono: "p \<le> q \<Longrightarrow> fle (round_fp s p) (round_fp t q)"
proof -
  assume le: "p \<le> q"
  then have r: "round64 p \<le> round64 q" by (rule round64_mono)
  show ?thesis
  proof (cases "f64_limit \<le> \<bar>round64 p\<bar> \<or> f64_limit \<le> \<bar>round64 q\<bar>")
    case False
    then show ?thesis using r by (simp add: round_fp_def Let_def)
  next
    case True
    then have "round64 p \<noteq> 0 \<or> round64 q \<noteq> 0" using f64_limit_pos by (metis abs_zero not_le)
    with True show ?thesis
      using le r round64_sign [of p] round64_sign [of q] f64_limit_pos
      by (simp add: round_fp_def Let_def) linarith
  qed
qed

lemma round_fp_nonneg: "0 \<le> q \<Longrightarrow> fle (Fin t 0) (round_fp s q)"
  using round64_nonneg [of q] by (simp add: round_fp_def Let_def)

text \<open>Rounding never crosses a value of the format.\<close>

lemma round_fp_le: "q \<le> r \<Longrightarrow> on_grid r \<Longrightarrow> \<bar>r\<bar> < f64_limit \<Longrightarrow> fle (round_fp s q) (Fin t r)"
  using round_fp_mono [of q r s t] by (simp add: round_fp_grid)

lemma round_fp_ge: "r \<le> q \<Longrightarrow> on_grid r \<Longrightarrow> \<bar>r\<bar> < f64_limit \<Longrightarrow> fle (Fin t r) (round_fp s q)"
  using round_fp_mono [of r q t s] by (simp add: round_fp_grid)

subsection \<open>Monotone operations\<close>

lemma fadd_mono:
  "fle a a' \<Longrightarrow> fle b b' \<Longrightarrow> fadd a b \<noteq> NaN \<Longrightarrow> fadd a' b' \<noteq> NaN \<Longrightarrow> fle (fadd a b) (fadd a' b')"
  by (cases a; cases b; cases a'; cases b') (auto simp: round_fp_mono split: if_splits)

lemma fneg_eq_NaN [simp]: "fneg a = NaN \<longleftrightarrow> a = NaN"
  by (cases a) simp_all

lemma fsub_mono:
  "fle a a' \<Longrightarrow> fsub a b \<noteq> NaN \<Longrightarrow> fsub a' b \<noteq> NaN \<Longrightarrow> fle (fsub a b) (fsub a' b)"
  unfolding fsub_def by (cases "b = NaN") (simp_all add: fadd_mono fle_refl)

lemma fsub_self: "is_fin a \<Longrightarrow> fsub a a = Fin False 0"
  by (cases a) (auto simp: fsub_def round_fp_grid)

lemma fadd_nonneg: "fle (Fin s 0) a \<Longrightarrow> fle (Fin s 0) b \<Longrightarrow> fle (Fin s 0) (fadd a b)"
  by (cases a; cases b) (auto simp: round_fp_nonneg)

lemma fmul_nonneg:
  "fle (Fin s 0) a \<Longrightarrow> fle (Fin s 0) b \<Longrightarrow> fmul a b = NaN \<or> fle (Fin s 0) (fmul a b)"
  by (cases a; cases b) (auto simp: round_fp_nonneg)

lemma fdiv_mono_num:
  "0 < d \<Longrightarrow> p \<le> q \<Longrightarrow> fle (fdiv (Fin s p) (Fin t d)) (fdiv (Fin s' q) (Fin t d))"
  by (simp add: round_fp_mono divide_right_mono)

subsection \<open>Exact values\<close>

lemma int_below_2_53:
  "\<bar>n\<bar> \<le> 2 ^ 53 \<Longrightarrow> on_grid (of_int n) \<and> \<bar>of_int n :: rat\<bar> < f64_limit"
proof -
  assume n: "\<bar>n\<bar> \<le> 2 ^ 53"
  then have "(of_int \<bar>n\<bar> :: rat) \<le> of_int (2 ^ 53)" by (simp only: of_int_le_iff)
  then have "\<bar>of_int n :: rat\<bar> < f64_limit" by (intro below_f64_limit) simp
  with n show ?thesis by (simp add: on_grid_int)
qed

lemma round_fp_int:
  "\<bar>n\<bar> \<le> 2 ^ 53 \<Longrightarrow> round_fp s (of_int n) = Fin (if n = 0 then s else n < 0) (of_int n)"
  using int_below_2_53 [of n] by (simp add: round_fp_grid)

lemma round_fp_nat: "n \<le> 2 ^ 53 \<Longrightarrow> round_fp s (of_nat n) = Fin (n = 0 \<and> s) (of_nat n)"
  using round_fp_int [of "int n" s] by simp

lemma f64_of_u32_exact: "f64_of_u32 w = Fin False (of_nat (unat w))"
proof -
  have "unat w < 2 ^ 32" using unsigned_less [of w] by simp
  then show ?thesis by (simp add: f64_of_u32_def round_fp_nat del: of_nat_unat)
qed

lemma f64_of_u64_exact: "unat w \<le> 2 ^ 53 \<Longrightarrow> f64_of_u64 w = Fin False (of_nat (unat w))"
  by (simp add: f64_of_u64_def round_fp_nat del: of_nat_unat)

lemma flit_nat: "n \<le> 2 ^ 53 \<Longrightarrow> flit (of_nat n) = Fin False (of_nat n)"
  by (simp add: flit_def round_fp_nat)

lemma flit_0 [simp]: "flit 0 = Fin False 0"
  using flit_nat [of 0] by simp

lemma flit_1 [simp]: "flit 1 = Fin False 1"
  using flit_nat [of 1] by simp

lemma flit_numeral: "(numeral k :: nat) \<le> 2 ^ 53 \<Longrightarrow> flit (numeral k) = Fin False (numeral k)"
  using flit_nat [of "numeral k"] by simp

lemma f64_of_u64_bound: "\<exists>q. f64_of_u64 w = Fin False q \<and> 0 \<le> q \<and> q \<le> 2 ^ 64"
proof -
  have "unat w < 2 ^ 64" using unsigned_less [of w] by simp
  then have le: "(of_nat (unat w) :: rat) \<le> 2 ^ 64"
    by (metis less_imp_le of_nat_le_iff of_nat_numeral of_nat_power)
  have "on_grid (2 ^ 64 :: rat)" using on_grid_pow2 [of 64] by simp
  with le have u: "round64 (of_nat (unat w)) \<le> 2 ^ 64" by (rule r64.rnd_le)
  moreover have "0 \<le> round64 (of_nat (unat w))" by (rule round64_nonneg) (rule of_nat_0_le_iff)
  moreover from this u have "\<bar>round64 (of_nat (unat w))\<bar> < f64_limit"
    by (intro below_f64_limit) linarith
  ultimately show ?thesis by (simp add: f64_of_u64_def round_fp_def Let_def del: of_nat_unat)
qed

lemma f64_of_u64_mono: "v \<le> w \<Longrightarrow> fle (f64_of_u64 v) (f64_of_u64 w)"
  unfolding f64_of_u64_def by (rule round_fp_mono) (simp add: word_le_nat_alt del: of_nat_unat)

subsection \<open>Evaluation on concrete numbers\<close>

lemma round_fp_numeral:
  "round_fp s 0 = Fin s 0" "round_fp s 1 = Fin False 1"
  "(numeral k :: int) \<le> 2 ^ 53 \<Longrightarrow> round_fp s (numeral k) = Fin False (numeral k)"
  "(numeral k :: int) \<le> 2 ^ 53 \<Longrightarrow> round_fp s (- numeral k) = Fin True (- numeral k)"
  using round_fp_int [of 0 s] round_fp_int [of 1 s] round_fp_int [of "numeral k" s]
    round_fp_int [of "- numeral k" s] by simp_all

lemmas round64_eval = round64_def ulp_exp_def ilog2_def nlog2.simps rne_def Let_def
  floor_divide_eq_div_numeral ceiling_divide_eq_div_numeral

lemmas float_eval = flit_def fsub_def fmax_def fmin_def feq_def f64_of_u32_def f64_of_u64_def
  round_fp_numeral

end
