(* ===== verification/Rate_Limiter.thy ===== *)
theory Rate_Limiter
  imports Rust_Float Rust_Collections
begin

text \<open>
  \<^verbatim>\<open>src/rate_limiter.rs\<close>: a token bucket in binary64 arithmetic and a map of buckets, one per
  device. The lemmas bound the tokens for every configuration and every clock (NaN and
  backward jumps included), give the exact burst, the rate guarantee with its rounding error,
  the independence of devices, and the counters.
\<close>

subsection \<open>The bucket\<close>

record rate_limiter_config =
  requests_per_second :: f64
  burst_size :: u32

definition rate_limiter_config_default :: rate_limiter_config where
  "rate_limiter_config_default = \<lparr>requests_per_second = flit 100, burst_size = 200\<rparr>"

record rate_limiter =
  rl_config :: rate_limiter_config
  tokens :: f64
  last_update :: f64

definition rate_limiter_new :: "rate_limiter_config \<Rightarrow> f64 \<Rightarrow> rate_limiter" where
  "rate_limiter_new cfg now =
     \<lparr>rl_config = cfg, tokens = f64_of_u32 (burst_size cfg), last_update = now\<rparr>"

definition refill :: "rate_limiter \<Rightarrow> f64 \<Rightarrow> rate_limiter" where
  "refill l now =
     (let elapsed = fmax (fsub now (last_update l)) (flit 0)
      in l\<lparr>tokens := fmin (fadd (tokens l) (fmul elapsed (requests_per_second (rl_config l))))
                         (f64_of_u32 (burst_size (rl_config l))),
           last_update := now\<rparr>)"

definition try_acquire :: "rate_limiter \<Rightarrow> f64 \<Rightarrow> rate_limiter \<times> bool" where
  "try_acquire l now =
     (let l' = refill l now
      in if fle (flit 1) (tokens l') then (l'\<lparr>tokens := fsub (tokens l') (flit 1)\<rparr>, True)
         else (l', False))"

definition available_tokens :: "rate_limiter \<Rightarrow> f64" where
  "available_tokens l = tokens l"

subsection \<open>One bucket per device\<close>

record device_rate_limiter =
  drl_config :: rate_limiter_config
  limiters :: "(u64, rate_limiter) hash_map"
  total_rejected :: u64

definition drl_new :: "rate_limiter_config \<Rightarrow> device_rate_limiter" where
  "drl_new cfg = \<lparr>drl_config = cfg, limiters = [], total_rejected = 0\<rparr>"

definition drl_with_defaults :: device_rate_limiter where
  "drl_with_defaults = drl_new rate_limiter_config_default"

definition drl_try_acquire ::
  "device_rate_limiter \<Rightarrow> u64 \<Rightarrow> f64 \<Rightarrow> device_rate_limiter \<times> bool" where
  "drl_try_acquire dl device_id now =
     (let cfg = drl_config dl;
          limiter = (case hm_get (limiters dl) device_id of
                       Some l \<Rightarrow> l | None \<Rightarrow> rate_limiter_new cfg now);
          (limiter', allowed) = try_acquire limiter now;
          dl' = dl\<lparr>limiters := hm_insert device_id limiter' (limiters dl)\<rparr>
      in (if allowed then dl' else dl'\<lparr>total_rejected := total_rejected dl' + 1\<rparr>, allowed))"

definition device_count :: "device_rate_limiter \<Rightarrow> usize" where
  "device_count dl = length (limiters dl)"

definition drl_total_rejected :: "device_rate_limiter \<Rightarrow> u64" where
  "drl_total_rejected dl = total_rejected dl"

definition remove_device :: "device_rate_limiter \<Rightarrow> u64 \<Rightarrow> device_rate_limiter \<times> bool" where
  "remove_device dl device_id =
     (dl\<lparr>limiters := hm_remove device_id (limiters dl)\<rparr>, hm_get (limiters dl) device_id \<noteq> None)"

definition purge_inactive ::
  "device_rate_limiter \<Rightarrow> f64 \<Rightarrow> f64 \<Rightarrow> device_rate_limiter \<times> usize" where
  "purge_inactive dl now inactive_threshold_s =
     (let before = length (limiters dl);
          kept = hm_retain (\<lambda>_ v. flt (fsub now (last_update v)) inactive_threshold_s) (limiters dl)
      in (dl\<lparr>limiters := kept\<rparr>, before - length kept))"

datatype drl_op = Acquire u64 f64 | Remove u64 | Purge f64 f64

datatype drl_out = Allowed bool | Removed bool | Purged usize

fun drl_step :: "device_rate_limiter \<Rightarrow> drl_op \<Rightarrow> device_rate_limiter \<times> drl_out" where
  "drl_step dl (Acquire d now) = (let (dl', a) = drl_try_acquire dl d now in (dl', Allowed a))"
| "drl_step dl (Remove d) = (let (dl', r) = remove_device dl d in (dl', Removed r))"
| "drl_step dl (Purge now thr) = (let (dl', n) = purge_inactive dl now thr in (dl', Purged n))"

subsection \<open>The bucket's invariant\<close>

text \<open>The tokens never exceed the burst, and are never negative unless the rate is.\<close>

definition bucket_ok :: "rate_limiter_config \<Rightarrow> rate_limiter \<Rightarrow> bool" where
  "bucket_ok cfg l \<longleftrightarrow> rl_config l = cfg \<and> fle (tokens l) (f64_of_u32 (burst_size cfg)) \<and>
     (flt (requests_per_second cfg) (Fin False 0) \<or> fle (Fin False 0) (tokens l))"

lemma burst_nonneg: "fle (Fin s 0) (f64_of_u32 w)"
  by (simp add: f64_of_u32_exact del: of_nat_unat)

lemma bucket_new_ok: "bucket_ok cfg (rate_limiter_new cfg now)"
  by (simp add: bucket_ok_def rate_limiter_new_def f64_of_u32_exact del: of_nat_unat)

lemma refill_ok: "bucket_ok cfg l \<Longrightarrow> bucket_ok cfg (refill l now)"
proof -
  assume ok: "bucket_ok cfg l"
  let ?r = "requests_per_second cfg" and ?b = "f64_of_u32 (burst_size cfg)"
  let ?e = "fmax (fsub now (last_update l)) (Fin False 0)"
  let ?s = "fadd (tokens l) (fmul ?e ?r)"
  have b: "?b \<noteq> NaN" by (simp add: f64_of_u32_exact del: of_nat_unat)
  have "fle (Fin False 0) (fmin ?s ?b)" if "\<not> flt ?r (Fin False 0)"
  proof (cases "fmul ?e ?r = NaN")
    case True
    then show ?thesis using burst_nonneg by (simp add: fmin_def)
  next
    case False
    then have "?r \<noteq> NaN" by (cases ?e) auto
    then have "fle (Fin False 0) ?r" using that by (simp add: flt_iff_not_fle)
    moreover have "fle (Fin False 0) ?e" by (rule fmax_ge2) simp
    ultimately have "fle (Fin False 0) (fmul ?e ?r)" using fmul_nonneg [of False ?e ?r] False by blast
    moreover have "fle (Fin False 0) (tokens l)" using ok that by (simp add: bucket_ok_def)
    ultimately have "fle (Fin False 0) ?s" by (intro fadd_nonneg)
    then show ?thesis by (intro fmin_greatest disjI1) (simp_all add: burst_nonneg)
  qed
  with ok fmin_le2 [OF b] show ?thesis
    by (auto simp: bucket_ok_def refill_def Let_def)
qed

lemma fsub_one_bounds:
  assumes "fle (Fin False 1) x" and "fle x (Fin False q)" and "on_grid q" and "\<bar>q\<bar> < f64_limit"
  shows "fle (fsub x (Fin False 1)) (Fin False q)" and "fle (Fin False 0) (fsub x (Fin False 1))"
proof -
  from assms(1,2) obtain s p where x: "x = Fin s p" and p: "1 \<le> p" "p \<le> q"
    by (cases x) auto
  show "fle (fsub x (Fin False 1)) (Fin False q)"
    using p assms(3,4) by (simp add: x fsub_def round_fp_le del: fle_zero_sign)
  show "fle (Fin False 0) (fsub x (Fin False 1))"
    using p round_fp_nonneg by (simp add: x fsub_def)
qed

lemma burst_on_grid: "on_grid (of_nat (unat (w :: u32)))" "\<bar>of_nat (unat w) :: rat\<bar> < f64_limit"
proof -
  have "int (unat w) < 2 ^ 32" using unat_u32_less [of w] by (metis of_nat_less_iff of_nat_numeral of_nat_power)
  then have "\<bar>int (unat w)\<bar> \<le> 2 ^ 53" by (simp del: of_nat_unat)
  from int_below_2_53 [OF this] show "on_grid (of_nat (unat w))" "\<bar>of_nat (unat w) :: rat\<bar> < f64_limit"
    by simp_all
qed

lemma try_acquire_ok: "bucket_ok cfg l \<Longrightarrow> bucket_ok cfg (fst (try_acquire l now))"
proof -
  assume "bucket_ok cfg l"
  then have ok: "bucket_ok cfg (refill l now)" by (rule refill_ok)
  show ?thesis
  proof (cases "fle (flit 1) (tokens (refill l now))")
    case True
    with ok fsub_one_bounds [OF _ _ burst_on_grid, of "tokens (refill l now)" "burst_size cfg"]
    show ?thesis
      by (simp add: try_acquire_def Let_def bucket_ok_def f64_of_u32_exact del: fle_zero_sign of_nat_unat)
  next
    case False
    with ok show ?thesis by (simp add: try_acquire_def Let_def)
  qed
qed

interpretation bucket: invariant_machine try_acquire "bucket_ok cfg" for cfg
  by unfold_locales (rule try_acquire_ok)

interpretation bucket_config: framed try_acquire rl_config
  by unfold_locales (simp add: try_acquire_def refill_def Let_def)

interpretation rejections: counter drl_step total_rejected "\<lambda>op out. out = Allowed False"
proof unfold_locales
  show "total_rejected (fst (drl_step s e)) =
      (if snd (drl_step s e) = Allowed False then total_rejected s + 1 else total_rejected s)" for s e
    by (cases e) (auto simp: drl_try_acquire_def remove_device_def purge_inactive_def Let_def split_def)
qed

subsection \<open>Requests at one instant\<close>

lemma refill_same_instant:
  assumes "tokens l = Fin False (of_nat k)" and "k \<le> unat (burst_size (rl_config l))"
    and "last_update l = now" and "is_fin now" and "is_fin (requests_per_second (rl_config l))"
  shows "refill l now = l"
proof -
  obtain s r where r: "requests_per_second (rl_config l) = Fin s r"
    using assms(5) by (cases "requests_per_second (rl_config l)") auto
  have k: "k \<le> 2 ^ 53" using assms(2) unat_u32_less [of "burst_size (rl_config l)"] by simp
  have "fmax (fsub now now) (Fin False 0) = Fin False 0"
    using assms(4) by (simp add: fsub_self fmax_def)
  moreover have "fadd (Fin False (of_nat k)) (Fin s' 0) = Fin False (of_nat k)" for s'
    using k by (simp add: round_fp_nat)
  moreover have "fmul (Fin False 0) (Fin s r) = Fin s 0"
    using round_fp_grid [of 0 s] by simp
  moreover have "fmin (Fin False (of_nat k)) (f64_of_u32 (burst_size (rl_config l))) = Fin False (of_nat k)"
    using assms(2) by (simp add: fmin_def f64_of_u32_exact del: of_nat_unat)
  ultimately show ?thesis using assms(1,3) r by (simp add: refill_def Let_def)
qed

lemma run_same_instant:
  assumes "tokens l = Fin False (of_nat k)" and "k \<le> unat (burst_size (rl_config l))"
    and "last_update l = now" and "is_fin now" and "is_fin (requests_per_second (rl_config l))"
  shows "snd (run try_acquire l (replicate n now)) = map (\<lambda>i. i < k) [0..<n]"
  using assms
proof (induction n arbitrary: l k)
  case (Suc n)
  have refill: "refill l now = l" using Suc.prems by (rule refill_same_instant)
  show ?case
  proof (cases k)
    case 0
    then have "try_acquire l now = (l, False)"
      using refill Suc.prems(1) by (simp add: try_acquire_def Let_def)
    with Suc.IH [OF Suc.prems] 0 show ?thesis by (simp add: map_replicate_const)
  next
    case (Suc j)
    have "k \<le> 2 ^ 53" using Suc.prems(2) unat_u32_less [of "burst_size (rl_config l)"] by simp
    then have "fsub (tokens l) (Fin False 1) = Fin False (of_nat j)"
      using Suc Suc.prems(1) by (simp add: fsub_def round_fp_nat)
    then have step: "try_acquire l now = (l\<lparr>tokens := Fin False (of_nat j)\<rparr>, True)"
      using refill Suc Suc.prems(1) by (simp add: try_acquire_def Let_def)
    have "snd (run try_acquire (l\<lparr>tokens := Fin False (of_nat j)\<rparr>) (replicate n now)) =
        map (\<lambda>i. i < j) [0..<n]"
      using Suc.prems Suc by (intro Suc.IH) simp_all
    then show ?thesis using step Suc by (simp add: map_upt_Suc del: upt_Suc)
  qed
qed simp

subsection \<open>The rate over time\<close>

text \<open>Half a unit of relative error, and the bound on what underflow can add.\<close>

lemma round64_upper: "0 \<le> q \<Longrightarrow> round64 q \<le> q * (1 + 1 / 2 ^ 53) + 1 / 2 ^ 200"
proof -
  assume "0 \<le> q"
  have "pow2 (-1075) \<le> pow2 (-200)" by (rule pow2_mono) simp
  then have "pow2 (-1075) \<le> 1 / 2 ^ 200" by (simp add: power_int_minus_divide)
  with round64_rel_err [OF \<open>0 \<le> q\<close>] show ?thesis
    by (simp add: power_int_minus_divide distrib_left del: power_int_numeral_neg_numeral)
qed

lemma round64_upper_cap: "0 \<le> q \<Longrightarrow> q \<le> b \<Longrightarrow> round64 q \<le> q + (b / 2 ^ 53 + 1 / 2 ^ 200)"
proof -
  assume "0 \<le> q" and "q \<le> b"
  have "round64 q \<le> q * (1 + 1 / 2 ^ 53) + 1 / 2 ^ 200" using \<open>0 \<le> q\<close> by (rule round64_upper)
  also have "\<dots> = q + q / 2 ^ 53 + 1 / 2 ^ 200" by (simp add: algebra_simps)
  also have "q / 2 ^ 53 \<le> b / 2 ^ 53" using \<open>q \<le> b\<close> by (rule divide_right_mono) simp
  finally show ?thesis by simp
qed

lemma round64_le_pow2: "0 \<le> q \<Longrightarrow> q \<le> 2 ^ k \<Longrightarrow> round64 q \<le> 2 ^ k"
  using on_grid_pow2 [of "int k"] by (intro r64.rnd_le) simp_all

lemma round_fp_small:
  assumes "0 \<le> q" and "q \<le> 2 ^ 1000"
  shows "\<exists>s'. round_fp s q = Fin s' (round64 q)"
proof -
  have "0 \<le> round64 q" "round64 q \<le> 2 ^ 1000"
    using assms by (simp_all only: round64_nonneg round64_le_pow2)
  moreover have "(2 :: rat) ^ 1000 < f64_limit"
    unfolding f64_limit_def by (rule power_strict_increasing) simp_all
  ultimately have "\<not> f64_limit \<le> \<bar>round64 q\<bar>" by linarith
  then show ?thesis by (simp add: round_fp_def Let_def)
qed

lemma refill_gain_arith:
  fixes x dt r b :: rat
  assumes "0 \<le> dt" and "0 \<le> r" and "r \<le> 2 ^ 64" and "0 \<le> x" and "0 \<le> b"
  defines "y \<equiv> x + round64 (round64 dt * r)"
  shows "min (round64 y) b \<le> x + r * dt * (1 + 1 / 2 ^ 51) + (b / 2 ^ 53 + 1 / 2 ^ 100)"
proof -
  let ?el = "round64 dt" let ?p = "round64 (?el * r)" let ?D = "r * dt" let ?d = "1 / 2 ^ 53 :: rat"
  have D: "0 \<le> ?D" using assms by simp
  have el: "0 \<le> ?el" "?el \<le> dt * (1 + ?d) + 1 / 2 ^ 200"
    using assms(1) by (simp_all only: round64_nonneg round64_upper)
  have "?el * r \<le> (dt * (1 + ?d) + 1 / 2 ^ 200) * r"
    using el(2) assms(2) by (rule mult_right_mono)
  also have "\<dots> = ?D * (1 + ?d) + r * (1 / 2 ^ 200)" by (simp add: algebra_simps)
  also have "\<dots> \<le> ?D * (1 + ?d) + 1 / 2 ^ 136" using assms(3) by simp
  finally have elr: "?el * r \<le> ?D * (1 + ?d) + 1 / 2 ^ 136" .
  have "?p \<le> ?el * r * (1 + ?d) + 1 / 2 ^ 200"
    using el(1) assms(2) by (intro round64_upper) simp
  also have "\<dots> \<le> (?D * (1 + ?d) + 1 / 2 ^ 136) * (1 + ?d) + 1 / 2 ^ 200"
    using elr by (intro add_right_mono mult_right_mono) simp_all
  also have "\<dots> = ?D * ((1 + ?d) * (1 + ?d)) + (1 / 2 ^ 136 * (1 + ?d) + 1 / 2 ^ 200)"
    by (simp add: algebra_simps)
  also have "\<dots> \<le> ?D * (1 + 1 / 2 ^ 51) + 1 / 2 ^ 101"
    using D by (intro add_mono mult_left_mono) simp_all
  finally have p: "?p \<le> ?D * (1 + 1 / 2 ^ 51) + 1 / 2 ^ 101" .
  have p0: "0 \<le> ?p" using el(1) assms(2) by (intro round64_nonneg) simp
  show ?thesis
  proof (cases "y \<le> b")
    case True
    have "round64 y \<le> y + (b / 2 ^ 53 + 1 / 2 ^ 200)"
      using p0 assms(4) True by (intro round64_upper_cap) (simp_all add: y_def)
    moreover have "(1 :: rat) / 2 ^ 200 + 1 / 2 ^ 101 \<le> 1 / 2 ^ 100" by simp
    ultimately show ?thesis using p unfolding y_def by linarith
  next
    case False
    moreover have "(0 :: rat) \<le> b / 2 ^ 53" "(1 :: rat) / 2 ^ 101 \<le> 1 / 2 ^ 100" using assms(5) by simp_all
    ultimately show ?thesis using p unfolding y_def by linarith
  qed
qed

lemma refill_gain:
  fixes x t t' r :: rat
  assumes tok: "tokens l = Fin s x" "0 \<le> x" "x \<le> b" and b: "b = of_nat (unat (burst_size (rl_config l)))"
    and last: "last_update l = Fin s1 t" and time: "0 \<le> t" "t \<le> t'" "t' \<le> 2 ^ 64"
    and rate: "requests_per_second (rl_config l) = Fin s3 r" "0 \<le> r" "r \<le> 2 ^ 64"
  shows "\<exists>s' x'. tokens (refill l (Fin s2 t')) = Fin s' x' \<and> 0 \<le> x' \<and> x' \<le> b \<and>
           x' \<le> x + r * (t' - t) * (1 + 1 / 2 ^ 51) + (b / 2 ^ 53 + 1 / 2 ^ 100)"
proof -
  let ?el = "round64 (t' - t)" let ?p = "round64 (?el * r)" let ?y = "x + ?p"
  have b0: "0 \<le> b" "b \<le> 2 ^ 32"
    using unat_u32_less [of "burst_size (rl_config l)"] tok unfolding b
    by (linarith, metis less_imp_le of_nat_le_iff of_nat_numeral of_nat_power)
  have el: "0 \<le> ?el" "?el \<le> 2 ^ 64"
    using round64_nonneg [of "t' - t"] round64_le_pow2 [of "t' - t" 64] time by simp_all
  have big: "(2 :: rat) ^ 64 \<le> 2 ^ 1000" "(2 :: rat) ^ 128 \<le> 2 ^ 1000" "(2 :: rat) ^ 32 + 2 ^ 128 \<le> 2 ^ 1000"
    by simp_all
  have el_fp: "\<exists>s'. fmax (fsub (Fin s2 t') (last_update l)) (flit 0) = Fin s' ?el"
  proof -
    have "0 \<le> t' - t" "t' - t \<le> 2 ^ 1000" using time big by linarith+
    then obtain s' where "round_fp (s2 \<and> \<not> s1) (t' - t) = Fin s' ?el"
      using round_fp_small by blast
    then show ?thesis using el by (auto simp: fmax_def fsub_def last)
  qed
  have elr: "0 \<le> ?el * r" using el rate by simp
  have "?el * r \<le> 2 ^ 64 * 2 ^ 64" using el rate by (intro mult_mono) simp_all
  then have elr2: "?el * r \<le> 2 ^ 128" by simp
  have p: "0 \<le> ?p" "?p \<le> 2 ^ 128"
    by (rule round64_nonneg [OF elr], rule round64_le_pow2 [OF elr elr2])
  have y: "0 \<le> ?y" "?y \<le> 2 ^ 1000" using p tok b0 big by linarith+
  obtain s' where s': "fmax (fsub (Fin s2 t') (last_update l)) (flit 0) = Fin s' ?el"
    using el_fp by blast
  obtain s4 where s4: "fmul (Fin s' ?el) (Fin s3 r) = Fin s4 ?p"
    using round_fp_small [OF elr order_trans [OF elr2 big(2)]] by auto
  obtain s5 where s5: "fadd (tokens l) (Fin s4 ?p) = Fin s5 (round64 ?y)"
    using round_fp_small [OF y] by (auto simp: tok(1))
  have tokens': "tokens (refill l (Fin s2 t')) = fmin (Fin s5 (round64 ?y)) (Fin False b)"
    using s' s4 s5 by (simp add: refill_def Let_def rate(1) f64_of_u32_exact b del: of_nat_unat)
  have ry: "0 \<le> round64 ?y" using y by (simp add: round64_nonneg)
  have gain: "min (round64 ?y) b \<le> x + r * (t' - t) * (1 + 1 / 2 ^ 51) + (b / 2 ^ 53 + 1 / 2 ^ 100)"
    using time rate(2,3) tok b0 by (intro refill_gain_arith) simp_all
  show ?thesis
    using tokens' gain ry b0 by (auto simp: fmin_def min_def split: if_splits)
qed

lemma acquire_gain:
  fixes x t t' r :: rat
  assumes "tokens l = Fin s x" "0 \<le> x" "x \<le> b" and b: "b = of_nat (unat (burst_size (rl_config l)))"
    and "last_update l = Fin s1 t" and "0 \<le> t" "t \<le> t'" "t' \<le> 2 ^ 64"
    and "requests_per_second (rl_config l) = Fin s3 r" "0 \<le> r" "r \<le> 2 ^ 64"
  shows "\<exists>s' x'. tokens (fst (try_acquire l (Fin s2 t'))) = Fin s' x' \<and> 0 \<le> x' \<and> x' \<le> b \<and>
           (if snd (try_acquire l (Fin s2 t')) then 1 else 0) + x'
             \<le> x + r * (t' - t) * (1 + 1 / 2 ^ 51) + (b + 1) / 2 ^ 52"
proof -
  let ?G = "r * (t' - t) * (1 + 1 / 2 ^ 51)"
  obtain s' x' where x': "tokens (refill l (Fin s2 t')) = Fin s' x'" "0 \<le> x'" "x' \<le> b"
      "x' \<le> x + ?G + (b / 2 ^ 53 + 1 / 2 ^ 100)"
    using refill_gain [OF assms, of s2] by blast
  have b0: "0 \<le> b" using assms(2,3) by linarith
  then have slack: "b / 2 ^ 53 + 1 / 2 ^ 100 \<le> (b + 1) / 2 ^ 52 - (b / 2 ^ 53 + 1 / 2 ^ 200)"
    by (simp add: field_simps)
  show ?thesis
  proof (cases "1 \<le> x'")
    case False
    have "0 \<le> b / 2 ^ 53" using b0 by simp
    moreover have "try_acquire l (Fin s2 t') = (refill l (Fin s2 t'), False)"
      using False x'(1) by (simp add: try_acquire_def Let_def)
    ultimately show ?thesis using x' slack by (intro exI [of _ s'] exI [of _ x']) simp
  next
    case True
    let ?x = "round64 (x' - 1)"
    have y: "0 \<le> x' - 1" using True by simp
    have "b \<le> 2 ^ 32" using unat_u32_less [of "burst_size (rl_config l)"] unfolding b
      by (metis less_imp_le of_nat_le_iff of_nat_numeral of_nat_power)
    then have "x' - 1 \<le> 2 ^ 32" using x'(3) by linarith
    then have "x' - 1 \<le> 2 ^ 1000" by (rule order_trans) simp
    then obtain s4 where s4: "round_fp (s' \<and> True) (x' - 1) = Fin s4 ?x"
      using round_fp_small [OF y] by blast
    then have "fsub (Fin s' x') (Fin False 1) = Fin s4 ?x" by (simp add: fsub_def)
    then have step: "try_acquire l (Fin s2 t') =
        ((refill l (Fin s2 t'))\<lparr>tokens := Fin s4 ?x\<rparr>, True)"
      using True unfolding try_acquire_def Let_def x'(1) by simp
    have "?x \<le> b"
    proof (rule r64.rnd_le)
      show "on_grid b" unfolding b by (rule burst_on_grid)
    qed (use x'(3) in simp)
    moreover have "0 \<le> ?x" using y by (rule round64_nonneg)
    moreover have "?x \<le> x' - 1 + (b / 2 ^ 53 + 1 / 2 ^ 200)"
      using x'(3) by (intro round64_upper_cap [OF y]) linarith
    ultimately show ?thesis using x' slack step by (intro exI [of _ s4] exI [of _ ?x]) simp
  qed
qed

lemma admitted_bound:
  assumes "tokens l = Fin s x" "0 \<le> x" "x \<le> b" and "b = of_nat (unat (burst_size (rl_config l)))"
    and "last_update l = Fin s1 t" and "0 \<le> t" "sorted (t # ts)" "last (t # ts) \<le> 2 ^ 64"
    and "requests_per_second (rl_config l) = Fin s3 r" "0 \<le> r" "r \<le> 2 ^ 64"
  shows "of_nat (length (filter id (snd (run try_acquire l (map (Fin False) ts)))))
           \<le> x + r * (last (t # ts) - t) * (1 + 1 / 2 ^ 51) + of_nat (length ts) * ((b + 1) / 2 ^ 52)"
  using assms
proof (induction ts arbitrary: l s x s1 t)
  case (Cons t' ts)
  let ?l = "fst (try_acquire l (Fin False t'))" and ?E = "(b + 1) / 2 ^ 52"
  have le: "t \<le> t'" "t' \<le> last (t' # ts)"
    using Cons.prems(7) by simp_all
  obtain s' x' where x': "tokens ?l = Fin s' x'" "0 \<le> x'" "x' \<le> b"
      "(if snd (try_acquire l (Fin False t')) then 1 else 0) + x'
         \<le> x + r * (t' - t) * (1 + 1 / 2 ^ 51) + ?E"
    using acquire_gain [OF Cons.prems(1-6) _ _ Cons.prems(9-11), of t' False] le Cons.prems(8) by auto
  have cfg: "rl_config ?l = rl_config l" by (rule bucket_config.step_frame)
  have lu: "last_update ?l = Fin False t'"
    by (simp add: try_acquire_def refill_def Let_def)
  have split: "r * (t' - t) * c + r * (last (t' # ts) - t') * c = r * (last (t # t' # ts) - t) * c" for c
    by (simp add: algebra_simps)
  have "of_nat (length (filter id (snd (run try_acquire ?l (map (Fin False) ts)))))
      \<le> x' + r * (last (t' # ts) - t') * (1 + 1 / 2 ^ 51) + of_nat (length ts) * ?E"
    using Cons.prems le by (intro Cons.IH [OF x'(1-3) _ lu]) (simp_all add: cfg)
  moreover note split [of "1 + 1 / 2 ^ 51"]
  moreover have "of_nat (length (t' # ts)) * ?E = ?E + of_nat (length ts) * ?E"
    by (simp only: length_Cons of_nat_Suc distrib_right mult_1_left)
  moreover have "of_nat (length (filter id (snd (run try_acquire l (map (Fin False) (t' # ts)))))) =
      (if snd (try_acquire l (Fin False t')) then 1 else 0 :: rat) +
      of_nat (length (filter id (snd (run try_acquire ?l (map (Fin False) ts)))))"
    by simp
  ultimately show ?case using x'(4) by linarith
qed simp

subsection \<open>Waiting brings tokens\<close>

lemma count_on_grid: "k \<le> unat (w :: u32) \<Longrightarrow> on_grid (of_nat k) \<and> \<bar>of_nat k :: rat\<bar> < f64_limit"
proof -
  assume "k \<le> unat w"
  then have "\<bar>int k\<bar> \<le> 2 ^ 53" using unat_u32_less [of w] by simp
  from int_below_2_53 [OF this] show ?thesis by simp
qed

text \<open>Tokens that are there, or that the elapsed time brings, are there after refilling.\<close>

lemma refill_at_least:
  assumes ok: "bucket_ok cfg l" and rate: "requests_per_second cfg = Fin s r" "0 < r"
    and k: "k \<le> unat (burst_size cfg)"
    and enough: "fle (Fin False (of_nat k)) (tokens l) \<or>
      fle (Fin False (of_nat k)) (fmul (fmax (fsub now (last_update l)) (flit 0)) (requests_per_second cfg))"
  shows "fle (Fin False (of_nat k)) (tokens (refill l now))"
proof -
  let ?e = "fmax (fsub now (last_update l)) (flit 0)"
  let ?m = "fmul ?e (requests_per_second cfg)"
  have grid: "on_grid (of_nat k)" "\<bar>of_nat k :: rat\<bar> < f64_limit" using count_on_grid [OF k] by simp_all
  have e: "fle (Fin False 0) ?e" by (simp add: fmax_ge2)
  then have "?m \<noteq> NaN" using rate by (cases ?e) auto
  with fmul_nonneg [OF e, of "requests_per_second cfg"] rate have m: "fle (Fin False 0) ?m" by simp
  have tok: "fle (Fin False 0) (tokens l)" using ok rate by (auto simp: bucket_ok_def)
  have "fle (Fin False (of_nat k)) (fadd (tokens l) ?m)"
    using tok m enough by (cases "tokens l"; cases ?m) (auto intro!: round_fp_ge grid)
  moreover have "fle (Fin False (of_nat k)) (f64_of_u32 (burst_size cfg))"
    using k by (simp add: f64_of_u32_exact del: of_nat_unat)
  ultimately show ?thesis
    using ok fmin_greatest by (auto simp: refill_def Let_def bucket_ok_def)
qed

lemma tokens_grant:
  assumes "bucket_ok cfg l" and "requests_per_second cfg = Fin s r" "0 < r"
    and "k \<le> unat (burst_size cfg)" and "fle (Fin False (of_nat k)) (tokens (refill l now))"
  shows "list_all (\<lambda>a. a) (take k (snd (run try_acquire l (now # nows))))"
  using assms
proof (induction k arbitrary: l now nows)
  case (Suc k)
  let ?l = "fst (try_acquire l now)"
  have one: "fle (flit 1) (tokens (refill l now))"
    using Suc.prems(5) fle_trans [of "Fin False 1" "Fin False (of_nat (Suc k))"] by simp
  have "fle (Fin False (of_nat k)) (fsub (tokens (refill l now)) (flit 1))"
    using Suc.prems(4,5) count_on_grid [of k "burst_size cfg"]
    by (cases "tokens (refill l now)") (auto simp: fsub_def simp del: fle_zero_sign intro!: round_fp_ge)
  then have left: "fle (Fin False (of_nat k)) (tokens ?l)"
    using one by (simp add: try_acquire_def Let_def del: fle_zero_sign)
  have ok: "bucket_ok cfg ?l" using Suc.prems(1) by (rule try_acquire_ok)
  have "list_all (\<lambda>a. a) (take k (snd (run try_acquire ?l nows)))"
  proof (cases nows)
    case (Cons now' nows')
    have "fle (Fin False (of_nat k)) (tokens (refill ?l now'))"
      using ok Suc.prems(2-4) left by (intro refill_at_least) auto
    with Suc.IH [OF ok Suc.prems(2,3)] Suc.prems(4) Cons show ?thesis by simp
  qed simp
  moreover have "snd (try_acquire l now)" using one by (simp add: try_acquire_def Let_def)
  ultimately show ?case by simp
qed simp

lemma last_update_run:
  "last_update (fst (run try_acquire l ts)) = last (last_update l # ts)"
proof (induction ts arbitrary: l)
  case (Cons t ts)
  have "last_update (fst (try_acquire l t)) = t" by (simp add: try_acquire_def refill_def Let_def)
  with Cons show ?case by simp
qed simp

subsection \<open>Whole-number clocks\<close>

text \<open>The token bucket in exact arithmetic on natural numbers: tokens and last reading.\<close>

definition nat_bucket :: "nat \<Rightarrow> nat \<Rightarrow> nat \<times> nat \<Rightarrow> nat \<Rightarrow> (nat \<times> nat) \<times> bool" where
  "nat_bucket r b st t' =
     (let y = min (fst st + (t' - snd st) * r) b
      in if 1 \<le> y then ((y - 1, t'), True) else ((y, t'), False))"

definition nat_limiter :: "nat \<Rightarrow> u32 \<Rightarrow> nat \<times> nat \<Rightarrow> rate_limiter" where
  "nat_limiter r b st =
     \<lparr>rl_config = \<lparr>requests_per_second = Fin False (of_nat r), burst_size = b\<rparr>,
      tokens = Fin False (of_nat (fst st)), last_update = Fin False (of_nat (snd st))\<rparr>"

lemma fadd_nat: "m + n \<le> 2 ^ 53 \<Longrightarrow> fadd (Fin False (of_nat m)) (Fin False (of_nat n)) = Fin False (of_nat (m + n))"
  using round_fp_nat [of "m + n" False] by simp

lemma fmul_nat: "m * n \<le> 2 ^ 53 \<Longrightarrow> fmul (Fin False (of_nat m)) (Fin False (of_nat n)) = Fin False (of_nat (m * n))"
  using round_fp_nat [of "m * n" False] by simp

lemma fmin_nat: "fmin (Fin False (of_nat m)) (Fin False (of_nat n)) = Fin False (of_nat (min m n))"
  by (simp add: fmin_def min_def not_less)

lemma elapsed_nat:
  "t \<le> 2 ^ 53 \<Longrightarrow> t' \<le> 2 ^ 53 \<Longrightarrow>
   fmax (fsub (Fin False (of_nat t')) (Fin False (of_nat t))) (Fin False 0) = Fin False (of_nat (t' - t))"
  using round_fp_int [of "int t' - int t" False]
  by (auto simp: fsub_def fmax_def of_nat_diff not_le)

text \<open>Beyond \<open>2 ^ 53\<close> the arithmetic rounds, but there the burst caps the sum whatever the rounding.\<close>

lemma refill_nat:
  assumes "x \<le> b" and "b < 2 ^ 32" and "d \<le> 2 ^ 53" and "r \<le> 2 ^ 53"
  shows "fmin (fadd (Fin False (of_nat x)) (fmul (Fin False (of_nat d)) (Fin False (of_nat r)))) (Fin False (of_nat b)) =
     Fin False (of_nat (min (x + d * r) b))"
proof (cases "x + d * r \<le> 2 ^ 53")
  case True
  then show ?thesis by (simp add: fmul_nat fadd_nat fmin_nat del: fadd.simps fmul.simps of_nat_min of_nat_add of_nat_mult)
next
  case False
  let ?m = "fmul (Fin False (of_nat d)) (Fin False (of_nat r))" and ?big = "Fin False (2 ^ 52) :: fp"
  have grid: "on_grid (2 ^ 52)" "\<bar>2 ^ 52 :: rat\<bar> < f64_limit" using int_below_2_53 [of "2 ^ 52"] by simp_all
  have less: "b < 2 ^ 52" using assms(2) by simp
  have "(2 :: nat) ^ 52 \<le> d * r" using False assms(1,2) by simp
  then have dr: "(2 :: rat) ^ 52 \<le> of_nat d * of_nat r" by (metis of_nat_le_iff of_nat_mult of_nat_numeral of_nat_power)
  then have m: "fle ?big ?m" using grid by (auto intro!: round_fp_ge)
  then have "fle ?big (fadd (Fin False (of_nat x)) ?m)"
    using grid by (cases ?m) (auto intro!: round_fp_ge)
  moreover have "(of_nat b :: rat) < 2 ^ 52" using less
    by (metis of_nat_less_iff of_nat_numeral of_nat_power)
  ultimately have "fmin (fadd (Fin False (of_nat x)) ?m) (Fin False (of_nat b)) = Fin False (of_nat b)"
    by (cases "fadd (Fin False (of_nat x)) ?m") (auto simp: fmin_def)
  with False assms(1,2) show ?thesis by (simp add: min_def)
qed

lemma nat_bucket_refines:
  assumes "fst st \<le> unat b" and "snd st \<le> 2 ^ 53" and "t' \<le> 2 ^ 53" and "r \<le> 2 ^ 53"
  shows "try_acquire (nat_limiter r b st) (Fin False (of_nat t')) =
     (nat_limiter r b (fst (nat_bucket r (unat b) st t')), snd (nat_bucket r (unat b) st t'))"
proof -
  obtain x t where st: "st = (x, t)" by (cases st)
  let ?y = "min (x + (t' - t) * r) (unat b)"
  have y: "?y \<le> 2 ^ 53" using unat_u32_less [of b] by simp
  have d: "t' - t \<le> 2 ^ 53" using assms(3) by simp
  have x: "x \<le> unat b" using assms(1) by (simp add: st)
  have refill: "refill (nat_limiter r b st) (Fin False (of_nat t')) = nat_limiter r b (?y, t')"
    using assms(2,3) refill_nat [OF x unat_u32_less d assms(4)]
    by (simp add: refill_def nat_limiter_def st elapsed_nat f64_of_u32_exact
        del: of_nat_unat fadd.simps fmul.simps of_nat_min of_nat_add of_nat_mult)
  have sub: "fsub (Fin False (of_nat ?y)) (Fin False 1) = Fin False (of_nat (?y - 1))" if "1 \<le> ?y"
    using that y round_fp_nat [of "?y - 1" False] by (simp add: fsub_def of_nat_diff)
  show ?thesis
    unfolding try_acquire_def refill
    using sub by (simp add: nat_limiter_def nat_bucket_def st Let_def del: of_nat_min)
qed

lemma run_nat_bucket:
  assumes "fst st \<le> unat b" and "snd st \<le> 2 ^ 53" and "\<forall>t \<in> set ts. t \<le> 2 ^ 53" and "r \<le> 2 ^ 53"
  shows "snd (run try_acquire (nat_limiter r b st) (map (\<lambda>t. Fin False (of_nat t)) ts)) =
     snd (run (nat_bucket r (unat b)) st ts)"
  using assms
proof (induction ts arbitrary: st)
  case (Cons t ts)
  have "fst (fst (nat_bucket r (unat b) st t)) \<le> unat b" "snd (fst (nat_bucket r (unat b) st t)) \<le> 2 ^ 53"
    using Cons.prems(3) by (auto simp: nat_bucket_def Let_def intro: le_trans [OF diff_le_self])
  with Cons show ?case by (simp add: nat_bucket_refines)
qed simp

lemma new_nat_limiter:
  "rate_limiter_new \<lparr>requests_per_second = Fin False (of_nat r), burst_size = b\<rparr> (Fin False (of_nat t)) =
     nat_limiter r b (unat b, t)"
  by (simp add: nat_limiter_def rate_limiter_new_def f64_of_u32_exact del: of_nat_unat)

lemma all_true: "list_all id xs \<Longrightarrow> xs = replicate (length xs) True"
  by (induction xs) simp_all

text \<open>A clock that jumps back and forth between two readings.\<close>

lemma jumping_clock:
  assumes "2 \<le> b" and "2 \<le> d * r" and "d \<le> t" and "1 \<le> x"
  shows "list_all id (snd (run (nat_bucket r b) (x, t) (concat (replicate n [t - d, t]))))"
  using assms(4)
proof (induction n arbitrary: x)
  case (Suc n)
  let ?x = "min (min x b - 1 + d * r) b - 1"
  have "1 \<le> min x b" using Suc.prems assms(1) by simp
  then have early: "nat_bucket r b (x, t) (t - d) = ((min x b - 1, t - d), True)"
    by (simp add: nat_bucket_def Let_def)
  have "1 \<le> min (min x b - 1 + d * r) b" and x: "1 \<le> ?x"
    using Suc.prems assms(1,2) by (simp_all add: min_def) linarith+
  then have "nat_bucket r b (min x b - 1, t - d) t = ((?x, t), True)"
    using assms(3) by (simp add: nat_bucket_def Let_def)
  with early Suc.IH [OF x] show ?case by simp
qed simp

subsection \<open>Devices are independent\<close>


text \<open>One device's bucket on its own: what an operation does to it, and the answer it gives. A purge
  answers with a number of buckets, which is not about one device.\<close>

fun own_step ::
  "rate_limiter_config \<Rightarrow> u64 \<Rightarrow> rate_limiter option \<Rightarrow> drl_op \<Rightarrow> rate_limiter option \<times> drl_out option" where
  "own_step cfg d b (Acquire d' now) =
     (if d' = d
      then let (l, a) = try_acquire (case b of Some l \<Rightarrow> l | None \<Rightarrow> rate_limiter_new cfg now) now
        in (Some l, Some (Allowed a))
      else (b, None))"
| "own_step cfg d b (Remove d') = (if d' = d then (None, Some (Removed (b \<noteq> None))) else (b, None))"
| "own_step cfg d b (Purge now thr) =
     (case b of None \<Rightarrow> (None, None)
      | Some l \<Rightarrow> (if flt (fsub now (last_update l)) thr then Some l else None, None))"

fun addressed :: "u64 \<Rightarrow> drl_op \<Rightarrow> bool" where
  "addressed d (Acquire d' now) = (d' = d)"
| "addressed d (Remove d') = (d' = d)"
| "addressed d (Purge now thr) = False"

text \<open>The answers among \<open>outs\<close> that go to the device.\<close>

definition answers_to :: "u64 \<Rightarrow> drl_op list \<Rightarrow> drl_out list \<Rightarrow> drl_out list" where
  "answers_to d ops outs = map snd (filter (\<lambda>(e, out). addressed d e) (zip ops outs))"

definition given :: "drl_out option list \<Rightarrow> drl_out list" where
  "given outs = map the (filter (\<lambda>x. x \<noteq> None) outs)"

fun concerns :: "u64 \<Rightarrow> drl_op \<Rightarrow> bool" where
  "concerns d (Acquire d' now) = (d' = d)"
| "concerns d (Remove d') = (d' = d)"
| "concerns d (Purge now thr) = True"

lemma drl_config_step [simp]: "drl_config (fst (drl_step dl e)) = drl_config dl"
  by (cases e) (simp_all add: drl_try_acquire_def remove_device_def purge_inactive_def Let_def split_def)

lemma drl_wf_step: "hm_wf (limiters dl) \<Longrightarrow> hm_wf (limiters (fst (drl_step dl e)))"
  by (cases e)
    (simp_all add: drl_try_acquire_def remove_device_def purge_inactive_def Let_def split_def
      hm.wf_ins hm.wf_del hm.wf_retain)

lemma drl_step_own:
  assumes "hm_wf (limiters dl)"
  shows "own_step (drl_config dl) d (hm_get (limiters dl) d) e =
     (hm_get (limiters (fst (drl_step dl e))) d, if addressed d e then Some (snd (drl_step dl e)) else None)"
  using assms
  by (cases e)
    (auto simp: drl_try_acquire_def remove_device_def purge_inactive_def Let_def split_def
      hm.get_ins hm.get_del hm.get_retain split: option.split)





lemma own_step_other: "\<not> concerns d e \<Longrightarrow> own_step cfg d b e = (b, None)"
  by (cases e) simp_all

lemma run_own:
  assumes "hm_wf (limiters dl)"
  shows "fst (run (own_step (drl_config dl) d) (hm_get (limiters dl) d) (filter (concerns d) es)) =
      hm_get (limiters (fst (run drl_step dl es))) d"
    and "given (snd (run (own_step (drl_config dl) d) (hm_get (limiters dl) d) (filter (concerns d) es))) =
      answers_to d es (snd (run drl_step dl es))"
  using assms
proof (atomize (full), induction es arbitrary: dl)
  case (Cons e es)
  note own = drl_step_own [OF Cons.prems, of d e]
  note IH = Cons.IH [OF drl_wf_step [OF Cons.prems, of e], unfolded drl_config_step]
  show ?case
  proof (cases "concerns d e")
    case True
    with own IH show ?thesis by (simp add: given_def answers_to_def)
  next
    case False
    then have "\<not> addressed d e" "hm_get (limiters (fst (drl_step dl e))) d = hm_get (limiters dl) d"
      using own own_step_other [OF False] by (auto elim: addressed.elims)
    with False IH show ?thesis by (simp add: answers_to_def)
  qed
qed (simp add: given_def answers_to_def)


subsection \<open>Properties\<close>

text \<open>Whatever the configuration and whatever clock readings arrive (NaN, infinities,
  readings that go backwards), after any sequence of requests the bucket holds at most the
  burst, and at least zero unless the configured rate is negative.\<close>

theorem tokens_bounded:
  "fle (available_tokens (fst (run try_acquire (rate_limiter_new cfg now) nows)))
       (f64_of_u32 (burst_size cfg)) \<and>
   (flt (requests_per_second cfg) (Fin False 0) \<or>
    fle (Fin False 0) (available_tokens (fst (run try_acquire (rate_limiter_new cfg now) nows))))"
  using bucket.run_inv [OF bucket_new_ok [of cfg now], of nows]
  by (simp add: bucket_ok_def available_tokens_def)

text \<open>The burst is exact: of \<open>n\<close> requests that reach a fresh bucket at one instant, the
  first \<open>burst_size\<close> are admitted and all later ones are rejected.\<close>

theorem burst_exact:
  assumes "is_fin now" and "is_fin (requests_per_second cfg)"
  shows "snd (run try_acquire (rate_limiter_new cfg now) (replicate n now)) =
           map (\<lambda>i. i < unat (burst_size cfg)) [0..<n]"
  using assms
  by (intro run_same_instant) (simp_all add: rate_limiter_new_def f64_of_u32_exact del: of_nat_unat)

lemma burst_exact_witness:
  "snd (run try_acquire
      (rate_limiter_new \<lparr>requests_per_second = flit 10, burst_size = 3\<rparr> (Fin False 7))
      (replicate 4 (Fin False 7))) = [True, True, True, False]"
  using burst_exact [of "Fin False 7" "\<lparr>requests_per_second = flit 10, burst_size = 3\<rparr>" 4]
  by (simp add: flit_def round_fp_numeral upt_rec)

text \<open>C6. The rate guarantee, in binary64 arithmetic: on a clock that does not go back, the
  requests admitted up to the last one are at most the burst plus the rate times the time
  elapsed, up to a relative error of \<open>2 ^ -51\<close> of the refill and an absolute rounding slack of
  \<open>(burst + 1) / 2 ^ 52\<close> per request.\<close>

theorem rate_guarantee:
  assumes "requests_per_second cfg = Fin s r" and "0 \<le> r" and "r \<le> 2 ^ 64"
    and "0 \<le> t" and "sorted (t # ts)" and "last (t # ts) \<le> 2 ^ 64"
  shows "of_nat (length (filter id
            (snd (run try_acquire (rate_limiter_new cfg (Fin False t)) (map (Fin False) ts)))))
         \<le> of_nat (unat (burst_size cfg)) + r * (last (t # ts) - t) * (1 + 1 / 2 ^ 51)
             + of_nat (length ts) * ((of_nat (unat (burst_size cfg)) + 1) / 2 ^ 52)"
proof (rule admitted_bound)
  let ?l = "rate_limiter_new cfg (Fin False t)"
  show "tokens ?l = Fin False (of_nat (unat (burst_size cfg)))"
    by (simp add: rate_limiter_new_def f64_of_u32_exact del: of_nat_unat)
  show "of_nat (unat (burst_size cfg)) = of_nat (unat (burst_size (rl_config ?l)))"
    and "last_update ?l = Fin False t" and "requests_per_second (rl_config ?l) = Fin s r"
    using assms(1) by (simp_all add: rate_limiter_new_def)
qed (use assms in \<open>simp_all only: order_refl of_nat_0_le_iff\<close>)

lemma rate_guarantee_witness:
  "of_nat (length (filter id
      (snd (run try_acquire
        (rate_limiter_new \<lparr>requests_per_second = flit 10, burst_size = 5\<rparr> (Fin False 0))
        (map (Fin False) [0, 1, 2])))))
   \<le> 5 + 10 * 2 * (1 + 1 / 2 ^ 51) + 3 * (6 / 2 ^ 52 :: rat)"
  using rate_guarantee [of "\<lparr>requests_per_second = flit 10, burst_size = 5\<rparr>" False 10 0 "[0, 1, 2]"]
  by (simp add: flit_def round_fp_numeral del: run_snd_Cons)

text \<open>C7. Waiting is rewarded, in binary64 arithmetic and after any history, clocks that went back or
  were NaN included: once the clock has moved on from its last reading by at least a binary64 number
  \<open>d\<close> that at the given rate brings \<open>k\<close> tokens (no more than the burst), the next \<open>k\<close> requests are
  admitted, whatever the clock reads at the later ones. No rounding error stands in the way.\<close>

theorem waiting_grants:
  assumes rate: "requests_per_second cfg = Fin s r" "0 < r" and k: "k \<le> unat (burst_size cfg)"
    and last: "last (t0 # ts) = Fin s1 t"
    and wait: "f64_ok (Fin s2 d)" "d \<le> t' - t" "of_nat k \<le> d * r"
  shows "list_all (\<lambda>a. a) (take k (snd (run try_acquire
     (fst (run try_acquire (rate_limiter_new cfg t0) ts)) (Fin s3 t' # nows))))"
proof -
  let ?l = "fst (run try_acquire (rate_limiter_new cfg t0) ts)"
  have ok: "bucket_ok cfg ?l" by (rule bucket.run_inv) (rule bucket_new_ok)
  have "last_update ?l = Fin s1 t" using last by (simp add: last_update_run rate_limiter_new_def)
  then have "fle (Fin False d) (fsub (Fin s3 t') (last_update ?l))"
    using wait(1,2) by (auto simp: fsub_def intro!: round_fp_ge)
  then have e: "fle (Fin False d) (fmax (fsub (Fin s3 t') (last_update ?l)) (flit 0))"
    by (cases "fsub (Fin s3 t') (last_update ?l)") (auto simp: fmax_def)
  have "fle (Fin False (of_nat k)) (fmul (fmax (fsub (Fin s3 t') (last_update ?l)) (flit 0)) (Fin s r))"
  proof (cases "fmax (fsub (Fin s3 t') (last_update ?l)) (flit 0)")
    case (Fin s4 q)
    with e rate(2) have "d * r \<le> q * r" by (simp add: mult_right_mono)
    with wait(3) have "of_nat k \<le> q * r" by linarith
    with Fin show ?thesis using count_on_grid [OF k] by (auto intro!: round_fp_ge)
  next
    case (Inf s4)
    with e rate(2) show ?thesis by simp
  qed (use e in simp)
  then have "fle (Fin False (of_nat k)) (tokens (refill ?l (Fin s3 t')))"
    using ok rate k by (intro refill_at_least) auto
  from tokens_grant [OF ok rate k this] show ?thesis .
qed

lemma waiting_grants_witness:
  "list_all (\<lambda>a. a) (take 2 (snd (run try_acquire
     (fst (run try_acquire (rate_limiter_new \<lparr>requests_per_second = Fin False 4, burst_size = 3\<rparr> (Fin False 0))
       [Fin False 7, Fin False 7, Fin False 7, Fin False 7])) [Fin False (15 / 2), NaN])))"
proof (rule waiting_grants [of _ False 4 2 _ _ False 7 False "1 / 2"])
  show "f64_ok (Fin False (1 / 2))" using on_grid_pow2 [of "-1"] by (simp add: f64_limit_def)
qed simp_all

text \<open>C21. With a whole number of requests per second and whole-number clock readings, all up to
  \<open>2 ^ 53\<close> (Unix time included), the bucket is exact: it admits what the token bucket over the natural
  numbers admits, clocks that go back included.\<close>

theorem whole_number_refinement:
  assumes "r \<le> 2 ^ 53" and "\<forall>t \<in> set (t0 # ts). t \<le> 2 ^ 53"
  shows "snd (run try_acquire
      (rate_limiter_new \<lparr>requests_per_second = Fin False (of_nat r), burst_size = b\<rparr> (Fin False (of_nat t0)))
      (map (\<lambda>t. Fin False (of_nat t)) ts)) = snd (run (nat_bucket r (unat b)) (unat b, t0) ts)"
  using assms run_nat_bucket [of "(unat b, t0)" b ts r] by (simp add: new_nat_limiter)

lemma whole_number_refinement_witness:
  "snd (run try_acquire
      (rate_limiter_new \<lparr>requests_per_second = Fin False 1, burst_size = 1\<rparr> (Fin False 1700000000))
      (map (\<lambda>t. Fin False (of_nat t)) [1700000000, 1700000000, 1700000001])) = [True, False, True]"
  using whole_number_refinement [of 1 1700000000 "[1700000000, 1700000000, 1700000001]" 1]
  by (simp add: nat_bucket_def Let_def del: list.map)

text \<open>C31. The rate guarantee needs a clock that does not go back: \<open>refill\<close> stores the reading even when
  it is older, so the same seconds are credited again. On a clock that jumps between \<open>t - d\<close> and \<open>t\<close>,
  where \<open>d\<close> seconds bring at least two tokens and the burst is at least two, every one of any number
  of requests is admitted, although no reading is later than the start.\<close>

theorem clock_rollback_double_credit:
  assumes "2 \<le> unat b" and "2 \<le> d * r" and "d \<le> t" and "t \<le> 2 ^ 53" and "r \<le> 2 ^ 53"
  shows "snd (run try_acquire
      (rate_limiter_new \<lparr>requests_per_second = Fin False (of_nat r), burst_size = b\<rparr> (Fin False (of_nat t)))
      (map (\<lambda>t. Fin False (of_nat t)) (concat (replicate n [t - d, t])))) = replicate (2 * n) True"
proof -
  let ?ts = "concat (replicate n [t - d, t])"
  have "\<forall>u \<in> set ?ts. u \<le> 2 ^ 53" using assms(4) by auto
  then have run: "snd (run try_acquire (nat_limiter r b (unat b, t)) (map (\<lambda>t. Fin False (of_nat t)) ?ts)) =
      snd (run (nat_bucket r (unat b)) (unat b, t) ?ts)"
    using assms(4,5) by (intro run_nat_bucket) simp_all
  have "list_all id (snd (run (nat_bucket r (unat b)) (unat b, t) ?ts))"
    using assms(1-3) by (intro jumping_clock) simp_all
  moreover have "length ?ts = 2 * n" by (induction n) simp_all
  ultimately have "snd (run (nat_bucket r (unat b)) (unat b, t) ?ts) = replicate (2 * n) True"
    using all_true [of "snd (run (nat_bucket r (unat b)) (unat b, t) ?ts)"] by simp
  with run show ?thesis by (simp only: new_nat_limiter)
qed

lemma clock_rollback_double_credit_witness:
  "snd (run try_acquire
      (rate_limiter_new \<lparr>requests_per_second = Fin False 10, burst_size = 5\<rparr> (Fin False 1))
      (concat (replicate 10 [Fin False 0, Fin False 1]))) = replicate 20 True"
  using clock_rollback_double_credit [of 5 1 10 1 10] by (simp add: map_concat)

text \<open>C32. A rate that is NaN or infinite switches the limiter off: every request is admitted
  as soon as the burst is positive, since the refill then yields the whole burst.\<close>

theorem non_finite_rate_admits_all:
  assumes "requests_per_second cfg = NaN \<or> requests_per_second cfg = Inf False"
    and "0 < burst_size cfg"
  shows "list_all id (snd (run try_acquire (rate_limiter_new cfg now) nows))"
proof -
  have full: "tokens (refill l t) = f64_of_u32 (burst_size cfg)"
    if l: "bucket_ok cfg l" for l t
  proof -
    let ?e = "fmax (fsub t (last_update l)) (Fin False 0)"
    have e: "fle (Fin False 0) ?e" by (rule fmax_ge2) simp
    have "tokens l \<noteq> NaN" "tokens l \<noteq> Inf True"
      using l assms(1) by (auto simp: bucket_ok_def)
    with assms(1) e have "fadd (tokens l) (fmul ?e (requests_per_second cfg)) \<in> {NaN, Inf False}"
      by (cases ?e; cases "tokens l") (auto split: if_splits)
    then show ?thesis
      using l by (auto simp: refill_def Let_def bucket_ok_def fmin_def f64_of_u32_exact simp del: of_nat_unat)
  qed
  have "1 \<le> unat (burst_size cfg)" using assms(2) by (simp add: word_less_nat_alt)
  then have b: "fle (flit 1) (f64_of_u32 (burst_size cfg))"
    by (simp add: f64_of_u32_exact del: of_nat_unat)
  have "list_all id (snd (run try_acquire l nows))" if "bucket_ok cfg l" for l
    using that
  proof (induction nows arbitrary: l)
    case (Cons t nows)
    have "snd (try_acquire l t)"
      using full [OF Cons.prems] b by (simp add: try_acquire_def Let_def)
    then show ?case using Cons.IH [OF try_acquire_ok [OF Cons.prems]] by simp
  qed simp
  then show ?thesis using bucket_new_ok by blast
qed

lemma non_finite_rate_admits_all_witness:
  "list_all id (snd (run try_acquire
     (rate_limiter_new \<lparr>requests_per_second = NaN, burst_size = 1\<rparr> (Fin False 0))
     [Fin False 0, Fin False 0, Fin False 0]))"
  by (rule non_finite_rate_admits_all) simp_all

text \<open>C22. Devices do not influence each other: after any mix of requests, removals and purges, the
  answers a device has got, and its bucket, are those of a limiter of its own that saw nothing but
  the device's requests and removals, and the purges.\<close>

theorem devices_isolated:
  "answers_to d ops (snd (run drl_step (drl_new cfg) ops)) =
     given (snd (run (own_step cfg d) None (filter (concerns d) ops))) \<and>
   hm_get (limiters (fst (run drl_step (drl_new cfg) ops))) d =
     fst (run (own_step cfg d) None (filter (concerns d) ops))"
proof -
  have "hm_wf (limiters (drl_new cfg))" by (simp add: drl_new_def hm.wf_emp)
  from run_own [OF this, of d ops] show ?thesis by (simp add: drl_new_def hm.get_emp)
qed

text \<open>C39. The rejection counter is the number of rejected requests over all devices, modulo
  \<open>2 ^ 64\<close>.\<close>

theorem total_rejected_counts:
  "drl_total_rejected (fst (run drl_step (drl_new cfg) ops)) =
     of_nat (length (filter (\<lambda>r. r = Allowed False) (snd (run drl_step (drl_new cfg) ops))))"
proof -
  have "length (filter (\<lambda>(e, r). r = Allowed False) (zip es rs)) =
      length (filter (\<lambda>r. r = Allowed False) rs)" if "length es = length rs" for es :: "drl_op list" and rs
    using that by (induction es rs rule: list_induct2) simp_all
  then show ?thesis
    using rejections.run_count [of "drl_new cfg" ops]
    by (simp add: drl_total_rejected_def drl_new_def)
qed


end
