(* ===== verification/Circuit_Breaker.thy ===== *)
theory Circuit_Breaker
  imports Rust_Float
begin

text \<open>
  \<^verbatim>\<open>src/circuit_breaker.rs\<close>: the three-state breaker with its counters, and its refinement
  of an automaton that keeps, in each state, only what that state uses. The lemmas give the
  opening threshold, the recovery timeout in binary64 arithmetic, the half-open quota, the
  transition counter, and two behaviours that need care (stale successes, a half-open state
  that no timeout leaves).
\<close>

datatype circuit_state = Closed | Open | HalfOpen

record circuit_breaker_config =
  failure_threshold :: u32
  recovery_timeout_s :: f64
  half_open_max_requests :: u32

definition circuit_breaker_config_default :: circuit_breaker_config where
  "circuit_breaker_config_default =
     \<lparr>failure_threshold = 5, recovery_timeout_s = flit 30, half_open_max_requests = 3\<rparr>"

record circuit_breaker =
  cb_config :: circuit_breaker_config
  cb_state :: circuit_state
  consecutive_failures :: u32
  opened_at :: f64
  half_open_requests :: u32
  half_open_successes :: u32
  transition_count :: u64

definition breaker_new :: "circuit_breaker_config \<Rightarrow> circuit_breaker" where
  "breaker_new cfg =
     \<lparr>cb_config = cfg, cb_state = Closed, consecutive_failures = 0, opened_at = flit 0,
      half_open_requests = 0, half_open_successes = 0, transition_count = 0\<rparr>"

definition breaker_with_defaults :: circuit_breaker where
  "breaker_with_defaults =
     breaker_new \<lparr>failure_threshold = 5, recovery_timeout_s = flit 30, half_open_max_requests = 3\<rparr>"

definition transition_to :: "circuit_breaker \<Rightarrow> circuit_state \<Rightarrow> circuit_breaker" where
  "transition_to cb new_state =
     (if cb_state cb \<noteq> new_state
      then cb\<lparr>cb_state := new_state, transition_count := transition_count cb + 1\<rparr>
      else cb)"

definition allow_request :: "circuit_breaker \<Rightarrow> f64 \<Rightarrow> circuit_breaker \<times> bool" where
  "allow_request cb now =
     (case cb_state cb of
        Closed \<Rightarrow> (cb, True)
      | Open \<Rightarrow>
          if fle (recovery_timeout_s (cb_config cb)) (fsub now (opened_at cb))
          then ((transition_to cb HalfOpen)\<lparr>half_open_requests := 1, half_open_successes := 0\<rparr>, True)
          else (cb, False)
      | HalfOpen \<Rightarrow>
          if half_open_requests cb < half_open_max_requests (cb_config cb)
          then (cb\<lparr>half_open_requests := half_open_requests cb + 1\<rparr>, True)
          else (cb, False))"

definition record_success :: "circuit_breaker \<Rightarrow> circuit_breaker" where
  "record_success cb =
     (case cb_state cb of
        Closed \<Rightarrow> cb\<lparr>consecutive_failures := 0\<rparr>
      | HalfOpen \<Rightarrow>
          let cb' = cb\<lparr>half_open_successes := half_open_successes cb + 1\<rparr>
          in if half_open_max_requests (cb_config cb') \<le> half_open_successes cb'
             then (transition_to cb' Closed)\<lparr>consecutive_failures := 0\<rparr>
             else cb'
      | Open \<Rightarrow> cb)"

definition record_failure :: "circuit_breaker \<Rightarrow> f64 \<Rightarrow> circuit_breaker" where
  "record_failure cb now =
     (case cb_state cb of
        Closed \<Rightarrow>
          let cb' = cb\<lparr>consecutive_failures := consecutive_failures cb + 1\<rparr>
          in if failure_threshold (cb_config cb') \<le> consecutive_failures cb'
             then (transition_to cb' Open)\<lparr>opened_at := now\<rparr>
             else cb'
      | HalfOpen \<Rightarrow> (transition_to cb Open)\<lparr>opened_at := now\<rparr>
      | Open \<Rightarrow> cb)"

definition breaker_reset :: "circuit_breaker \<Rightarrow> circuit_breaker" where
  "breaker_reset cb =
     (transition_to cb Closed)
       \<lparr>consecutive_failures := 0, half_open_requests := 0, half_open_successes := 0\<rparr>"

datatype breaker_op = Allow f64 | Success | Failure f64 | Reset

fun breaker_step :: "circuit_breaker \<Rightarrow> breaker_op \<Rightarrow> circuit_breaker \<times> bool option" where
  "breaker_step cb (Allow now) = (let (cb', a) = allow_request cb now in (cb', Some a))"
| "breaker_step cb Success = (record_success cb, None)"
| "breaker_step cb (Failure now) = (record_failure cb now, None)"
| "breaker_step cb Reset = (breaker_reset cb, None)"

lemmas breaker_defs = allow_request_def record_success_def record_failure_def breaker_reset_def
  transition_to_def Let_def

subsection \<open>Invariant: the counters stay below their limits\<close>

definition breaker_ok :: "circuit_breaker_config \<Rightarrow> circuit_breaker \<Rightarrow> bool" where
  "breaker_ok cfg cb \<longleftrightarrow> cb_config cb = cfg \<and>
     (cb_state cb = Closed \<longrightarrow> consecutive_failures cb < max (failure_threshold cfg) 1) \<and>
     (cb_state cb = HalfOpen \<longrightarrow>
        half_open_requests cb \<le> max (half_open_max_requests cfg) 1 \<and>
        half_open_successes cb < max (half_open_max_requests cfg) 1)"

lemma zero_less_max_1 [simp]: "(0 :: u32) < max n 1"
  by (rule less_le_trans [of 0 1]) simp_all

lemma not_le_Suc_less: "\<not> F \<le> n \<Longrightarrow> n < max F 1" for F n :: u32
  by (simp add: less_max_iff_disj not_le)

lemma breaker_new_ok: "breaker_ok cfg (breaker_new cfg)"
  by (simp add: breaker_ok_def breaker_new_def)

lemma breaker_step_ok: "breaker_ok cfg cb \<Longrightarrow> breaker_ok cfg (fst (breaker_step cb e))"
proof (cases e)
  case (Allow now)
  assume ok: "breaker_ok cfg cb"
  have "half_open_requests cb + 1 \<le> max (half_open_max_requests cfg) 1"
    if "half_open_requests cb < half_open_max_requests cfg"
    using word_Suc_le [OF that] by (simp add: le_max_iff_disj)
  with ok Allow show ?thesis
    by (auto simp: breaker_ok_def breaker_defs split: circuit_state.split)
qed (auto simp: breaker_ok_def breaker_defs not_le_Suc_less split: circuit_state.split)

interpretation breaker: invariant_machine breaker_step "breaker_ok cfg" for cfg
  by unfold_locales (rule breaker_step_ok)

interpretation breaker_config: framed breaker_step cb_config
proof unfold_locales
  show "cb_config (fst (breaker_step s e)) = cb_config s" for s e
    by (cases e) (auto simp: breaker_defs split: circuit_state.split)
qed

subsection \<open>The automaton the breaker implements\<close>

datatype abreaker = AClosed nat | AOpen f64 | AHalf nat nat

fun abreaker_step ::
  "circuit_breaker_config \<Rightarrow> abreaker \<Rightarrow> breaker_op \<Rightarrow> abreaker \<times> bool option" where
  "abreaker_step cfg (AClosed n) (Allow now) = (AClosed n, Some True)"
| "abreaker_step cfg (AOpen t) (Allow now) =
     (if fle (recovery_timeout_s cfg) (fsub now t) then (AHalf 1 0, Some True)
      else (AOpen t, Some False))"
| "abreaker_step cfg (AHalf a s) (Allow now) =
     (if a < unat (half_open_max_requests cfg) then (AHalf (a + 1) s, Some True)
      else (AHalf a s, Some False))"
| "abreaker_step cfg (AClosed n) Success = (AClosed 0, None)"
| "abreaker_step cfg (AOpen t) Success = (AOpen t, None)"
| "abreaker_step cfg (AHalf a s) Success =
     (if unat (half_open_max_requests cfg) \<le> s + 1 then AClosed 0 else AHalf a (s + 1), None)"
| "abreaker_step cfg (AClosed n) (Failure now) =
     (if unat (failure_threshold cfg) \<le> n + 1 then AOpen now else AClosed (n + 1), None)"
| "abreaker_step cfg (AOpen t) (Failure now) = (AOpen t, None)"
| "abreaker_step cfg (AHalf a s) (Failure now) = (AOpen now, None)"
| "abreaker_step cfg _ Reset = (AClosed 0, None)"

definition abs_breaker :: "circuit_breaker \<Rightarrow> abreaker" where
  "abs_breaker cb =
     (case cb_state cb of
        Closed \<Rightarrow> AClosed (unat (consecutive_failures cb))
      | Open \<Rightarrow> AOpen (opened_at cb)
      | HalfOpen \<Rightarrow> AHalf (unat (half_open_requests cb)) (unat (half_open_successes cb)))"

lemma breaker_sim:
  assumes "breaker_ok cfg cb"
  shows "abreaker_step cfg (abs_breaker cb) e =
     (abs_breaker (fst (breaker_step cb e)), snd (breaker_step cb e))"
proof (cases "cb_state cb")
  case Closed
  then have "unat (consecutive_failures cb + 1) = Suc (unat (consecutive_failures cb))"
    using assms by (intro unat_Suc_word [of _ "max (failure_threshold cfg) 1"]) (simp add: breaker_ok_def)
  with Closed assms show ?thesis
    by (cases e) (auto simp: abs_breaker_def breaker_defs breaker_ok_def word_le_nat_alt)
next
  case Open
  with assms show ?thesis
    by (cases e) (auto simp: abs_breaker_def breaker_defs breaker_ok_def)
next
  case HalfOpen
  then have s: "unat (half_open_successes cb + 1) = Suc (unat (half_open_successes cb))"
    using assms by (intro unat_Suc_word [of _ "max (half_open_max_requests cfg) 1"]) (simp add: breaker_ok_def)
  have "unat (half_open_requests cb + 1) = Suc (unat (half_open_requests cb))"
    if "half_open_requests cb < half_open_max_requests cfg"
    using that by (rule unat_Suc_word)
  with s HalfOpen assms show ?thesis
    by (cases e)
      (auto simp: abs_breaker_def breaker_defs breaker_ok_def word_le_nat_alt word_less_nat_alt)
qed

interpretation breaker_sim:
  simulation breaker_step "breaker_ok cfg" "abreaker_step cfg" abs_breaker for cfg
  by unfold_locales (rule breaker_sim)

subsection \<open>Runs in one state\<close>

lemma failures_while_closed:
  "breaker_ok cfg cb \<Longrightarrow> cb_state cb = Closed \<Longrightarrow>
   cb_state (fst (run breaker_step cb (replicate n (Failure now)))) =
     (if unat (consecutive_failures cb) + n < max (unat (failure_threshold cfg)) 1 then Closed
      else if n = 0 then Closed else Open)"
proof (induction n arbitrary: cb)
  case (Suc n)
  let ?cb = "fst (breaker_step cb (Failure now))"
  have ok: "breaker_ok cfg ?cb" using Suc.prems(1) by (rule breaker_step_ok)
  have cf: "unat (consecutive_failures cb + 1) = Suc (unat (consecutive_failures cb))"
    using Suc.prems
    by (intro unat_Suc_word [of _ "max (failure_threshold cfg) 1"]) (simp add: breaker_ok_def)
  have cfg: "cb_config cb = cfg" using Suc.prems(1) by (simp add: breaker_ok_def)
  have stay_open: "cb_state (fst (run breaker_step c (replicate k (Failure now)))) = Open"
    if "cb_state c = Open" for c k
    using that by (induction k arbitrary: c) (simp_all add: record_failure_def)
  show ?case
  proof (cases "failure_threshold cfg \<le> consecutive_failures cb + 1")
    case True
    then have "cb_state ?cb = Open"
      using Suc.prems cfg by (simp add: breaker_defs)
    with stay_open True show ?thesis by (simp add: word_le_nat_alt cf)
  next
    case False
    then have "cb_state ?cb = Closed" "consecutive_failures ?cb = consecutive_failures cb + 1"
      using Suc.prems cfg by (simp_all add: breaker_defs)
    with Suc.IH [OF ok] False show ?thesis by (simp add: word_le_nat_alt cf)
  qed
qed simp

text \<open>\<open>half_open_throughout cb ops\<close>: the breaker is half-open before, between and after \<open>ops\<close>.\<close>

fun half_open_throughout :: "circuit_breaker \<Rightarrow> breaker_op list \<Rightarrow> bool" where
  "half_open_throughout cb [] = (cb_state cb = HalfOpen)"
| "half_open_throughout cb (e # es) =
     (cb_state cb = HalfOpen \<and> half_open_throughout (fst (breaker_step cb e)) es)"

definition admissions :: "bool option list \<Rightarrow> nat" where
  "admissions rs = length (filter (\<lambda>r. r = Some True) rs)"

lemma admissions_simps [simp]:
  "admissions [] = 0" "admissions (r # rs) = (if r = Some True then 1 else 0) + admissions rs"
  by (simp_all add: admissions_def)

definition requests :: "breaker_op list \<Rightarrow> nat" where
  "requests ops = length (filter (\<lambda>e. case e of Allow now \<Rightarrow> True | _ \<Rightarrow> False) ops)"

lemma requests_simps [simp]:
  "requests [] = 0" "requests (Allow now # ops) = Suc (requests ops)" "requests (Success # ops) = requests ops"
  "requests (Failure now # ops) = requests ops" "requests (Reset # ops) = requests ops"
  by (simp_all add: requests_def)

lemma half_open_admissions:
  "half_open_throughout cb ops \<Longrightarrow>
   admissions (snd (run breaker_step cb ops)) =
     min (requests ops) (unat (half_open_max_requests (cb_config cb)) - unat (half_open_requests cb))"
proof (induction ops arbitrary: cb)
  case (Cons e ops)
  let ?cb = "fst (breaker_step cb e)"
  have half: "cb_state cb = HalfOpen" "cb_state ?cb = HalfOpen" using Cons.prems by (cases ops; simp)+
  have cfg: "cb_config ?cb = cb_config cb" by (rule breaker_config.step_frame)
  have IH: "admissions (snd (run breaker_step ?cb ops)) =
      min (requests ops) (unat (half_open_max_requests (cb_config cb)) - unat (half_open_requests ?cb))"
    using Cons.IH [of ?cb] Cons.prems cfg by simp
  show ?case
  proof (cases e)
    case (Allow now)
    show ?thesis
    proof (cases "half_open_requests cb < half_open_max_requests (cb_config cb)")
      case True
      then have "unat (half_open_requests cb + 1) = Suc (unat (half_open_requests cb))"
        "unat (half_open_requests cb) < unat (half_open_max_requests (cb_config cb))"
        by (simp_all add: unat_Suc_word word_less_nat_alt)
      with IH True Allow half show ?thesis by (simp add: allow_request_def)
    next
      case False
      then have "unat (half_open_max_requests (cb_config cb)) - unat (half_open_requests cb) = 0"
        by (simp add: word_less_nat_alt)
      with IH False Allow half show ?thesis by (simp add: allow_request_def)
    qed
  qed (use IH half in \<open>auto simp: breaker_defs split: if_splits\<close>)
qed simp

text \<open>The states a run visits, and how often consecutive ones differ.\<close>

fun states :: "circuit_breaker \<Rightarrow> breaker_op list \<Rightarrow> circuit_state list" where
  "states cb [] = [cb_state cb]"
| "states cb (e # es) = cb_state cb # states (fst (breaker_step cb e)) es"

fun changes :: "circuit_state list \<Rightarrow> nat" where
  "changes (s # t # ss) = (if s \<noteq> t then 1 else 0) + changes (t # ss)"
| "changes _ = 0"

lemma states_head: "\<exists>ss. states cb es = cb_state cb # ss"
  by (cases es) simp_all

lemma transition_count_step:
  "transition_count (fst (breaker_step cb e)) =
     transition_count cb + (if cb_state cb \<noteq> cb_state (fst (breaker_step cb e)) then 1 else 0)"
  by (cases e) (auto simp: breaker_defs split: circuit_state.split)

lemma run_transition_count:
  "transition_count (fst (run breaker_step cb es)) = transition_count cb + of_nat (changes (states cb es))"
proof (induction es arbitrary: cb)
  case (Cons e es)
  obtain ss where "states (fst (breaker_step cb e)) es = cb_state (fst (breaker_step cb e)) # ss"
    using states_head by blast
  then show ?case by (simp add: Cons.IH transition_count_step del: breaker_step.simps)
qed simp

lemma round64_rel_upper:
  "0 \<le> q \<Longrightarrow> r \<le> round64 q \<Longrightarrow> r \<le> q + q * pow2 (-53) + pow2 (-1075)"
  using round64_rel_err [of q] by linarith

subsection \<open>Runs of the automaton\<close>

lemma arun_requests:
  "run (abreaker_step cfg) (AClosed c) (replicate n (Allow t)) = (AClosed c, replicate n (Some True))"
  by (induction n) (simp_all add: run_Cons)

lemma arun_failures:
  "c + Suc n = max (unat (failure_threshold cfg)) 1 \<Longrightarrow>
   run (abreaker_step cfg) (AClosed c) (replicate (Suc n) (Failure t)) = (AOpen t, replicate (Suc n) None)"
  by (induction n arbitrary: c) (auto simp: run_Cons split: if_splits)

lemma arun_successes:
  "s + Suc n = max (unat (half_open_max_requests cfg)) 1 \<Longrightarrow>
   run (abreaker_step cfg) (AHalf a s) (replicate (Suc n) Success) = (AClosed 0, replicate (Suc n) None)"
  by (induction n arbitrary: s) (auto simp: run_Cons split: if_splits)

lemma abs_breaker_state:
  "abs_breaker cb = AOpen t \<Longrightarrow> cb_state cb = Open" "abs_breaker cb = AHalf a s \<Longrightarrow> cb_state cb = HalfOpen"
  "abs_breaker cb = AClosed n \<Longrightarrow> cb_state cb = Closed"
  by (auto simp: abs_breaker_def split: circuit_state.splits)

lemma exhausted_half_open:
  "cb_state cb = HalfOpen \<Longrightarrow> half_open_max_requests (cb_config cb) \<le> half_open_requests cb \<Longrightarrow>
   run breaker_step cb (map Allow nows) = (cb, map (\<lambda>_. Some False) nows)"
  by (induction nows) (simp_all add: run_Cons allow_request_def not_less [symmetric])

subsection \<open>Properties\<close>

text \<open>C8. The breaker refines its automaton: over any sequence of requests, reported successes,
  reported failures and resets it answers as the automaton does and ends in the corresponding
  state. In particular counters left over from an earlier state are never read, and none of
  the 32-bit counters the answers depend on wraps.\<close>

theorem breaker_refines_automaton:
  "run (abreaker_step cfg) (AClosed 0) ops =
     (abs_breaker (fst (run breaker_step (breaker_new cfg) ops)),
      snd (run breaker_step (breaker_new cfg) ops))"
  using breaker_sim.run_sim [OF breaker_new_ok, of cfg ops]
  by (simp add: abs_breaker_def breaker_new_def)

text \<open>A fresh breaker opens with the failure that makes the consecutive failures reach the
  threshold, and not before (a threshold of 0 acts as 1).\<close>

theorem opens_at_threshold:
  "cb_state (fst (run breaker_step (breaker_new cfg) (replicate n (Failure now)))) =
     (if n < max (unat (failure_threshold cfg)) 1 then Closed else Open)"
proof -
  have "cb_state (breaker_new cfg) = Closed" "consecutive_failures (breaker_new cfg) = 0"
    by (simp_all add: breaker_new_def)
  with failures_while_closed [OF breaker_new_ok, of cfg n now] show ?thesis by auto
qed

text \<open>C24. The recovery timeout in binary64 arithmetic: an open breaker admits the first request
  whose true distance from the opening reaches the timeout, and one it admits is at most half
  a unit in the last place early.\<close>

theorem recovery_timing:
  assumes "cb_state cb = Open" and "opened_at cb = Fin s t"
    and "recovery_timeout_s (cb_config cb) = Fin s' r" and "f64_ok (Fin s' r)" and "t \<le> t'"
  shows "(r \<le> t' - t \<longrightarrow> snd (allow_request cb (Fin s'' t'))) \<and>
         (snd (allow_request cb (Fin s'' t')) \<longrightarrow>
            r \<le> (t' - t) + (t' - t) * pow2 (-53) + pow2 (-1075))"
proof -
  let ?d = "t' - t"
  have d: "0 \<le> ?d" using assms(5) by simp
  have r: "on_grid r" "\<bar>r\<bar> < f64_limit" using assms(4) by simp_all
  have allow: "snd (allow_request cb (Fin s'' t')) \<longleftrightarrow> fle (Fin s' r) (round_fp (s'' \<and> \<not> s) ?d)"
    using assms(1-3) by (simp add: allow_request_def fsub_def del: fle_zero_sign)
  have "r \<le> round64 ?d" if "fle (Fin s' r) (round_fp (s'' \<and> \<not> s) ?d)"
    using that r(2) round64_nonneg [OF d] by (auto simp: round_fp_def Let_def split: if_splits)
  with round64_rel_upper [OF d, of r] round_fp_ge [OF _ r, of ?d s'] allow show ?thesis by blast
qed

lemma recovery_timing_witness:
  "snd (allow_request
     (fst (run breaker_step (breaker_new \<lparr>failure_threshold = 1, recovery_timeout_s = Fin False 30,
        half_open_max_requests = 3\<rparr>) [Failure (Fin False 5)])) (Fin False 35))"
proof -
  let ?cb = "fst (run breaker_step (breaker_new \<lparr>failure_threshold = 1,
      recovery_timeout_s = Fin False 30, half_open_max_requests = 3\<rparr>) [Failure (Fin False 5)])"
  have "cb_state ?cb = Open" "opened_at ?cb = Fin False 5"
      "recovery_timeout_s (cb_config ?cb) = Fin False 30"
    by (simp_all add: breaker_new_def breaker_defs)
  moreover have "f64_ok (Fin False 30)"
    using int_below_2_53 [of 30] by simp
  ultimately show ?thesis using recovery_timing [of ?cb False 5 False 30 35 False] by simp
qed

text \<open>C25. The half-open quota: from the request that makes an open breaker half-open, and as long as it
  stays half-open, exactly the first requests are admitted, as many as the configured maximum (or one, if
  that is 0), whatever outcomes are reported in between.\<close>

theorem half_open_quota:
  assumes "cb_state cb = Open" and "half_open_throughout (fst (breaker_step cb (Allow now))) ops"
  shows "admissions (snd (run breaker_step cb (Allow now # ops))) =
     min (Suc (requests ops)) (max (unat (half_open_max_requests (cb_config cb))) 1)"
proof -
  let ?cb = "fst (breaker_step cb (Allow now))"
  have half: "cb_state ?cb = HalfOpen" using assms(2) by (cases ops) simp_all
  then have first: "snd (breaker_step cb (Allow now)) = Some True" "half_open_requests ?cb = 1"
    using assms(1) by (auto simp: breaker_defs split: if_splits)
  have "cb_config ?cb = cb_config cb" by (rule breaker_config.step_frame)
  then have "admissions (snd (run breaker_step ?cb ops)) =
      min (requests ops) (unat (half_open_max_requests (cb_config cb)) - 1)"
    using half_open_admissions [OF assms(2)] first(2) by simp
  with first(1) show ?thesis by (simp del: breaker_step.simps)
qed

lemma half_open_quota_witness:
  "let cb = fst (run breaker_step (breaker_new \<lparr>failure_threshold = 1, recovery_timeout_s = Fin False 5,
         half_open_max_requests = 2\<rparr>) [Failure (Fin False 0)])
   in admissions (snd (run breaker_step cb
        [Allow (Fin False 6), Success, Allow (Fin False 6), Allow (Fin False 7)])) = 2"
proof -
  let ?cb = "fst (run breaker_step (breaker_new \<lparr>failure_threshold = 1, recovery_timeout_s = Fin False 5,
         half_open_max_requests = 2\<rparr>) [Failure (Fin False 0)])"
  have "cb_state ?cb = Open" "half_open_max_requests (cb_config ?cb) = 2"
    "half_open_throughout (fst (breaker_step ?cb (Allow (Fin False 6)))) [Success, Allow (Fin False 6), Allow (Fin False 7)]"
    by (simp_all add: breaker_new_def breaker_defs float_eval word_le_nat_alt)
  with half_open_quota [OF this(1,3)] show ?thesis by (simp add: Let_def del: run_snd_Cons run_fst_Cons)
qed

text \<open>C33. Closing does not need the trials to succeed, because outcomes are not tied to requests. For every
  configuration: requests are admitted, as many of them fail as open the breaker, and when the timeout has
  passed one trial is admitted. If the requests from before the opening that are still out, as many as
  the half-open maximum, now report success, the breaker closes, although the only trial has no outcome.\<close>

theorem stale_successes_close:
  assumes "fle (recovery_timeout_s cfg) (fsub t2 t1)"
  shows "let m = max (unat (half_open_max_requests cfg)) 1; f = max (unat (failure_threshold cfg)) 1;
       opened = run breaker_step (breaker_new cfg) (replicate (m + f) (Allow t0) @ replicate f (Failure t1));
       trial = breaker_step (fst opened) (Allow t2);
       late = run breaker_step (fst trial) (replicate m Success)
     in snd opened = replicate (m + f) (Some True) @ replicate f None \<and> cb_state (fst opened) = Open \<and>
        snd trial = Some True \<and> cb_state (fst trial) = HalfOpen \<and> cb_state (fst late) = Closed"
proof -
  let ?m = "max (unat (half_open_max_requests cfg)) 1" and ?f = "max (unat (failure_threshold cfg)) 1"
  let ?opened = "run breaker_step (breaker_new cfg) (replicate (?m + ?f) (Allow t0) @ replicate ?f (Failure t1))"
  let ?trial = "breaker_step (fst ?opened) (Allow t2)"
  let ?late = "run breaker_step (fst ?trial) (replicate ?m Success)"
  have new: "abs_breaker (breaker_new cfg) = AClosed 0" by (simp add: abs_breaker_def breaker_new_def)
  have f: "?f = Suc (?f - 1)" and m: "?m = Suc (?m - 1)" by simp_all
  have "run (abreaker_step cfg) (AClosed 0) (replicate (?m + ?f) (Allow t0) @ replicate ?f (Failure t1)) =
      (AOpen t1, replicate (?m + ?f) (Some True) @ replicate ?f None)"
    using arun_failures [of 0 "?f - 1" cfg t1] f
    by (simp only: run_append arun_requests fst_conv snd_conv add_0)
  then have opened: "abs_breaker (fst ?opened) = AOpen t1"
    "snd ?opened = replicate (?m + ?f) (Some True) @ replicate ?f None"
    using breaker_sim.run_sim [OF breaker_new_ok, of cfg] by (simp_all only: new prod.inject)
  have ok: "breaker_ok cfg (fst ?opened)" by (rule breaker.run_inv) (rule breaker_new_ok)
  have "abreaker_step cfg (AOpen t1) (Allow t2) = (AHalf 1 0, Some True)" using assms by simp
  then have trial: "abs_breaker (fst ?trial) = AHalf 1 0" "snd ?trial = Some True"
    using breaker_sim [OF ok, of "Allow t2"] opened(1) by (simp_all only: prod.inject)
  have ok': "breaker_ok cfg (fst ?trial)" using ok by (rule breaker_step_ok)
  have "abs_breaker (fst ?late) = AClosed 0"
    using breaker_sim.run_sim [OF ok', of "replicate ?m Success"] arun_successes [of 0 "?m - 1" cfg 1] m
    by (simp only: trial(1) prod.inject add_0)
  then show ?thesis
    using opened trial abs_breaker_state unfolding Let_def by blast
qed

lemma stale_successes_close_witness:
  "let cfg = \<lparr>failure_threshold = 1, recovery_timeout_s = Fin False 30, half_open_max_requests = 3\<rparr>;
       opened = run breaker_step (breaker_new cfg) (replicate 4 (Allow (Fin False 0)) @ replicate 1 (Failure (Fin False 0)));
       trial = breaker_step (fst opened) (Allow (Fin False 30))
   in cb_state (fst trial) = HalfOpen \<and> cb_state (fst (run breaker_step (fst trial) (replicate 3 Success))) = Closed"
proof -
  let ?cfg = "\<lparr>failure_threshold = 1, recovery_timeout_s = Fin False 30, half_open_max_requests = 3\<rparr>"
  have counts: "max (unat (3 :: u32)) 1 = 3" "max (unat (1 :: u32)) 1 = 1" "3 + 1 = (4 :: nat)" by simp_all
  have "fle (recovery_timeout_s ?cfg) (fsub (Fin False 30) (Fin False 0))" by (simp add: float_eval)
  from stale_successes_close [OF this, of "Fin False 0"] show ?thesis
    by (simp only: Let_def circuit_breaker_config.select_convs counts simp_thms)
qed

text \<open>C34. No timeout leaves the half-open state: once its quota is used up, requests are rejected
  at every later time and change nothing, until an outcome is reported or the breaker is reset.\<close>

theorem half_open_has_no_timeout:
  assumes "cb_state cb = HalfOpen"
    and "half_open_max_requests (cb_config cb) \<le> half_open_requests cb"
  shows "run breaker_step cb (map Allow nows) = (cb, map (\<lambda>_. Some False) nows)"
  using assms by (rule exhausted_half_open)

lemma half_open_has_no_timeout_witness:
  "snd (run breaker_step
     (fst (run breaker_step
       (breaker_new \<lparr>failure_threshold = 1, recovery_timeout_s = Fin False 5, half_open_max_requests = 1\<rparr>)
       [Failure (Fin False 0), Allow (Fin False 6)]))
     (map Allow [Fin False 7, Fin False 1000000])) = [Some False, Some False]"
  by (subst half_open_has_no_timeout) (simp_all add: breaker_new_def breaker_defs float_eval)

text \<open>The transition counter is the number of state changes of the run, modulo \<open>2 ^ 64\<close>.\<close>

theorem transition_count_changes:
  "transition_count (fst (run breaker_step (breaker_new cfg) ops)) =
     of_nat (changes (states (breaker_new cfg) ops))"
  using run_transition_count [of "breaker_new cfg" ops] by (simp add: breaker_new_def)

end
