(* ===== verification/Backpressure.thy ===== *)
theory Backpressure
  imports Rust_Float
begin

text \<open>
  \<^verbatim>\<open>src/backpressure.rs\<close>: the watermark controller. \<open>evaluate\<close> compares the load ratio, a binary64
  quotient, with the two watermarks; the refinement below shows that for every configuration
  this is an integer hysteresis with two fixed in-flight thresholds, and gives them for the
  default configuration.
\<close>

datatype flow_action = FlowAllow | Throttle | Reject

record backpressure_config =
  max_inflight :: u64
  high_watermark :: f64
  low_watermark :: f64
  max_queue_len :: u64

definition backpressure_config_default :: backpressure_config where
  "backpressure_config_default =
     \<lparr>max_inflight = 10000, high_watermark = flit (8 / 10), low_watermark = flit (5 / 10),
      max_queue_len = 50000\<rparr>"

record backpressure_controller =
  bp_config :: backpressure_config
  inflight :: u64
  queue_len :: u64
  throttling :: bool
  rejected_count :: u64
  throttled_count :: u64

definition controller_new :: "backpressure_config \<Rightarrow> backpressure_controller" where
  "controller_new cfg =
     \<lparr>bp_config = cfg, inflight = 0, queue_len = 0, throttling = False, rejected_count = 0,
      throttled_count = 0\<rparr>"

definition controller_with_defaults :: backpressure_controller where
  "controller_with_defaults =
     controller_new \<lparr>max_inflight = 10000, high_watermark = flit (8 / 10),
       low_watermark = flit (5 / 10), max_queue_len = 50000\<rparr>"

definition evaluate :: "backpressure_controller \<Rightarrow> backpressure_controller \<times> flow_action" where
  "evaluate c =
     (if max_queue_len (bp_config c) \<le> queue_len c
      then (c\<lparr>rejected_count := rejected_count c + 1\<rparr>, Reject)
      else if max_inflight (bp_config c) \<le> inflight c
      then (c\<lparr>rejected_count := rejected_count c + 1\<rparr>, Reject)
      else
        let ratio = (if 0 < max_inflight (bp_config c)
                     then fdiv (f64_of_u64 (inflight c)) (f64_of_u64 (max_inflight (bp_config c)))
                     else flit 0);
            c' = (if fle (high_watermark (bp_config c)) ratio then c\<lparr>throttling := True\<rparr>
                  else if fle ratio (low_watermark (bp_config c)) then c\<lparr>throttling := False\<rparr>
                  else c)
        in if throttling c' then (c'\<lparr>throttled_count := throttled_count c' + 1\<rparr>, Throttle)
           else (c', FlowAllow))"

definition on_request_start :: "backpressure_controller \<Rightarrow> backpressure_controller" where
  "on_request_start c = c\<lparr>inflight := inflight c + 1\<rparr>"

definition on_request_complete :: "backpressure_controller \<Rightarrow> backpressure_controller" where
  "on_request_complete c = c\<lparr>inflight := saturating_sub (inflight c) 1\<rparr>"

definition update_queue_len :: "backpressure_controller \<Rightarrow> u64 \<Rightarrow> backpressure_controller" where
  "update_queue_len c len = c\<lparr>queue_len := len\<rparr>"

definition is_throttling :: "backpressure_controller \<Rightarrow> bool" where
  "is_throttling c = throttling c"

datatype bp_op = Evaluate | Start | Complete | SetQueue u64

fun bp_step :: "backpressure_controller \<Rightarrow> bp_op \<Rightarrow> backpressure_controller \<times> flow_action option" where
  "bp_step c Evaluate = (let (c', a) = evaluate c in (c', Some a))"
| "bp_step c Start = (on_request_start c, None)"
| "bp_step c Complete = (on_request_complete c, None)"
| "bp_step c (SetQueue n) = (update_queue_len c n, None)"

lemmas bp_defs = evaluate_def on_request_start_def on_request_complete_def update_queue_len_def
  Let_def

interpretation bp_config: framed bp_step bp_config
proof unfold_locales
  show "bp_config (fst (bp_step s e)) = bp_config s" for s e
    by (cases e) (simp_all add: bp_defs)
qed

interpretation rejected: counter bp_step rejected_count "\<lambda>e r. r = Some Reject"
proof unfold_locales
  show "rejected_count (fst (bp_step s e)) =
      (if snd (bp_step s e) = Some Reject then rejected_count s + 1 else rejected_count s)" for s e
    by (cases e) (simp_all add: bp_defs)
qed

interpretation throttled: counter bp_step throttled_count "\<lambda>e r. r = Some Throttle"
proof unfold_locales
  show "throttled_count (fst (bp_step s e)) =
      (if snd (bp_step s e) = Some Throttle then throttled_count s + 1 else throttled_count s)" for s e
    by (cases e) (simp_all add: bp_defs)
qed

subsection \<open>The load ratio\<close>

definition load :: "backpressure_config \<Rightarrow> nat \<Rightarrow> fp" where
  "load cfg i = fdiv (f64_of_u64 (of_nat i)) (f64_of_u64 (max_inflight cfg))"

lemma f64_of_u64_pos: "0 < w \<Longrightarrow> \<exists>q. f64_of_u64 w = Fin False q \<and> 0 < q"
proof -
  assume "0 < w"
  then have "1 \<le> w" by (simp add: word_le_nat_alt word_less_nat_alt)
  then have "fle (f64_of_u64 1) (f64_of_u64 w)" by (rule f64_of_u64_mono)
  moreover have "f64_of_u64 1 = Fin False 1" by (simp add: f64_of_u64_def round_fp_numeral)
  ultimately show ?thesis using f64_of_u64_bound [of w] by auto
qed

lemma load_mono:
  assumes "0 < max_inflight cfg" and "i \<le> j" and "j < 2 ^ 64"
  shows "fle (load cfg i) (load cfg j)"
proof -
  obtain d where d: "f64_of_u64 (max_inflight cfg) = Fin False d" "0 < d"
    using f64_of_u64_pos [OF assms(1)] by blast
  have "(of_nat i :: u64) \<le> of_nat j"
    using assms(2,3) by (simp add: word_le_nat_alt word_of_nat_unat_small)
  then have "fle (f64_of_u64 (of_nat i)) (f64_of_u64 (of_nat j))" by (rule f64_of_u64_mono)
  then show ?thesis
    using d f64_of_u64_bound [of "of_nat i"] f64_of_u64_bound [of "of_nat j"]
    by (auto simp: load_def simp del: fdiv.simps intro!: fdiv_mono_num)
qed

text \<open>A monotone test on the naturals below a bound is a comparison with a threshold.\<close>

lemma upward_threshold:
  fixes P :: "nat \<Rightarrow> bool"
  assumes "\<And>i j. i \<le> j \<Longrightarrow> j < n \<Longrightarrow> P i \<Longrightarrow> P j"
  shows "\<exists>t. \<forall>i<n. P i \<longleftrightarrow> t \<le> i"
proof (cases "\<exists>i<n. P i")
  case True
  then obtain i where i: "P i" "i < n" by blast
  let ?t = "LEAST i. P i"
  have "P ?t" using i(1) by (rule LeastI)
  then have "\<forall>i<n. P i \<longleftrightarrow> ?t \<le> i" using assms by (auto intro: Least_le)
  then show ?thesis ..
next
  case False
  then have "\<forall>i<n. P i \<longleftrightarrow> n \<le> i" by auto
  then show ?thesis ..
qed

lemma downward_threshold:
  fixes P :: "nat \<Rightarrow> bool"
  assumes "\<And>i j. i \<le> j \<Longrightarrow> j < n \<Longrightarrow> P j \<Longrightarrow> P i"
  shows "\<exists>t. \<forall>i<n. P i \<longleftrightarrow> i < t"
proof -
  have "\<exists>t. \<forall>i<n. \<not> P i \<longleftrightarrow> t \<le> i"
    using assms by (intro upward_threshold) blast
  then show ?thesis by (metis not_le)
qed

text \<open>\<open>starts\<close> and \<open>stops\<close> are the thresholds that the two watermarks amount to.\<close>

definition thresholds :: "backpressure_config \<Rightarrow> nat \<Rightarrow> nat \<Rightarrow> bool" where
  "thresholds cfg starts stops \<longleftrightarrow>
     (\<forall>i < unat (max_inflight cfg).
        (fle (high_watermark cfg) (load cfg i) \<longleftrightarrow> starts \<le> i) \<and>
        (fle (load cfg i) (low_watermark cfg) \<longleftrightarrow> i < stops))"

lemma thresholds_exist: "\<exists>starts stops. thresholds cfg starts stops"
proof -
  let ?n = "unat (max_inflight cfg)"
  have mono: "fle (load cfg i) (load cfg j)" if "i \<le> j" "j < ?n" for i j
  proof (rule load_mono)
    show "0 < max_inflight cfg" using that(2) by (simp add: word_less_nat_alt)
    show "j < 2 ^ 64" using that(2) unat_u64_less [of "max_inflight cfg"] by linarith
  qed fact
  obtain starts where "\<forall>i<?n. fle (high_watermark cfg) (load cfg i) \<longleftrightarrow> starts \<le> i"
    using upward_threshold [of ?n "\<lambda>i. fle (high_watermark cfg) (load cfg i)"] mono fle_trans
    by blast
  moreover obtain stops where "\<forall>i<?n. fle (load cfg i) (low_watermark cfg) \<longleftrightarrow> i < stops"
    using downward_threshold [of ?n "\<lambda>i. fle (load cfg i) (low_watermark cfg)"] mono fle_trans
    by blast
  ultimately show ?thesis by (auto simp: thresholds_def)
qed

subsection \<open>The integer hysteresis the controller implements\<close>

fun hysteresis ::
  "nat \<Rightarrow> nat \<Rightarrow> nat \<Rightarrow> nat \<Rightarrow> nat \<times> nat \<times> bool \<Rightarrow> bp_op \<Rightarrow> (nat \<times> nat \<times> bool) \<times> flow_action option"
where
  "hysteresis mi mq starts stops (i, q, t) Evaluate =
     (if mq \<le> q \<or> mi \<le> i then ((i, q, t), Some Reject)
      else let t' = (starts \<le> i \<or> t \<and> \<not> i < stops)
           in ((i, q, t'), Some (if t' then Throttle else FlowAllow)))"
| "hysteresis mi mq starts stops (i, q, t) Start = (((i + 1) mod 2 ^ 64, q, t), None)"
| "hysteresis mi mq starts stops (i, q, t) Complete = ((i - 1, q, t), None)"
| "hysteresis mi mq starts stops (i, q, t) (SetQueue n) = ((i, unat n, t), None)"

definition abs_bp :: "backpressure_controller \<Rightarrow> nat \<times> nat \<times> bool" where
  "abs_bp c = (unat (inflight c), unat (queue_len c), throttling c)"

lemma bp_sim:
  assumes "bp_config c = cfg" and "thresholds cfg starts stops"
  shows "hysteresis (unat (max_inflight cfg)) (unat (max_queue_len cfg)) starts stops (abs_bp c) e =
     (abs_bp (fst (bp_step c e)), snd (bp_step c e))"
proof (cases e)
  case Evaluate
  show ?thesis
  proof (cases "max_queue_len cfg \<le> queue_len c \<or> max_inflight cfg \<le> inflight c")
    case True
    with Evaluate assms(1) show ?thesis by (auto simp: evaluate_def abs_bp_def word_le_nat_alt)
  next
    case False
    then have i: "unat (inflight c) < unat (max_inflight cfg)" "0 < max_inflight cfg"
      and q: "\<not> unat (max_queue_len cfg) \<le> unat (queue_len c)"
      by (simp_all add: word_le_nat_alt word_less_nat_alt)
    have "load cfg (unat (inflight c)) =
        fdiv (f64_of_u64 (inflight c)) (f64_of_u64 (max_inflight cfg))"
      by (simp add: load_def)
    with i(1) assms(2) have
      "fle (high_watermark cfg) (fdiv (f64_of_u64 (inflight c)) (f64_of_u64 (max_inflight cfg))) \<longleftrightarrow>
         starts \<le> unat (inflight c)"
      "fle (fdiv (f64_of_u64 (inflight c)) (f64_of_u64 (max_inflight cfg))) (low_watermark cfg) \<longleftrightarrow>
         unat (inflight c) < stops"
      unfolding thresholds_def by metis+
    with False i q Evaluate assms(1) show ?thesis
      by (auto simp: evaluate_def abs_bp_def Let_def)
  qed
next
  case Complete
  then show ?thesis by (simp add: on_request_complete_def abs_bp_def unat_saturating_sub)
qed (simp_all add: bp_defs abs_bp_def unat_word_ariths)

interpretation bp_inv: invariant_machine bp_step "\<lambda>c. bp_config c = cfg" for cfg
  by unfold_locales (simp add: bp_config.step_frame)

interpretation bp_sim:
  simulation bp_step "\<lambda>c. bp_config c = cfg \<and> thresholds cfg starts stops"
    "hysteresis (unat (max_inflight cfg)) (unat (max_queue_len cfg)) starts stops" abs_bp
  for cfg starts stops
  by unfold_locales (simp_all add: bp_config.step_frame bp_sim)

lemma controller_new_simps [simp]:
  "bp_config (controller_new cfg) = cfg" "abs_bp (controller_new cfg) = (0, 0, False)"
  "rejected_count (controller_new cfg) = 0" "throttled_count (controller_new cfg) = 0"
  by (simp_all add: controller_new_def abs_bp_def)

subsection \<open>The default thresholds\<close>

lemma round64_unit_strict:
  assumes "0 \<le> p" and "p + pow2 (-52) < q" and "q \<le> 1"
  shows "round64 p < round64 q"
proof -
  have pos: "0 < pow2 (-52)" by simp
  have "\<bar>round64 p - p\<bar> \<le> pow2 (1 - 54)" "\<bar>round64 q - q\<bar> \<le> pow2 (1 - 54)"
    by (rule round64_err_below; use assms pos in simp)+
  moreover have "pow2 (-52) = pow2 (1 - 54) + pow2 (1 - 54)" by (simp add: power_int_minus)
  ultimately show ?thesis using assms(2) by (simp only: abs_le_iff) linarith
qed

lemma eight_tenths: "round64 (7999 / 10000) < round64 (8 / 10)"
  by (rule round64_unit_strict) (simp_all add: power_int_minus)
lemma five_tenths: "round64 (5 / 10) < round64 (5001 / 10000)"
  by (rule round64_unit_strict) (simp_all add: power_int_minus)

lemma round_fp_unit: "0 \<le> q \<Longrightarrow> q \<le> 1 \<Longrightarrow> round_fp False q = Fin False (round64 q)"
proof -
  assume q: "0 \<le> q" "q \<le> 1"
  then have "round64 q \<le> 1" using on_grid_int [of 1] by (intro r64.rnd_le) simp_all
  then have "\<bar>round64 q\<bar> < f64_limit"
    using round64_nonneg [OF q(1)] by (intro below_f64_limit) simp
  then show ?thesis using q by (simp add: round_fp_def Let_def)
qed

lemma default_thresholds: "thresholds backpressure_config_default 8000 5001"
proof -
  have load: "load backpressure_config_default i = Fin False (round64 (of_nat i / 10000))"
    if "i < 10000" for i
  proof -
    have "f64_of_u64 (of_nat i) = Fin False (of_nat i)"
      using that f64_of_u64_exact [of "of_nat i"] by (simp add: word_of_nat_unat_small del: of_nat_unat)
    moreover have "f64_of_u64 10000 = Fin False 10000"
      by (simp add: f64_of_u64_def round_fp_numeral)
    ultimately show ?thesis
      using that by (simp add: load_def backpressure_config_default_def round_fp_unit)
  qed
  have mono: "round64 (of_nat i / 10000) \<le> round64 (of_nat j / 10000)" if "i \<le> j" for i j :: nat
    using that by (intro round64_mono) (simp add: divide_right_mono)
  have marks: "high_watermark backpressure_config_default = Fin False (round64 (8 / 10))"
    "low_watermark backpressure_config_default = Fin False (round64 (5 / 10))"
    by (simp_all add: backpressure_config_default_def flit_def round_fp_unit)
  have max_default: "unat (max_inflight backpressure_config_default) = 10000"
    by (simp add: backpressure_config_default_def)
  have "round64 (8 / 10) \<le> round64 (of_nat i / 10000) \<longleftrightarrow> 8000 \<le> i" for i
    using mono [of 8000 i] mono [of i 7999] eight_tenths by (cases "8000 \<le> i") (auto simp: not_le)
  moreover have "round64 (of_nat i / 10000) \<le> round64 (5 / 10) \<longleftrightarrow> i < 5001" for i
    using mono [of i 5000] mono [of 5001 i] five_tenths by (cases "5001 \<le> i") (auto simp: not_le)
  ultimately show ?thesis
    unfolding thresholds_def marks by (simp add: load max_default)
qed

subsection \<open>Clients that ask before they start\<close>

text \<open>A client that starts a request exactly when \<open>evaluate\<close> did not reject it.\<close>

datatype client_op = Request | Done | Report u64

fun client_step :: "backpressure_controller \<Rightarrow> client_op \<Rightarrow> backpressure_controller \<times> flow_action option"
where
  "client_step c Request =
     (let (c', a) = evaluate c in (if a = Reject then c' else on_request_start c', Some a))"
| "client_step c Done = (on_request_complete c, None)"
| "client_step c (Report n) = (update_queue_len c n, None)"

lemma client_step_ok:
  assumes "bp_config c = cfg \<and> inflight c \<le> max_inflight cfg"
  shows "bp_config (fst (client_step c e)) = cfg \<and> inflight (fst (client_step c e)) \<le> max_inflight cfg"
proof (cases e)
  case Request
  with assms show ?thesis by (simp add: bp_defs not_le word_Suc_le)
next
  case Done
  have "unat (saturating_sub (inflight c) 1) \<le> unat (inflight c)" by (simp add: unat_saturating_sub)
  then have "saturating_sub (inflight c) 1 \<le> inflight c" by (simp only: word_le_nat_alt)
  then have "saturating_sub (inflight c) 1 \<le> max_inflight cfg" using assms by (simp only: order_trans)
  with Done assms show ?thesis by (simp add: on_request_complete_def)
qed (use assms in \<open>simp add: update_queue_len_def\<close>)

interpretation client:
  invariant_machine client_step "\<lambda>c. bp_config c = cfg \<and> inflight c \<le> max_inflight cfg" for cfg
  by unfold_locales (rule client_step_ok)

subsection \<open>Properties\<close>

text \<open>C9. For every configuration, whatever its watermarks, the controller is an integer hysteresis:
  there are two in-flight thresholds such that over any sequence of evaluations, starts,
  completions and queue reports it decides as the integer automaton with those thresholds
  does: reject at the queue limit or the in-flight limit, throttle from the first threshold on,
  stop below the second, keep the mode in between.\<close>

theorem controller_is_hysteresis:
  "\<exists>starts stops. \<forall>ops.
     run (hysteresis (unat (max_inflight cfg)) (unat (max_queue_len cfg)) starts stops) (0, 0, False) ops =
       (abs_bp (fst (run bp_step (controller_new cfg) ops)), snd (run bp_step (controller_new cfg) ops))"
proof -
  obtain starts stops where "thresholds cfg starts stops" using thresholds_exist by blast
  then show ?thesis using bp_sim.run_sim [of "controller_new cfg" cfg starts stops] by auto
qed

text \<open>C26. With the default configuration throttling starts at exactly 8000 requests in flight and
  stops at exactly 5000; requests are rejected from 10000 in flight or 50000 queued on.\<close>

theorem default_hysteresis:
  "run (hysteresis 10000 50000 8000 5001) (0, 0, False) ops =
     (abs_bp (fst (run bp_step controller_with_defaults ops)),
      snd (run bp_step controller_with_defaults ops))"
proof -
  have defaults: "controller_with_defaults = controller_new backpressure_config_default"
    by (simp add: controller_with_defaults_def backpressure_config_default_def)
  have "unat (max_inflight backpressure_config_default) = 10000"
      "unat (max_queue_len backpressure_config_default) = 50000"
    by (simp_all add: backpressure_config_default_def)
  then show ?thesis
    using bp_sim.run_sim [of "controller_new backpressure_config_default"
        backpressure_config_default 8000 5001 ops] default_thresholds
    unfolding defaults by simp
qed

text \<open>C27. A client that starts a request only when it was not rejected never has more requests
  in flight than the configured maximum.\<close>

theorem inflight_never_exceeds_limit:
  "inflight (fst (run client_step (controller_new cfg) ops)) \<le> max_inflight cfg"
  using client.run_inv [of "controller_new cfg" cfg ops] by (simp add: controller_new_def)

text \<open>The statistics count the answers: over any run the rejected and the throttled counter
  are the numbers of rejections and of throttled answers given, modulo \<open>2 ^ 64\<close>.\<close>

theorem flow_counters:
  "rejected_count (fst (run bp_step (controller_new cfg) ops)) =
     of_nat (length (filter (\<lambda>r. r = Some Reject) (snd (run bp_step (controller_new cfg) ops)))) \<and>
   throttled_count (fst (run bp_step (controller_new cfg) ops)) =
     of_nat (length (filter (\<lambda>r. r = Some Throttle) (snd (run bp_step (controller_new cfg) ops))))"
proof -
  have "length (filter (\<lambda>(e, r). r = a) (zip es rs)) = length (filter (\<lambda>r. r = a) rs)"
    if "length es = length rs" for a :: "flow_action option" and es :: "bp_op list" and rs
    using that by (induction es rs rule: list_induct2) simp_all
  then show ?thesis
    by (simp add: rejected.run_count throttled.run_count)
qed

end
