(* ===== verification/Container_Bridge.thy ===== *)
theory Container_Bridge
  imports Rust_Bytes Rust_Float
begin

text \<open>
  \<^verbatim>\<open>src/container_bridge.rs\<close>: container ids are handed out by a counter that starts at 1; deploying
  allocates one per replica, scaling up allocates the missing ones and scaling down keeps a
  prefix. The lemmas give the exact ids of every run, the sizes scaling results in, and the
  health classification on binary32 readings, NaN included.
\<close>

record deploy_request =
  image_hash :: bytes
  cpu_limit_us :: u64
  memory_limit :: u64
  replicas :: u32
  region :: u8

datatype health_status = Healthy | Degraded | Unhealthy | UnknownHealth

fun health_repr :: "health_status \<Rightarrow> u8" where
  "health_repr Healthy = 0"
| "health_repr Degraded = 1"
| "health_repr Unhealthy = 2"
| "health_repr UnknownHealth = 3"

record deploy_result =
  container_ids :: "u64 list"
  status :: health_status

record orchestrator =
  next_container_id :: u64
  deployments :: u64
  scale_events :: u64
  health_checks :: u64

definition orchestrator_new :: orchestrator where
  "orchestrator_new =
     \<lparr>next_container_id = 1, deployments = 0, scale_events = 0, health_checks = 0\<rparr>"

text \<open>The loop both operations share: \<open>n\<close> times, push the next id and advance the counter.\<close>

fun push_ids :: "nat \<Rightarrow> orchestrator \<Rightarrow> u64 list \<Rightarrow> orchestrator \<times> u64 list" where
  "push_ids 0 s ids = (s, ids)"
| "push_ids (Suc n) s ids =
     push_ids n (s\<lparr>next_container_id := next_container_id s + 1\<rparr>) (ids @ [next_container_id s])"

definition deploy :: "orchestrator \<Rightarrow> deploy_request \<Rightarrow> orchestrator \<times> deploy_result" where
  "deploy s req =
     (let (s', ids) = push_ids (unat (replicas req)) s []
      in (s'\<lparr>deployments := deployments s' + 1\<rparr>, \<lparr>container_ids = ids, status = Healthy\<rparr>))"

text \<open>\<open>None\<close> is the panic of an out-of-range slice; \<^verbatim>\<open>current_ids.len() as u32\<close> wraps.\<close>

definition scale :: "orchestrator \<Rightarrow> u64 list \<Rightarrow> u32 \<Rightarrow> orchestrator \<times> u64 list option" where
  "scale s current_ids target =
     (let s1 = s\<lparr>scale_events := scale_events s + 1\<rparr>;
          current = (of_nat (length current_ids) :: u32)
      in if current < target
         then (let (s2, ids) = push_ids (unat target - unat current) s1 current_ids in (s2, Some ids))
         else (s1, subslice 0 (unat target) current_ids))"

definition health_check ::
  "orchestrator \<Rightarrow> u64 \<Rightarrow> f32 \<Rightarrow> f32 \<Rightarrow> orchestrator \<times> health_status" where
  "health_check s container_id cpu mem =
     (let s' = s\<lparr>health_checks := health_checks s + 1\<rparr>;
          above = (\<lambda>limit x. flt (Fin False limit) (f32_value x))
      in if above 95 cpu \<or> above 95 mem then (s', Unhealthy)
         else if above 80 cpu \<or> above 80 mem then (s', Degraded)
         else (s', Healthy))"

datatype orch_op = Deploy deploy_request | Scale "u64 list" u32 | Check u64 f32 f32

datatype orch_out = Deployed deploy_result | Scaled "u64 list option" | Checked health_status

fun orch_step :: "orchestrator \<Rightarrow> orch_op \<Rightarrow> orchestrator \<times> orch_out" where
  "orch_step s (Deploy req) = (let (s', r) = deploy s req in (s', Deployed r))"
| "orch_step s (Scale ids n) = (let (s', r) = scale s ids n in (s', Scaled r))"
| "orch_step s (Check c cpu mem) = (let (s', h) = health_check s c cpu mem in (s', Checked h))"

subsection \<open>The ids a run hands out\<close>

text \<open>The ids created by an operation: those beyond the ones the caller passed in.\<close>

fun created :: "orch_op \<Rightarrow> orch_out \<Rightarrow> u64 list" where
  "created _ (Deployed r) = container_ids r"
| "created (Scale ids n) (Scaled (Some ids')) = drop (length ids) ids'"
| "created _ _ = []"

definition consecutive :: "u64 \<Rightarrow> nat \<Rightarrow> u64 list" where
  "consecutive a n = map (\<lambda>i. a + of_nat i) [0..<n]"

lemma length_consecutive [simp]: "length (consecutive a n) = n"
  by (simp add: consecutive_def)

lemma consecutive_Suc: "consecutive a (Suc n) = a # consecutive (a + 1) n"
  by (simp add: consecutive_def upt_rec [of 0 "Suc n"] map_Suc_upt [symmetric] del: upt_Suc)

lemma consecutive_append: "consecutive a m @ consecutive (a + of_nat m) n = consecutive a (m + n)"
proof (induction m arbitrary: a)
  case (Suc m)
  from Suc [of "a + 1"] show ?case by (simp add: consecutive_Suc add.assoc)
qed (simp add: consecutive_def)

lemma push_ids_eq:
  "push_ids n s ids =
     (s\<lparr>next_container_id := next_container_id s + of_nat n\<rparr>, ids @ consecutive (next_container_id s) n)"
proof (induction n arbitrary: s ids)
  case (Suc n)
  then show ?case by (simp add: consecutive_Suc add.assoc)
qed (simp add: consecutive_def)

lemma scale_eq:
  "scale s ids n =
     (let c = length ids mod 2 ^ 32; k = unat n - c
      in (s\<lparr>scale_events := scale_events s + 1, next_container_id := next_container_id s + of_nat k\<rparr>,
          Some (if c < unat n then ids @ consecutive (next_container_id s) k else take (unat n) ids)))"
proof -
  have c: "unat (of_nat (length ids) :: u32) = length ids mod 2 ^ 32"
    by (simp add: unat_of_nat take_bit_eq_mod)
  have "length ids mod 2 ^ 32 \<le> length ids" by (rule mod_less_eq_dividend)
  then have "\<not> unat n \<le> length ids \<longrightarrow> length ids mod 2 ^ 32 < unat n" by linarith
  then show ?thesis
    by (simp add: scale_def push_ids_eq word_less_nat_alt c subslice_def Let_def)
qed

lemma orch_step_ids:
  "next_container_id (fst (orch_step s e)) =
     next_container_id s + of_nat (length (created e (snd (orch_step s e)))) \<and>
   created e (snd (orch_step s e)) =
     consecutive (next_container_id s) (length (created e (snd (orch_step s e))))"
proof (cases e)
  case (Deploy req)
  then show ?thesis by (simp add: deploy_def push_ids_eq)
next
  case (Scale ids n)
  then show ?thesis by (simp add: scale_eq Let_def consecutive_def)
next
  case (Check c cpu mem)
  then show ?thesis by (simp add: health_check_def consecutive_def Let_def)
qed

interpretation ids: tally orch_step next_container_id "\<lambda>e r. length (created e r)"
  by unfold_locales (use orch_step_ids in blast)

interpretation deployments: counter orch_step deployments "\<lambda>e r. \<exists>req. e = Deploy req"
proof unfold_locales
  show "deployments (fst (orch_step s e)) =
      (if \<exists>req. e = Deploy req then deployments s + 1 else deployments s)" for s e
    by (cases e) (simp_all add: deploy_def push_ids_eq scale_eq health_check_def Let_def)
qed

lemma run_created:
  "concat (map2 created es (snd (run orch_step s es))) =
     consecutive (next_container_id s) (length (concat (map2 created es (snd (run orch_step s es)))))"
proof (induction es arbitrary: s)
  case (Cons e es)
  let ?r = "snd (orch_step s e)" and ?s = "fst (orch_step s e)"
  from Cons [of ?s] orch_step_ids [of s e] show ?case
    by (simp del: orch_step.simps) (metis consecutive_append)
qed (simp add: consecutive_def)

lemma len64: "LENGTH(64) = 64"
  by simp

lemma distinct_consecutive: "n \<le> 2 ^ 64 \<Longrightarrow> distinct (consecutive a n)"
proof -
  assume n: "n \<le> 2 ^ 64"
  have "i = j" if "i < n" "j < n" and eq: "(of_nat i :: u64) = of_nat j" for i j
  proof -
    have "i < 2 ^ 64" "j < 2 ^ 64" using that(1,2) n by linarith+
    then have "unat (of_nat i :: u64) = i" "unat (of_nat j :: u64) = j"
      by (simp_all only: word_of_nat_unat_small len64)
    with eq show ?thesis by metis
  qed
  then show ?thesis by (auto simp: consecutive_def distinct_map inj_on_def)
qed

subsection \<open>Properties\<close>

text \<open>C30. The ids created by any sequence of deployments, scalings and health checks are, in order,
  1, 2, 3, ... : no id is skipped and, up to \<open>2 ^ 64\<close> of them, none is handed out twice, no
  matter which ids the callers pass to \<open>scale\<close>.\<close>

theorem created_ids_consecutive:
  "let ids = concat (map2 created ops (snd (run orch_step orchestrator_new ops)))
   in ids = consecutive 1 (length ids) \<and> (2 ^ 64 < length ids \<or> distinct ids) \<and>
      next_container_id (fst (run orch_step orchestrator_new ops)) = 1 + of_nat (length ids)"
proof -
  define ids where "ids = concat (map2 created ops (snd (run orch_step orchestrator_new ops)))"
  have start: "next_container_id orchestrator_new = 1" by (simp add: orchestrator_new_def)
  have eq: "ids = consecutive 1 (length ids)"
    using run_created [of ops orchestrator_new] by (simp add: ids_def start)
  moreover have "2 ^ 64 < length ids \<or> distinct ids"
    using distinct_consecutive [of "length ids" 1] eq by (metis not_le)
  moreover have "next_container_id (fst (run orch_step orchestrator_new ops)) = 1 + of_nat (length ids)"
    using ids.run_tally [of orchestrator_new ops]
    by (simp add: ids_def start length_concat comp_def split_def)
  ultimately show ?thesis unfolding ids_def Let_def by blast
qed

text \<open>Scaling never panics. It keeps the given ids, dropping the last ones or appending fresh
  ones, and the result has exactly the target size when fewer than \<open>2 ^ 32\<close> ids are given.\<close>

theorem scale_exact:
  "\<exists>ids'. snd (scale s ids n) = Some ids' \<and>
     take (length ids) ids' = take (length ids') ids \<and>
     (length ids < 2 ^ 32 \<longrightarrow> length ids' = unat n)"
proof -
  let ?c = "length ids mod 2 ^ 32"
  have "?c \<le> length ids" by (rule mod_less_eq_dividend)
  moreover have "?c = length ids" if "length ids < 2 ^ 32" using that by (rule mod_less)
  ultimately show ?thesis unfolding scale_eq Let_def by auto
qed

lemma scale_exact_witness: "length (the (snd (scale orchestrator_new [7, 9] 5))) = 5"
proof -
  have "length [7 :: u64, 9] < 2 ^ 32" by simp
  with scale_exact [of orchestrator_new "[7, 9]" 5] show ?thesis by auto
qed

text \<open>The health classification on binary32 readings: unhealthy above 95, degraded above 80,
  healthy otherwise. A NaN reading never exceeds a limit, so two of them report a healthy
  container, and the status \<open>Unknown\<close> is never given.\<close>

theorem health_classification:
  "snd (health_check s c cpu mem) =
     (let x = fmax (f32_value cpu) (f32_value mem)
      in if flt (Fin False 95) x then Unhealthy
         else if flt (Fin False 80) x then Degraded else Healthy)"
proof -
  have "flt (Fin False l) (fmax a b) \<longleftrightarrow> flt (Fin False l) a \<or> flt (Fin False l) b" for l a b
    by (cases a; cases b) (auto simp: fmax_def)
  then show ?thesis by (simp add: health_check_def Let_def)
qed

end
