(* ===== verification/Telemetry.thy ===== *)
theory Telemetry
  imports Rust_Float
begin

text \<open>
  \<^verbatim>\<open>src/telemetry.rs\<close>: packet counters and three sketches. The sketches belong to the crate
  \<^verbatim>\<open>alice_analytics\<close>, whose code is not part of the repository: their operations are the
  fields of the parameter \<open>sk\<close>. The lemmas say what the counters count, that the derived
  ratios are the correctly rounded quotients, and what is fed to each sketch.
\<close>

record ('dd, 'hll, 'cms, 'h) sketches =
  dd_new :: "f64 \<Rightarrow> 'dd"
  dd_insert :: "'dd \<Rightarrow> f64 \<Rightarrow> 'dd"
  dd_quantile :: "'dd \<Rightarrow> f64 \<Rightarrow> f64"
  hll_new :: 'hll
  hll_insert_hash :: "'hll \<Rightarrow> 'h \<Rightarrow> 'hll"
  hll_cardinality :: "'hll \<Rightarrow> f64"
  cms_new :: 'cms
  cms_insert_hash :: "'cms \<Rightarrow> 'h \<Rightarrow> u64 \<Rightarrow> 'cms"
  cms_estimate_hash :: "'cms \<Rightarrow> 'h \<Rightarrow> u64"
  hash_u64 :: "u64 \<Rightarrow> 'h"

record ('dd, 'hll, 'cms) gateway_telemetry =
  total_packets :: u64
  keyframe_count :: u64
  delta_count :: u64
  total_bytes :: u64
  latency_sketch :: 'dd
  unique_devices :: 'hll
  device_frequency :: 'cms

definition telemetry_new ::
  "('dd, 'hll, 'cms, 'h) sketches \<Rightarrow> ('dd, 'hll, 'cms) gateway_telemetry" where
  "telemetry_new sk =
     \<lparr>total_packets = 0, keyframe_count = 0, delta_count = 0, total_bytes = 0,
      latency_sketch = dd_new sk (flit (1 / 100)), unique_devices = hll_new sk,
      device_frequency = cms_new sk\<rparr>"

text \<open>\<^verbatim>\<open>u64::from(b)\<close> for a Boolean.\<close>

definition u64_of_bool :: "bool \<Rightarrow> u64" where
  "u64_of_bool b = (if b then 1 else 0)"

definition record_packet ::
  "('dd, 'hll, 'cms, 'h) sketches \<Rightarrow> ('dd, 'hll, 'cms) gateway_telemetry
     \<Rightarrow> u64 \<Rightarrow> usize \<Rightarrow> f64 \<Rightarrow> bool \<Rightarrow> ('dd, 'hll, 'cms) gateway_telemetry" where
  "record_packet sk t device_id packet_size latency_ms is_keyframe =
     t\<lparr>total_packets := total_packets t + 1,
       total_bytes := total_bytes t + of_nat packet_size,
       keyframe_count := keyframe_count t + u64_of_bool is_keyframe,
       delta_count := delta_count t + u64_of_bool (\<not> is_keyframe),
       latency_sketch := dd_insert sk (latency_sketch t) latency_ms,
       unique_devices := hll_insert_hash sk (unique_devices t) (hash_u64 sk device_id),
       device_frequency := cms_insert_hash sk (device_frequency t) (hash_u64 sk device_id) 1\<rparr>"

definition p50_latency_ms where
  "p50_latency_ms sk t = dd_quantile sk (latency_sketch t) (flit (50 / 100))"

definition p95_latency_ms where
  "p95_latency_ms sk t = dd_quantile sk (latency_sketch t) (flit (95 / 100))"

definition p99_latency_ms where
  "p99_latency_ms sk t = dd_quantile sk (latency_sketch t) (flit (99 / 100))"

definition estimated_unique_devices where
  "estimated_unique_devices sk t = hll_cardinality sk (unique_devices t)"

definition device_packet_estimate where
  "device_packet_estimate sk t device_id =
     cms_estimate_hash sk (device_frequency t) (hash_u64 sk device_id)"

definition avg_packet_size :: "('dd, 'hll, 'cms) gateway_telemetry \<Rightarrow> f64" where
  "avg_packet_size t =
     (if total_packets t = 0 then flit 0
      else fdiv (f64_of_u64 (total_bytes t)) (f64_of_u64 (total_packets t)))"

definition keyframe_ratio :: "('dd, 'hll, 'cms) gateway_telemetry \<Rightarrow> f64" where
  "keyframe_ratio t =
     (if total_packets t = 0 then flit 0
      else fdiv (f64_of_u64 (keyframe_count t)) (f64_of_u64 (total_packets t)))"

record telemetry_summary =
  s_total_packets :: u64
  s_keyframe_count :: u64
  s_delta_count :: u64
  s_total_bytes :: u64
  s_avg_packet_size :: f64
  s_keyframe_ratio :: f64
  s_p50_latency_ms :: f64
  s_p95_latency_ms :: f64
  s_p99_latency_ms :: f64
  s_estimated_unique_devices :: f64

definition telemetry_summary_of ::
  "('dd, 'hll, 'cms, 'h) sketches \<Rightarrow> ('dd, 'hll, 'cms) gateway_telemetry \<Rightarrow> telemetry_summary" where
  "telemetry_summary_of sk t =
     \<lparr>s_total_packets = total_packets t, s_keyframe_count = keyframe_count t,
      s_delta_count = delta_count t, s_total_bytes = total_bytes t,
      s_avg_packet_size = avg_packet_size t, s_keyframe_ratio = keyframe_ratio t,
      s_p50_latency_ms = p50_latency_ms sk t, s_p95_latency_ms = p95_latency_ms sk t,
      s_p99_latency_ms = p99_latency_ms sk t,
      s_estimated_unique_devices = estimated_unique_devices sk t\<rparr>"

subsection \<open>Histories of recorded packets\<close>

record packet_event =
  ev_device :: u64
  ev_size :: usize
  ev_latency :: f64
  ev_keyframe :: bool

fun record_event ::
  "('dd, 'hll, 'cms, 'h) sketches \<Rightarrow> ('dd, 'hll, 'cms) gateway_telemetry \<Rightarrow> packet_event
     \<Rightarrow> ('dd, 'hll, 'cms) gateway_telemetry \<times> unit" where
  "record_event sk t e =
     (record_packet sk t (ev_device e) (ev_size e) (ev_latency e) (ev_keyframe e), ())"

definition recorded ::
  "('dd, 'hll, 'cms, 'h) sketches \<Rightarrow> packet_event list \<Rightarrow> ('dd, 'hll, 'cms) gateway_telemetry" where
  "recorded sk es = fst (run (record_event sk) (telemetry_new sk) es)"

interpretation packets: counter "record_event sk" total_packets "\<lambda>e r. True"
  for sk :: "('dd, 'hll, 'cms, 'h) sketches"
  by unfold_locales (simp add: record_packet_def)

interpretation keyframes: counter "record_event sk" keyframe_count "\<lambda>e r. ev_keyframe e"
  for sk :: "('dd, 'hll, 'cms, 'h) sketches"
  by unfold_locales (simp add: record_packet_def u64_of_bool_def)

interpretation deltas: counter "record_event sk" delta_count "\<lambda>e r. \<not> ev_keyframe e"
  for sk :: "('dd, 'hll, 'cms, 'h) sketches"
  by unfold_locales (simp add: record_packet_def u64_of_bool_def)

interpretation bytes_total: tally "record_event sk" total_bytes "\<lambda>e r. ev_size e"
  for sk :: "('dd, 'hll, 'cms, 'h) sketches"
  by unfold_locales (simp add: record_packet_def)

lemma filter_zip_left:
  "length es = length rs \<Longrightarrow> length (filter (\<lambda>(e, r). P e) (zip es rs)) = length (filter P es)"
  by (induction es rs rule: list_induct2) simp_all

lemma map2_fst: "length es = length rs \<Longrightarrow> map2 (\<lambda>e r. f e) es rs = map f es"
  by (induction es rs rule: list_induct2) simp_all

lemma recorded_counters:
  "total_packets (recorded sk es) = of_nat (length es)"
  "keyframe_count (recorded sk es) = of_nat (length (filter ev_keyframe es))"
  "delta_count (recorded sk es) = of_nat (length (filter (\<lambda>e. \<not> ev_keyframe e) es))"
  "total_bytes (recorded sk es) = of_nat (sum_list (map ev_size es))"
  unfolding recorded_def
  by (simp_all add: packets.run_count keyframes.run_count deltas.run_count bytes_total.run_tally
      filter_zip_left map2_fst telemetry_new_def)

lemma recorded_sketches:
  "latency_sketch (recorded sk es) =
     foldl (dd_insert sk) (dd_new sk (flit (1 / 100))) (map ev_latency es)"
  "unique_devices (recorded sk es) =
     foldl (hll_insert_hash sk) (hll_new sk) (map (hash_u64 sk \<circ> ev_device) es)"
  "device_frequency (recorded sk es) =
     foldl (\<lambda>s h. cms_insert_hash sk s h 1) (cms_new sk) (map (hash_u64 sk \<circ> ev_device) es)"
proof -
  have "latency_sketch (fst (run (record_event sk) t es)) =
        foldl (dd_insert sk) (latency_sketch t) (map ev_latency es)"
    and "unique_devices (fst (run (record_event sk) t es)) =
        foldl (hll_insert_hash sk) (unique_devices t) (map (hash_u64 sk \<circ> ev_device) es)"
    and "device_frequency (fst (run (record_event sk) t es)) =
        foldl (\<lambda>s h. cms_insert_hash sk s h 1) (device_frequency t) (map (hash_u64 sk \<circ> ev_device) es)"
    for t
    by (induction es arbitrary: t) (simp_all add: record_packet_def)
  then show "latency_sketch (recorded sk es) =
     foldl (dd_insert sk) (dd_new sk (flit (1 / 100))) (map ev_latency es)"
    and "unique_devices (recorded sk es) =
     foldl (hll_insert_hash sk) (hll_new sk) (map (hash_u64 sk \<circ> ev_device) es)"
    and "device_frequency (recorded sk es) =
     foldl (\<lambda>s h. cms_insert_hash sk s h 1) (cms_new sk) (map (hash_u64 sk \<circ> ev_device) es)"
    by (simp_all add: recorded_def telemetry_new_def)
qed

subsection \<open>Quotients of counters\<close>

text \<open>While both counters are exactly representable the binary64 quotient is the rounded
  rational quotient.\<close>

lemma fdiv_counts:
  assumes "m \<le> 2 ^ 53" and "n \<le> 2 ^ 53" and "0 < n"
  shows "fdiv (f64_of_u64 (of_nat m)) (f64_of_u64 (of_nat n)) = round_fp False (of_nat m / of_nat n)"
proof -
  have "unat (of_nat k :: u64) = k" if "k \<le> 2 ^ 53" for k
    using that by (intro word_of_nat_unat_small) simp
  then have "f64_of_u64 (of_nat k) = Fin False (of_nat k)" if "k \<le> 2 ^ 53" for k
    using that f64_of_u64_exact [of "of_nat k"] by simp
  with assms show ?thesis by simp
qed

lemma sum_list_bounds:
  fixes xs :: "nat list"
  assumes "\<forall>x\<in>set xs. a \<le> x \<and> x \<le> b"
  shows "a * length xs \<le> sum_list xs \<and> sum_list xs \<le> b * length xs"
  using assms by (induction xs) auto

lemma round_fp_between:
  assumes "of_nat a \<le> q" and "q \<le> of_nat b" and "a \<le> 2 ^ 53" and "b \<le> 2 ^ 53"
  shows "fle (Fin False (of_nat a)) (round_fp s q)" "fle (round_fp s q) (Fin False (of_nat b))"
proof -
  have "on_grid (of_nat k)" "\<bar>of_nat k :: rat\<bar> < f64_limit" if "k \<le> 2 ^ 53" for k :: nat
    using int_below_2_53 [of "int k"] that by simp_all
  with assms show "fle (Fin False (of_nat a)) (round_fp s q)" "fle (round_fp s q) (Fin False (of_nat b))"
    by (auto intro: round_fp_le round_fp_ge simp del: fle_zero_sign)
qed

lemma length_filter_split: "length (filter P xs) + length (filter (\<lambda>x. \<not> P x) xs) = length xs"
  by (induction xs) simp_all

lemma of_nat_u64_zero: "0 < n \<Longrightarrow> n \<le> 2 ^ 53 \<Longrightarrow> (of_nat n :: u64) \<noteq> 0"
proof -
  assume n: "0 < n" "n \<le> 2 ^ 53"
  then have "unat (of_nat n :: u64) = n" by (intro word_of_nat_unat_small) simp
  with n(1) show ?thesis by (metis unsigned_0 less_irrefl)
qed

lemma keyframe_ratio_rounded:
  assumes "es \<noteq> []" and "length es \<le> 2 ^ 53"
  shows "keyframe_ratio (recorded sk es) =
     round_fp False (of_nat (length (filter ev_keyframe es)) / of_nat (length es))"
proof -
  have "length (filter ev_keyframe es) \<le> 2 ^ 53"
    using length_filter_le assms(2) by (rule order_trans)
  with assms show ?thesis
    using of_nat_u64_zero [of "length es"] fdiv_counts [of "length (filter ev_keyframe es)" "length es"]
    by (simp add: keyframe_ratio_def recorded_counters)
qed

lemma avg_packet_size_rounded:
  assumes "es \<noteq> []" and "length es \<le> 2 ^ 53" and "sum_list (map ev_size es) \<le> 2 ^ 53"
  shows "avg_packet_size (recorded sk es) =
     round_fp False (of_nat (sum_list (map ev_size es)) / of_nat (length es))"
  using assms of_nat_u64_zero [of "length es"] fdiv_counts [of "sum_list (map ev_size es)" "length es"]
  by (simp add: avg_packet_size_def recorded_counters)

text \<open>A count-min sketch never forgets an insertion (its counters may saturate).\<close>

definition cms_counts :: "('dd, 'hll, 'cms, 'h) sketches \<Rightarrow> bool" where
  "cms_counts sk \<longleftrightarrow>
     (\<forall>s h h'. min (2 ^ 64 - 1) (unat (cms_estimate_hash sk s h') + (if h = h' then 1 else 0))
        \<le> unat (cms_estimate_hash sk (cms_insert_hash sk s h 1) h'))"

lemma cms_fold_counts:
  assumes "cms_counts sk"
  shows "min (2 ^ 64 - 1) (unat (cms_estimate_hash sk s h) + count_list hs h) \<le>
     unat (cms_estimate_hash sk (foldl (\<lambda>s h. cms_insert_hash sk s h 1) s hs) h)"
proof (induction hs arbitrary: s)
  case Nil
  show ?case by simp
next
  case (Cons x hs)
  have "min (2 ^ 64 - 1) (unat (cms_estimate_hash sk s h) + (if x = h then 1 else 0))
      \<le> unat (cms_estimate_hash sk (cms_insert_hash sk s x 1) h)"
    using assms by (simp only: cms_counts_def)
  with Cons [of "cms_insert_hash sk s x 1"] show ?case by (auto split: if_splits)
qed

lemma count_list_map_ge: "length (filter (\<lambda>e. f e = x) es) \<le> count_list (map (g \<circ> f) es) (g x)"
  by (induction es) auto

text \<open>Sketches that keep everything: an instance of the contract.\<close>

fun fp_value :: "fp \<Rightarrow> rat" where
  "fp_value (Fin s q) = q"
| "fp_value _ = 0"

definition exact_quantile :: "f64 list \<Rightarrow> f64 \<Rightarrow> f64" where
  "exact_quantile s q =
     (if s = [] then flit 0
      else sort_key fp_value s ! min (length s - 1) (nat \<lfloor>fp_value q * of_nat (length s)\<rfloor>))"

definition exact_sketches :: "(f64 list, u64 list, u64 list, u64) sketches" where
  "exact_sketches =
     \<lparr>dd_new = \<lambda>_. [], dd_insert = \<lambda>s x. s @ [x], dd_quantile = exact_quantile,
      hll_new = [], hll_insert_hash = \<lambda>s h. List.insert h s, hll_cardinality = \<lambda>s. flit (of_nat (length s)),
      cms_new = [], cms_insert_hash = \<lambda>s h n. replicate (unat n) h @ s,
      cms_estimate_hash = \<lambda>s h. of_nat (min (2 ^ 64 - 1) (count_list s h)), hash_u64 = \<lambda>d. d\<rparr>"

lemma exact_cms_estimate:
  "unat (cms_estimate_hash exact_sketches s h) = min (2 ^ 64 - 1) (count_list s h)"
proof -
  have "min (2 ^ 64 - 1) (count_list s h) < 2 ^ LENGTH(64)" by simp
  then show ?thesis unfolding exact_sketches_def sketches.select_convs by (rule word_of_nat_unat_small)
qed

lemma exact_cms_counts: "cms_counts exact_sketches"
  unfolding cms_counts_def exact_cms_estimate by (simp add: exact_sketches_def min_le_iff_disj)

subsection \<open>Properties\<close>

text \<open>C29. After any history of recorded packets the counters are, modulo \<open>2 ^ 64\<close>, the numbers of
  packets, of keyframes and of deltas and the sum of the packet sizes. The quantile sketch has received
  every latency, the cardinality and the frequency sketch the hash of every device, once each and in
  order; and every estimate is the answer of its own sketch.\<close>

theorem telemetry_counts:
  "total_packets (recorded sk es) = of_nat (length es) \<and>
   keyframe_count (recorded sk es) = of_nat (length (filter ev_keyframe es)) \<and>
   delta_count (recorded sk es) = of_nat (length (filter (\<lambda>e. \<not> ev_keyframe e) es)) \<and>
   total_bytes (recorded sk es) = of_nat (sum_list (map ev_size es)) \<and>
   (let latencies = foldl (dd_insert sk) (dd_new sk (flit (1 / 100))) (map ev_latency es);
        hashes = map (hash_u64 sk \<circ> ev_device) es
    in p50_latency_ms sk (recorded sk es) = dd_quantile sk latencies (flit (1 / 2)) \<and>
       p95_latency_ms sk (recorded sk es) = dd_quantile sk latencies (flit (95 / 100)) \<and>
       p99_latency_ms sk (recorded sk es) = dd_quantile sk latencies (flit (99 / 100)) \<and>
       estimated_unique_devices sk (recorded sk es) =
         hll_cardinality sk (foldl (hll_insert_hash sk) (hll_new sk) hashes) \<and>
       device_packet_estimate sk (recorded sk es) d =
         cms_estimate_hash sk (foldl (\<lambda>s h. cms_insert_hash sk s h 1) (cms_new sk) hashes) (hash_u64 sk d))"
  by (simp add: recorded_counters recorded_sketches p50_latency_ms_def p95_latency_ms_def p99_latency_ms_def
      estimated_unique_devices_def device_packet_estimate_def Let_def)

text \<open>C28. The derived ratios: up to \<open>2 ^ 53\<close> packets and bytes, the keyframe ratio is the correctly
  rounded quotient of the two counts and lies between 0 and 1, and the average packet size lies
  between the smallest and the largest size recorded.\<close>

theorem telemetry_ratios:
  assumes "es \<noteq> []" and "length es \<le> 2 ^ 53" and "sum_list (map ev_size es) \<le> 2 ^ 53"
    and "\<forall>e\<in>set es. lo \<le> ev_size e \<and> ev_size e \<le> hi" and "hi \<le> 2 ^ 53"
  shows "keyframe_ratio (recorded sk es) =
      round_fp False (of_nat (length (filter ev_keyframe es)) / of_nat (length es)) \<and>
    fle (Fin False 0) (keyframe_ratio (recorded sk es)) \<and>
    fle (keyframe_ratio (recorded sk es)) (Fin False 1) \<and>
    fle (Fin False (of_nat lo)) (avg_packet_size (recorded sk es)) \<and>
    fle (avg_packet_size (recorded sk es)) (Fin False (of_nat hi))"
proof -
  let ?k = "length (filter ev_keyframe es)" and ?n = "length es" and ?b = "sum_list (map ev_size es)"
  have n: "(0 :: rat) < of_nat ?n" using assms(1) by simp
  have ratio: "keyframe_ratio (recorded sk es) = round_fp False (of_nat ?k / of_nat ?n)"
    by (rule keyframe_ratio_rounded) fact+
  have "(0 :: rat) \<le> of_nat ?k / of_nat ?n" "(of_nat ?k / of_nat ?n :: rat) \<le> 1"
    using n by (simp_all add: divide_le_eq)
  with round_fp_between [of 0 "of_nat ?k / of_nat ?n" 1 False] ratio
  have unit: "fle (Fin False 0) (keyframe_ratio (recorded sk es))"
    "fle (keyframe_ratio (recorded sk es)) (Fin False 1)" by simp_all
  have b: "lo * ?n \<le> ?b" "?b \<le> hi * ?n"
    using sum_list_bounds [of "map ev_size es" lo hi] assms(4) by simp_all
  then have "(of_nat lo :: rat) * of_nat ?n \<le> of_nat ?b" "(of_nat ?b :: rat) \<le> of_nat hi * of_nat ?n"
    by (metis of_nat_mult of_nat_le_iff)+
  then have "(of_nat lo :: rat) \<le> of_nat ?b / of_nat ?n" "(of_nat ?b / of_nat ?n :: rat) \<le> of_nat hi"
    using n by (simp_all add: le_divide_eq divide_le_eq)
  moreover have "lo \<le> hi" using assms(1,4) by (cases es) auto
  ultimately have "fle (Fin False (of_nat lo)) (avg_packet_size (recorded sk es))"
    "fle (avg_packet_size (recorded sk es)) (Fin False (of_nat hi))"
    using avg_packet_size_rounded [OF assms(1-3), of sk]
      round_fp_between [of lo "of_nat ?b / of_nat ?n" hi False] assms(5) by simp_all
  with ratio unit show ?thesis by blast
qed

lemma telemetry_ratios_witness:
  "fle (avg_packet_size (recorded exact_sketches
     [\<lparr>ev_device = 1, ev_size = 40, ev_latency = flit 1, ev_keyframe = True\<rparr>,
      \<lparr>ev_device = 2, ev_size = 61, ev_latency = flit 1, ev_keyframe = False\<rparr>])) (Fin False 61)"
  using telemetry_ratios [of "[\<lparr>ev_device = 1, ev_size = 40, ev_latency = flit 1, ev_keyframe = True\<rparr>,
      \<lparr>ev_device = 2, ev_size = 61, ev_latency = flit 1, ev_keyframe = False\<rparr>]" 40 61 exact_sketches]
  by simp

text \<open>With a count-min sketch that never loses an insertion, the packet estimate of a device is
  at least the number of its recorded packets (up to saturation at \<open>2 ^ 64 - 1\<close>).\<close>

theorem device_estimate_never_undercounts:
  assumes "cms_counts sk"
  shows "min (2 ^ 64 - 1) (length (filter (\<lambda>e. ev_device e = d) es)) \<le>
     unat (device_packet_estimate sk (recorded sk es) d)"
proof -
  have "length (filter (\<lambda>e. ev_device e = d) es) \<le>
      count_list (map (hash_u64 sk \<circ> ev_device) es) (hash_u64 sk d)"
    by (rule count_list_map_ge)
  moreover note cms_fold_counts [OF assms, of "cms_new sk" "hash_u64 sk d" "map (hash_u64 sk \<circ> ev_device) es"]
  ultimately show ?thesis by (simp add: device_packet_estimate_def recorded_sketches)
qed

lemma device_estimate_never_undercounts_witness:
  "1 \<le> unat (device_packet_estimate exact_sketches (recorded exact_sketches
     [\<lparr>ev_device = 1, ev_size = 40, ev_latency = flit 1, ev_keyframe = True\<rparr>]) 1)"
  using device_estimate_never_undercounts [OF exact_cms_counts, of 1
      "[\<lparr>ev_device = 1, ev_size = 40, ev_latency = flit 1, ev_keyframe = True\<rparr>]"]
  by simp

end
