(* ===== verification/Decimal.thy ===== *)
theory Decimal
  imports Rust_Float Rust_Bytes
begin

text \<open>
  The text of an \<^verbatim>\<open>f64\<close> under Rust's \<^verbatim>\<open>{}\<close>: the shortest decimal that reads back as the same
  value, the closest one of that length, in positional notation without an exponent. The
  search tries the powers of ten from the largest down to \<open>10 ^ -324\<close>, where a multiple that reads
  back always exists because neighbouring binary64 values are at least \<open>2 ^ -1074\<close> apart. The
  lemmas show that the text reads back and that no coarser decimal does.
\<close>

abbreviation pow10 :: "int \<Rightarrow> rat" where
  "pow10 e \<equiv> 10 powi e"

text \<open>The multiple of \<open>10 ^ e\<close> next to \<open>q\<close> that reads back as \<open>q\<close>, the closer one (the upper one if
  both are equally close).\<close>

definition decimal_at :: "rat \<Rightarrow> int \<Rightarrow> nat option" where
  "decimal_at q e =
     (let f = \<lfloor>q / pow10 e\<rfloor>; c = \<lceil>q / pow10 e\<rceil>;
          down = (round64 (of_int f * pow10 e) = q); up = (round64 (of_int c * pow10 e) = q)
      in if down \<and> (\<not> up \<or> q - of_int f * pow10 e < of_int c * pow10 e - q) then Some (nat f)
         else if up then Some (nat c) else None)"

fun first_decimal :: "rat \<Rightarrow> int list \<Rightarrow> (nat \<times> int) option" where
  "first_decimal q [] = None"
| "first_decimal q (e # es) =
     (case decimal_at q e of Some d \<Rightarrow> Some (d, e) | None \<Rightarrow> first_decimal q es)"

text \<open>No power of ten above the starting one is below \<open>2 * q\<close> (77/256 is just below the decimal
  logarithm of 2), so none of its multiples reads back as \<open>q\<close>.\<close>

definition shortest_decimal :: "rat \<Rightarrow> (nat \<times> int) option" where
  "shortest_decimal q = first_decimal q (rev [-324..(ilog2 q + 2) * 77 div 256 + 1])"

definition plain_decimal :: "nat \<Rightarrow> int \<Rightarrow> string" where
  "plain_decimal d e =
     (let ds = fmt_nat d; m = nat (- e)
      in if 0 \<le> e then ds @ replicate (nat e) (CHR ''0'')
         else if m < length ds then take (length ds - m) ds @ ''.'' @ drop (length ds - m) ds
         else ''0.'' @ replicate (m - length ds) (CHR ''0'') @ ds)"

fun fmt_f64 :: "fp \<Rightarrow> string" where
  "fmt_f64 NaN = ''NaN''"
| "fmt_f64 (Inf s) = (if s then ''-inf'' else ''inf'')"
| "fmt_f64 (Fin s q) =
     (if s then ''-'' else []) @
     (if q = 0 then ''0''
      else case shortest_decimal \<bar>q\<bar> of Some (d, e) \<Rightarrow> plain_decimal d e | None \<Rightarrow> [])"

text \<open>Reading a decimal text.\<close>

definition read_unsigned :: "string \<Rightarrow> rat" where
  "read_unsigned s =
     (let i = takeWhile (\<lambda>c. c \<noteq> CHR ''.'') s; r = tl (dropWhile (\<lambda>c. c \<noteq> CHR ''.'') s)
      in of_nat (parse_nat i) + of_nat (parse_nat r) * pow10 (- int (length r)))"

definition read_decimal :: "string \<Rightarrow> rat" where
  "read_decimal s =
     (case s of c # cs \<Rightarrow> if c = CHR ''-'' then - read_unsigned cs else read_unsigned s | [] \<Rightarrow> 0)"

subsection \<open>A close enough number reads back\<close>

lemma multiple_gap:
  fixes m n :: int
  assumes "of_int m * pow2 e < of_int n * pow2 e"
  shows "of_int m * pow2 e + pow2 e \<le> of_int n * pow2 e"
proof -
  have "m < n" using assms by simp
  then have "(of_int (m + 1) :: rat) \<le> of_int n" by (simp only: of_int_le_iff)
  then have "of_int (m + 1) * pow2 e \<le> of_int n * pow2 e" by (rule mult_right_mono) simp
  then show ?thesis by (simp add: algebra_simps)
qed

lemma grid_multiple_of_smaller:
  assumes "on_grid q" and "0 < q" and "e \<le> ulp_exp q"
  shows "\<exists>n. q = of_int n * pow2 e"
proof -
  obtain n where "q = of_int n * pow2 (ulp_exp q)" using on_grid_multiple [OF assms(1,2)] by blast
  also have "pow2 (ulp_exp q) = of_int (2 ^ nat (ulp_exp q - e)) * pow2 e" by (rule pow2_split) fact
  also have "of_int n * (of_int (2 ^ nat (ulp_exp q - e)) * pow2 e) =
      of_int (n * 2 ^ nat (ulp_exp q - e)) * pow2 e" by simp
  finally show ?thesis ..
qed

lemma round64_close:
  assumes "on_grid q" and "0 < q" and "0 \<le> x" and "x \<le> q" and "q - x < pow2 (-1075)"
  shows "round64 x = q"
proof (rule ccontr)
  assume ne: "round64 x \<noteq> q"
  have "round64 x \<le> q" using assms(4,1) by (rule r64.rnd_le)
  with ne have less: "round64 x < q" by simp
  have tiny: "pow2 (-1075) + pow2 (-1075) = pow2 (-1074)" using pow2_add [of "-1075" 1] by simp
  define e where "e = (if x = 0 then -1074 else ulp_exp x)"
  have e: "-1074 \<le> e" using ulp_exp_ge [of x] by (simp add: e_def)
  have "e \<le> ulp_exp q"
    using ulp_exp_mono [of x q] ulp_exp_ge [of q] assms(3,4) by (simp add: e_def)
  then obtain n where n: "q = of_int n * pow2 e" using grid_multiple_of_smaller assms(1,2) by blast
  obtain m where m: "round64 x = of_int m * pow2 e"
    using round64_eq [of x] by (cases "x = 0") (auto simp: e_def intro: that [of 0])
  have gap: "round64 x + pow2 e \<le> q" using multiple_gap less unfolding m n by blast
  have "\<bar>round64 x - x\<bar> \<le> pow2 (e - 1)"
    using round64_err [of x] by (cases "x = 0") (simp_all add: e_def)
  moreover have "pow2 (e - 1) + pow2 (e - 1) = pow2 e" using pow2_add [of "e - 1" 1] by simp
  moreover have "pow2 (-1075) \<le> pow2 (e - 1)" using e by (intro pow2_mono) simp
  ultimately show False using gap assms(5) by linarith
qed

lemma decimal_at_reads_back:
  "decimal_at q e = Some d \<Longrightarrow> 0 \<le> q \<Longrightarrow> round64 (of_nat d * pow10 e) = q"
proof -
  assume d: "decimal_at q e = Some d" and q: "0 \<le> q"
  have "0 \<le> q / pow10 e" using q by simp
  then have "0 \<le> \<lfloor>q / pow10 e\<rfloor>" "0 \<le> \<lceil>q / pow10 e\<rceil>" by linarith+
  with d show ?thesis by (auto simp: decimal_at_def Let_def split: if_splits)
qed

lemma first_decimal_reads_back:
  "first_decimal q es = Some (d, e) \<Longrightarrow> 0 \<le> q \<Longrightarrow> round64 (of_nat d * pow10 e) = q"
  by (induction es) (auto split: option.splits dest: decimal_at_reads_back)

lemma first_decimal_found:
  "e \<in> set es \<Longrightarrow> decimal_at q e \<noteq> None \<Longrightarrow> first_decimal q es \<noteq> None"
  by (induction es) (auto split: option.split)

lemma pow10_below_pow2: "pow10 (-324) < pow2 (-1075)"
proof -
  have "(2 :: rat) ^ 1075 < 10 ^ 324"
  proof -
    have "(2 :: rat) ^ 1075 = 2 ^ 324 * 2 ^ 751" by (simp flip: power_add)
    also have "(2 :: rat) ^ 751 < 5 ^ 324" 
      by (simp add: power_numeral)
    finally show ?thesis by (simp flip: power_mult_distrib)
  qed
  then show ?thesis by (simp add: power_int_minus field_simps)
qed

lemma decimal_at_finest:
  assumes "on_grid q" and "0 < q"
  shows "decimal_at q (-324) \<noteq> None"
proof -
  let ?p = "pow10 (-324)"
  have p: "0 < ?p" by simp
  have "of_int \<lfloor>q / ?p\<rfloor> \<le> q / ?p" "q / ?p < of_int \<lfloor>q / ?p\<rfloor> + 1" by linarith+
  then have "of_int \<lfloor>q / ?p\<rfloor> * ?p \<le> q" "q < (of_int \<lfloor>q / ?p\<rfloor> + 1) * ?p"
    using p by (simp_all only: pos_le_divide_eq pos_divide_less_eq)
  then have "of_int \<lfloor>q / ?p\<rfloor> * ?p \<le> q" "q - of_int \<lfloor>q / ?p\<rfloor> * ?p < pow2 (-1075)"
    using pow10_below_pow2 by (simp_all only: distrib_right mult_1_left)
  moreover have "0 \<le> \<lfloor>q / ?p\<rfloor>"
    using assms(2) p by (simp only: zero_le_floor) simp
  then have "0 \<le> of_int \<lfloor>q / ?p\<rfloor> * ?p" by simp
  ultimately have "round64 (of_int \<lfloor>q / ?p\<rfloor> * ?p) = q"
    using assms by (intro round64_close)
  then show ?thesis by (simp only: decimal_at_def Let_def) auto
qed

lemma ilog2_on_grid: "on_grid q \<Longrightarrow> 0 < q \<Longrightarrow> -1074 \<le> ilog2 q"
proof -
  assume q: "on_grid q" "0 < q"
  obtain n where "q = of_int n * pow2 (-1074)"
    using grid_multiple_of_smaller [OF q ulp_exp_ge] by blast
  with multiple_gap [of 0 "-1074" n] q(2) have "pow2 (-1074) \<le> q" by simp
  then show ?thesis by (rule ilog2_ge [OF q(2)])
qed

lemma shortest_decimal_found:
  assumes "on_grid q" and "0 < q"
  obtains d e where "shortest_decimal q = Some (d, e)" and "round64 (of_nat d * pow10 e) = q"
proof -
  let ?es = "rev [-324..(ilog2 q + 2) * 77 div 256 + 1]"
  have "-1074 \<le> ilog2 q" using assms by (rule ilog2_on_grid)
  then have "-324 \<in> set ?es" by simp
  then have "first_decimal q ?es \<noteq> None" by (rule first_decimal_found) (rule decimal_at_finest [OF assms])
  then obtain d e where "shortest_decimal q = Some (d, e)" by (auto simp: shortest_decimal_def)
  with that first_decimal_reads_back [of q ?es] assms(2) show ?thesis
    by (simp add: shortest_decimal_def)
qed

subsection \<open>The text is the shortest\<close>

text \<open>The decimal is the coarsest that reads back: no multiple of a larger power of ten does, so
  none has fewer digits.\<close>

lemma round64_between: "round64 x = q \<Longrightarrow> x \<le> y \<Longrightarrow> y \<le> q \<Longrightarrow> on_grid q \<Longrightarrow> round64 y = q"
  using round64_mono [of x y] round64_mono [of y q] by simp

lemma round64_between': "round64 x = q \<Longrightarrow> y \<le> x \<Longrightarrow> q \<le> y \<Longrightarrow> on_grid q \<Longrightarrow> round64 y = q"
  using round64_mono [of y x] round64_mono [of q y] by simp

lemma decimal_at_None:
  assumes "decimal_at q e = None" and "on_grid q"
  shows "round64 (of_int n * pow10 e) \<noteq> q"
proof
  assume n: "round64 (of_int n * pow10 e) = q"
  let ?p = "pow10 e" and ?f = "\<lfloor>q / pow10 e\<rfloor>" and ?c = "\<lceil>q / pow10 e\<rceil>"
  have p: "0 < ?p" by simp
  have none: "round64 (of_int ?f * ?p) \<noteq> q" "round64 (of_int ?c * ?p) \<noteq> q"
    using assms(1) by (auto simp: decimal_at_def Let_def split: if_splits)
  show False
  proof (cases "of_int n * ?p \<le> q")
    case True
    then have "of_int n \<le> q / ?p" using p by (simp only: pos_le_divide_eq)
    then have "n \<le> ?f" by (simp only: le_floor_iff)
    then have "of_int n * ?p \<le> of_int ?f * ?p" using p by (intro mult_right_mono) simp_all
    moreover have "of_int ?f * ?p \<le> q"
      using of_int_floor_le [of "q / ?p"] p by (simp only: pos_le_divide_eq)
    ultimately show False using round64_between [OF n] assms(2) none(1) by blast
  next
    case False
    then have "q / ?p \<le> of_int n" using p by (simp only: pos_divide_le_eq not_le less_imp_le)
    then have "?c \<le> n" by (simp only: ceiling_le_iff)
    then have "of_int ?c * ?p \<le> of_int n * ?p" using p by (intro mult_right_mono) simp_all
    moreover have "q \<le> of_int ?c * ?p"
      using le_of_int_ceiling [of "q / ?p"] p by (simp only: pos_divide_le_eq)
    ultimately show False using round64_between' [OF n] assms(2) none(2) by blast
  qed
qed

lemma pow2_le_pow10_nat: "28 * k \<le> 93 * e \<Longrightarrow> (2 :: rat) ^ k \<le> 10 ^ e"
proof -
  assume e: "28 * k \<le> 93 * e"
  have "((2 :: rat) ^ 93) ^ k \<le> (10 ^ 28) ^ k" by (rule power_mono) simp_all
  then have "(2 :: rat) ^ (k * 93) \<le> 10 ^ (28 * k)" by (simp only: mult.commute [of k] power_mult)
  also have "\<dots> \<le> 10 ^ (e * 93)" using e by (intro power_increasing) simp_all
  finally have "((2 :: rat) ^ k) ^ 93 \<le> (10 ^ e) ^ 93" by (simp only: power_mult)
  then show ?thesis by (simp only: power_mono_iff zero_le_power zero_le_numeral zero_less_numeral)
qed

lemma pow10_le_pow2_nat: "10 * j \<le> 3 * m \<Longrightarrow> (10 :: rat) ^ j \<le> 2 ^ m"
proof -
  assume j: "10 * j \<le> 3 * m"
  have "((10 :: rat) ^ 3) ^ j \<le> (2 ^ 10) ^ j" by (rule power_mono) simp_all
  then have "(10 :: rat) ^ (j * 3) \<le> 2 ^ (10 * j)" by (simp only: mult.commute [of j] power_mult)
  also have "\<dots> \<le> 2 ^ (m * 3)" using j by (intro power_increasing) simp_all
  finally have "((10 :: rat) ^ j) ^ 3 \<le> (2 ^ m) ^ 3" by (simp only: power_mult)
  then show ?thesis by (simp only: power_mono_iff zero_le_power zero_le_numeral zero_less_numeral)
qed

lemma pow2_le_pow10:
  assumes "-1074 \<le> k" and "k \<le> 1026" and "k * 77 div 256 + 1 < e"
  shows "pow2 k \<le> pow10 e"
proof -
  have "k * 77 = 256 * (k * 77 div 256) + k * 77 mod 256" "k * 77 mod 256 < 256" by simp_all
  then have e: "77 * k + 257 \<le> 256 * e" using assms(3) by linarith
  consider "0 \<le> k" "0 \<le> e" | "k < 0" "0 \<le> e" | "k < 0" "e < 0" using e by linarith
  then show ?thesis
  proof cases
    case 1
    then have "28 * nat k \<le> 93 * nat e" using e assms(2) by linarith
    then have "(2 :: rat) ^ nat k \<le> 10 ^ nat e" by (rule pow2_le_pow10_nat)
    with 1 show ?thesis by (simp only: power_int_def if_True)
  next
    case 2
    have "pow2 k \<le> pow2 0" using 2 by (intro pow2_mono) simp
    also have "\<dots> \<le> 10 ^ nat e" by simp
    finally show ?thesis using 2 by (simp only: power_int_def [of "10 :: rat"] if_True)
  next
    case 3
    then have "10 * nat (- e) \<le> 3 * nat (- k)" using e assms(1) by linarith
    then have "(10 :: rat) ^ nat (- e) \<le> 2 ^ nat (- k)" by (rule pow10_le_pow2_nat)
    then have "inverse ((2 :: rat) ^ nat (- k)) \<le> inverse (10 ^ nat (- e))" by (intro le_imp_inverse_le) simp_all
    then have "inverse (2 :: rat) ^ nat (- k) \<le> inverse 10 ^ nat (- e)" by (simp only: power_inverse)
    moreover have "\<not> 0 \<le> k" "\<not> 0 \<le> e" using 3 by simp_all
    ultimately show ?thesis by (simp only: power_int_def if_False)
  qed
qed

lemma first_decimal_earlier:
  "first_decimal q es = Some (d, e) \<Longrightarrow> \<exists>xs ys. es = xs @ e # ys \<and> (\<forall>x\<in>set xs. decimal_at q x = None)"
proof (induction es)
  case (Cons a es)
  show ?case
  proof (cases "decimal_at q a")
    case None
    with Cons obtain xs ys where "es = xs @ e # ys" "\<forall>x\<in>set xs. decimal_at q x = None" by auto
    with None show ?thesis by (intro exI [of _ "a # xs"] exI [of _ ys]) simp
  next
    case (Some d')
    with Cons.prems show ?thesis by (intro exI [of _ "[]"] exI [of _ es]) simp
  qed
qed simp

lemma rev_upto_earlier: "rev [a..b] = xs @ e # ys \<Longrightarrow> e < x \<Longrightarrow> x \<le> b \<Longrightarrow> x \<in> set xs"
proof -
  assume eq: "rev [a..b] = xs @ e # ys" and x: "e < x" "x \<le> b"
  have "[a..b] = rev ys @ e # rev xs" using arg_cong [OF eq, of rev] by simp
  moreover have "sorted_wrt (<) [a..b]" by (rule sorted_wrt_upto)
  moreover have "x \<in> set [a..b]"
  proof -
    have "e \<in> set [a..b]" using calculation(1) by simp
    with x show ?thesis by simp
  qed
  ultimately show ?thesis using x(1) by (auto simp: sorted_wrt_append)
qed

lemma ilog2_below_limit: "0 < q \<Longrightarrow> q < f64_limit \<Longrightarrow> ilog2 q \<le> 1023"
proof -
  assume "0 < q" "q < f64_limit"
  then have "q < pow2 (1023 + 1)" by (simp only: f64_limit_def power_int_def) simp
  then show ?thesis by (rule ilog2_le [OF \<open>0 < q\<close>])
qed

lemma shortest_decimal_coarsest:
  assumes "on_grid q" and "0 < q" and "q < f64_limit" and "shortest_decimal q = Some (d, e)" and "e < x"
  shows "round64 (of_int n * pow10 x) \<noteq> q"
proof (cases "x \<le> (ilog2 q + 2) * 77 div 256 + 1")
  case True
  obtain xs ys where "rev [-324..(ilog2 q + 2) * 77 div 256 + 1] = xs @ e # ys"
      "\<forall>x\<in>set xs. decimal_at q x = None"
    using first_decimal_earlier assms(4) unfolding shortest_decimal_def by blast
  with True assms(5) have "decimal_at q x = None" using rev_upto_earlier by blast
  then show ?thesis using assms(1) by (rule decimal_at_None)
next
  case False
  note low = ilog2_on_grid [OF assms(1,2)]
  have "pow2 (ilog2 q + 2) \<le> pow10 x"
    using False low ilog2_below_limit [OF assms(2,3)] by (intro pow2_le_pow10) linarith+
  show ?thesis
  proof (cases "1 \<le> n")
    case True
    then have "1 * pow10 x \<le> of_int n * pow10 x" by (intro mult_right_mono) simp_all
    then have "pow2 (ilog2 q + 2) \<le> of_int n * pow10 x" using \<open>pow2 (ilog2 q + 2) \<le> pow10 x\<close> by linarith
    then have "pow2 (ilog2 q + 2) \<le> round64 (of_int n * pow10 x)"
      using low by (intro r64.rnd_ge on_grid_pow2) simp_all
    moreover have "q < pow2 (ilog2 q + 1)" using ilog2_bounds [OF assms(2)] by simp
    moreover have "pow2 (ilog2 q + 1) \<le> pow2 (ilog2 q + 2)" by (rule pow2_mono) simp
    ultimately show ?thesis by linarith
  next
    case nonpos: False
    then have "of_int n * pow10 x \<le> 0" by (simp add: mult_nonpos_nonneg)
    then have "round64 (of_int n * pow10 x) \<le> 0" using round64_mono [of "of_int n * pow10 x" 0] by simp
    with assms(2) show ?thesis by linarith
  qed
qed

subsection \<open>Reading back the text\<close>

lemma parse_nat_append: "parse_nat (a @ b) = parse_nat a * 10 ^ length b + parse_nat b"
proof -
  have fold: "foldl (\<lambda>a c. 10 * a + (of_char c - 48)) n b = n * 10 ^ length b + parse_nat b"
    for n :: nat and b
    by (induction b rule: rev_induct) (simp_all add: parse_nat_def algebra_simps)
  show ?thesis using fold [of "parse_nat a" b] by (simp add: parse_nat_def)
qed

lemma parse_nat_zeros [simp]: "parse_nat (replicate n (CHR ''0'')) = 0"
  by (induction n) (simp_all add: parse_nat_def)

lemma parse_nat_Nil [simp]: "parse_nat [] = 0"
  by (simp add: parse_nat_def)

lemma fmt_nat_no: "\<not> is_digit c \<Longrightarrow> c \<notin> set (fmt_nat n)"
  using fmt_nat_digits by blast

lemma read_unsigned_nat: "CHR ''.'' \<notin> set s \<Longrightarrow> read_unsigned s = of_nat (parse_nat s)"
proof -
  assume "CHR ''.'' \<notin> set s"
  then have "takeWhile (\<lambda>c. c \<noteq> CHR ''.'') s = s" "dropWhile (\<lambda>c. c \<noteq> CHR ''.'') s = []"
    by (auto simp: takeWhile_eq_all_conv dropWhile_eq_Nil_conv)
  then show ?thesis by (simp only: read_unsigned_def Let_def) simp
qed

lemma read_unsigned_point:
  assumes "CHR ''.'' \<notin> set a"
  shows "read_unsigned (a @ CHR ''.'' # b) =
     of_nat (parse_nat a) + of_nat (parse_nat b) * pow10 (- int (length b))"
proof -
  have "\<forall>c\<in>set a. c \<noteq> CHR ''.''" using assms by auto
  then have "takeWhile (\<lambda>c. c \<noteq> CHR ''.'') (a @ CHR ''.'' # b) = a"
    "dropWhile (\<lambda>c. c \<noteq> CHR ''.'') (a @ CHR ''.'' # b) = CHR ''.'' # b"
    by (simp_all add: takeWhile_append2 dropWhile_append2)
  then show ?thesis by (simp add: read_unsigned_def)
qed

lemma pow10_cancel: "(10 :: rat) ^ k * pow10 (- int k) = 1"
  by (simp add: power_int_minus)

lemma read_plain_decimal: "read_unsigned (plain_decimal d e) = of_nat d * pow10 e"
proof -
  let ?ds = "fmt_nat d" and ?m = "nat (- e)"
  have point: "CHR ''.'' \<notin> set ?ds" by (rule fmt_nat_no) (simp add: is_digit_def)
  consider "0 \<le> e" | "e < 0" "?m < length ?ds" | "e < 0" "\<not> ?m < length ?ds" by linarith
  then show ?thesis
  proof cases
    case 1
    then have "plain_decimal d e = ?ds @ replicate (nat e) (CHR ''0'')"
      by (simp add: plain_decimal_def Let_def)
    moreover have "pow10 e = 10 ^ nat e" using 1 by (simp add: power_int_nonneg_exp)
    ultimately show ?thesis
      using point by (simp add: read_unsigned_nat parse_nat_append parse_fmt_nat)
  next
    case 2
    let ?a = "take (length ?ds - ?m) ?ds" and ?b = "drop (length ?ds - ?m) ?ds"
    have "plain_decimal d e = ?a @ CHR ''.'' # ?b" using 2 by (simp add: plain_decimal_def Let_def)
    moreover have "CHR ''.'' \<notin> set ?a" using point by (meson in_set_takeD)
    moreover have b: "length ?b = ?m" using 2 by simp
    moreover have "d = parse_nat ?a * 10 ^ ?m + parse_nat ?b"
      using parse_nat_append [of ?a ?b] b by (simp add: parse_fmt_nat)
    then have "(of_nat d :: rat) = of_nat (parse_nat ?a) * 10 ^ ?m + of_nat (parse_nat ?b)"
      by (metis of_nat_add of_nat_mult of_nat_numeral of_nat_power)
    moreover have "- int ?m = e" using 2 by simp
    ultimately show ?thesis
      using pow10_cancel [of ?m] by (simp add: read_unsigned_point distrib_right mult.assoc)
  next
    case 3
    let ?z = "replicate (?m - length ?ds) (CHR ''0'')"
    have "plain_decimal d e = ''0'' @ CHR ''.'' # (?z @ ?ds)"
      using 3 by (simp add: plain_decimal_def Let_def)
    then have "read_unsigned (plain_decimal d e) =
        of_nat (parse_nat ''0'') + of_nat (parse_nat (?z @ ?ds)) * pow10 (- int (length (?z @ ?ds)))"
      using read_unsigned_point [of "''0''" "?z @ ?ds"] by (simp only: append.simps) simp
    moreover have "- int (length (?z @ ?ds)) = e" using 3 by simp
    moreover have "parse_nat (?z @ ?ds) = d" by (simp add: parse_nat_append parse_fmt_nat)
    moreover have "parse_nat ''0'' = 0" by (simp add: parse_nat_def)
    ultimately show ?thesis by simp
  qed
qed

lemma plain_decimal_head: "plain_decimal d e \<noteq> [] \<and> hd (plain_decimal d e) \<noteq> CHR ''-''"
proof -
  obtain c cs where ds: "fmt_nat d = c # cs" using fmt_nat_nonempty by (cases "fmt_nat d") auto
  have "CHR ''-'' \<notin> set (fmt_nat d)" by (rule fmt_nat_no) (simp add: is_digit_def)
  with ds show ?thesis
    by (auto simp: plain_decimal_def Let_def take_Cons' hd_append)
qed

text \<open>The text of a finite binary64 value reads back as that value.\<close>

lemma read_fmt_f64:
  assumes "f64_ok (Fin s q)"
  shows "round64 (read_decimal (fmt_f64 (Fin s q))) = q"
proof (cases "q = 0")
  case True
  have "read_unsigned ''0'' = 0" by (simp add: read_unsigned_def parse_nat_def)
  with True show ?thesis by (simp add: read_decimal_def)
next
  case False
  with assms have s: "s = (q < 0)" and grid: "on_grid \<bar>q\<bar>" by (auto simp: abs_if on_grid_neg)
  obtain d e where de: "shortest_decimal \<bar>q\<bar> = Some (d, e)" "round64 (of_nat d * pow10 e) = \<bar>q\<bar>"
    using shortest_decimal_found [OF grid] False by auto
  obtain c cs where pd: "plain_decimal d e = c # cs" "c \<noteq> CHR ''-''"
    using plain_decimal_head [of d e] by (cases "plain_decimal d e") auto
  then have "read_decimal (fmt_f64 (Fin s q)) = (if s then - (of_nat d * pow10 e) else of_nat d * pow10 e)"
    using False de(1) read_plain_decimal [of d e] by (simp add: read_decimal_def)
  with de(2) s False show ?thesis by (auto simp: round64_neg)
qed

lemma read_fmt_int: "read_decimal (fmt_int i) = of_int i"
proof -
  have unsigned: "read_unsigned (fmt_nat n) = of_nat n" for n
    by (subst read_unsigned_nat) (simp_all add: fmt_nat_no is_digit_def parse_fmt_nat)
  obtain c cs where ft: "fmt_nat (nat i) = c # cs" using fmt_nat_nonempty by (cases "fmt_nat (nat i)") auto
  have "CHR ''-'' \<notin> set (fmt_nat (nat i))" by (rule fmt_nat_no) (simp add: is_digit_def)
  with ft unsigned [of "nat i"] unsigned [of "nat (- i)"] show ?thesis
    by (auto simp: fmt_int_def read_decimal_def of_nat_nat)
qed

end
