(* ===== verification/Metrics_Export.thy ===== *)
theory Metrics_Export
  imports Decimal Rust_Collections
begin

text \<open>
  \<^verbatim>\<open>src/metrics_export.rs\<close>: the metrics registry, two nested \<^verbatim>\<open>BTreeMap\<close>s, and its Prometheus text.
  The lemmas show that the registry behaves as a map from names to metrics in which the first
  registration wins and unregistered names are ignored, that the exported text can be split
  back into its samples, each series once, and that every value reads back exactly; and what
  a line break in a help text does. Strings are lists of bytes (UTF-8), as in Rust.
\<close>

datatype metric_type = Counter | Gauge

record metric_entry =
  me_name :: string
  me_help :: string
  me_type :: metric_type
  me_values :: "(string, f64) btree_map"

definition entry_new :: "string \<Rightarrow> string \<Rightarrow> metric_type \<Rightarrow> metric_entry" where
  "entry_new name hlp t = \<lparr>me_name = name, me_help = hlp, me_type = t, me_values = []\<rparr>"

text \<open>\<^verbatim>\<open>*map.entry(key).or_insert(0.0) += delta\<close>.\<close>

definition add_at :: "string \<Rightarrow> f64 \<Rightarrow> (string, f64) btree_map \<Rightarrow> (string, f64) btree_map" where
  "add_at key delta m =
     bt_insert key (fadd (case bt_get m key of Some v \<Rightarrow> v | None \<Rightarrow> flit 0) delta) m"

definition entry_set :: "metric_entry \<Rightarrow> f64 \<Rightarrow> metric_entry" where
  "entry_set e v = e\<lparr>me_values := bt_insert [] v (me_values e)\<rparr>"

definition entry_increment :: "metric_entry \<Rightarrow> f64 \<Rightarrow> metric_entry" where
  "entry_increment e delta = e\<lparr>me_values := add_at [] delta (me_values e)\<rparr>"

definition set_with_labels :: "metric_entry \<Rightarrow> string \<Rightarrow> f64 \<Rightarrow> metric_entry" where
  "set_with_labels e labels v = e\<lparr>me_values := bt_insert labels v (me_values e)\<rparr>"

definition increment_with_labels :: "metric_entry \<Rightarrow> string \<Rightarrow> f64 \<Rightarrow> metric_entry" where
  "increment_with_labels e labels delta = e\<lparr>me_values := add_at labels delta (me_values e)\<rparr>"

definition entry_get :: "metric_entry \<Rightarrow> string \<Rightarrow> f64 option" where
  "entry_get e labels = bt_get (me_values e) labels"

record metrics_registry =
  metrics :: "(string, metric_entry) btree_map"

definition registry_new :: metrics_registry where
  "registry_new = \<lparr>metrics = []\<rparr>"

definition register :: "metrics_registry \<Rightarrow> string \<Rightarrow> string \<Rightarrow> metric_type \<Rightarrow> metrics_registry" where
  "register r name hlp t =
     (case bt_get (metrics r) name of
        None \<Rightarrow> r\<lparr>metrics := bt_insert name (entry_new name hlp t) (metrics r)\<rparr>
      | Some _ \<Rightarrow> r)"

text \<open>\<^verbatim>\<open>if let Some(entry) = self.metrics.get_mut(name)\<close>, with the body \<open>f\<close>.\<close>

definition with_metric ::
  "metrics_registry \<Rightarrow> string \<Rightarrow> (metric_entry \<Rightarrow> metric_entry) \<Rightarrow> metrics_registry" where
  "with_metric r name f =
     (case bt_get (metrics r) name of
        Some e \<Rightarrow> r\<lparr>metrics := bt_insert name (f e) (metrics r)\<rparr>
      | None \<Rightarrow> r)"

definition counter_inc :: "metrics_registry \<Rightarrow> string \<Rightarrow> f64 \<Rightarrow> metrics_registry" where
  "counter_inc r name delta = with_metric r name (\<lambda>e. entry_increment e delta)"

definition gauge_set :: "metrics_registry \<Rightarrow> string \<Rightarrow> f64 \<Rightarrow> metrics_registry" where
  "gauge_set r name v = with_metric r name (\<lambda>e. entry_set e v)"

definition counter_inc_labels :: "metrics_registry \<Rightarrow> string \<Rightarrow> string \<Rightarrow> f64 \<Rightarrow> metrics_registry" where
  "counter_inc_labels r name labels delta = with_metric r name (\<lambda>e. increment_with_labels e labels delta)"

definition gauge_set_labels :: "metrics_registry \<Rightarrow> string \<Rightarrow> string \<Rightarrow> f64 \<Rightarrow> metrics_registry" where
  "gauge_set_labels r name labels v = with_metric r name (\<lambda>e. set_with_labels e labels v)"

definition registry_get :: "metrics_registry \<Rightarrow> string \<Rightarrow> f64 option" where
  "registry_get r name =
     (case bt_get (metrics r) name of Some e \<Rightarrow> entry_get e [] | None \<Rightarrow> None)"

definition registry_len :: "metrics_registry \<Rightarrow> usize" where
  "registry_len r = length (metrics r)"

definition registry_is_empty :: "metrics_registry \<Rightarrow> bool" where
  "registry_is_empty r \<longleftrightarrow> metrics r = []"

subsection \<open>The text format\<close>

abbreviation newline :: char where
  "newline \<equiv> CHR 0x0A"

definition value_text :: "f64 \<Rightarrow> string" where
  "value_text v =
     (if feq (ffract v) (flit 0) \<and> flt (fabs v) (flit (10 ^ 15)) then fmt_int (i64_of_f64 v)
      else fmt_f64 v)"

definition series_text :: "string \<Rightarrow> string \<Rightarrow> string" where
  "series_text name labels = name @ (if labels \<noteq> [] then ''{'' @ labels @ ''}'' else [])"

definition type_text :: "metric_type \<Rightarrow> string" where
  "type_text t = (case t of Counter \<Rightarrow> '' counter'' | Gauge \<Rightarrow> '' gauge'')"

definition render_value :: "string \<Rightarrow> string \<times> f64 \<Rightarrow> string" where
  "render_value name = (\<lambda>(labels, v). series_text name labels @ '' '' @ value_text v @ [newline])"

definition render_entry :: "metric_entry \<Rightarrow> string" where
  "render_entry e =
     ''# HELP '' @ me_name e @ '' '' @ me_help e @ [newline] @
     ''# TYPE '' @ me_name e @ type_text (me_type e) @ [newline] @
     concat (map (render_value (me_name e)) (me_values e))"

definition render_prometheus :: "metrics_registry \<Rightarrow> string" where
  "render_prometheus r = concat (map (\<lambda>(_, e). render_entry e) (metrics r))"

subsection \<open>Runs of the registry\<close>

datatype reg_op =
    Register string string metric_type
  | CounterInc string f64
  | GaugeSet string f64
  | CounterIncLabels string string f64
  | GaugeSetLabels string string f64
  | GetValue string
  | Len
  | IsEmpty

datatype reg_out = Unit | Value "f64 option" | Size usize | Empty bool

fun reg_step :: "metrics_registry \<Rightarrow> reg_op \<Rightarrow> metrics_registry \<times> reg_out" where
  "reg_step r (Register n h t) = (register r n h t, Unit)"
| "reg_step r (CounterInc n d) = (counter_inc r n d, Unit)"
| "reg_step r (GaugeSet n v) = (gauge_set r n v, Unit)"
| "reg_step r (CounterIncLabels n l d) = (counter_inc_labels r n l d, Unit)"
| "reg_step r (GaugeSetLabels n l v) = (gauge_set_labels r n l v, Unit)"
| "reg_step r (GetValue n) = (r, Value (registry_get r n))"
| "reg_step r Len = (r, Size (registry_len r))"
| "reg_step r IsEmpty = (r, Empty (registry_is_empty r))"

lemmas registry_defs = register_def counter_inc_def gauge_set_def counter_inc_labels_def
  gauge_set_labels_def with_metric_def entry_increment_def entry_set_def increment_with_labels_def
  set_with_labels_def entry_new_def add_at_def

text \<open>What the registry promises: a map from names to a help text, a type and the value of each
  label set.\<close>

type_synonym ametric = "string \<times> metric_type \<times> (string \<rightharpoonup> f64)"

definition upd_metric ::
  "(string \<rightharpoonup> ametric) \<Rightarrow> string \<Rightarrow> ((string \<rightharpoonup> f64) \<Rightarrow> (string \<rightharpoonup> f64)) \<Rightarrow> (string \<rightharpoonup> ametric)" where
  "upd_metric m n f = (case m n of None \<Rightarrow> m | Some (h, t, vs) \<Rightarrow> m(n \<mapsto> (h, t, f vs)))"

definition plus_at :: "string \<Rightarrow> f64 \<Rightarrow> (string \<rightharpoonup> f64) \<Rightarrow> (string \<rightharpoonup> f64)" where
  "plus_at l d vs = vs(l \<mapsto> fadd (case vs l of Some v \<Rightarrow> v | None \<Rightarrow> flit 0) d)"

fun areg_step :: "(string \<rightharpoonup> ametric) \<Rightarrow> reg_op \<Rightarrow> (string \<rightharpoonup> ametric) \<times> reg_out" where
  "areg_step m (Register n h t) = (if m n = None then m(n \<mapsto> (h, t, Map.empty)) else m, Unit)"
| "areg_step m (CounterInc n d) = (upd_metric m n (plus_at [] d), Unit)"
| "areg_step m (GaugeSet n v) = (upd_metric m n (\<lambda>vs. vs([] \<mapsto> v)), Unit)"
| "areg_step m (CounterIncLabels n l d) = (upd_metric m n (plus_at l d), Unit)"
| "areg_step m (GaugeSetLabels n l v) = (upd_metric m n (\<lambda>vs. vs(l \<mapsto> v)), Unit)"
| "areg_step m (GetValue n) = (m, Value (case m n of Some (h, t, vs) \<Rightarrow> vs [] | None \<Rightarrow> None))"
| "areg_step m Len = (m, Size (card (dom m)))"
| "areg_step m IsEmpty = (m, Empty (m = Map.empty))"

definition abs_entry :: "metric_entry \<Rightarrow> ametric" where
  "abs_entry e = (me_help e, me_type e, bt_get (me_values e))"

definition abs_registry :: "metrics_registry \<Rightarrow> (string \<rightharpoonup> ametric)" where
  "abs_registry r = (\<lambda>n. map_option abs_entry (bt_get (metrics r) n))"

definition registry_ok :: "metrics_registry \<Rightarrow> bool" where
  "registry_ok r \<longleftrightarrow> bt_wf (metrics r) \<and>
     (\<forall>n e. bt_get (metrics r) n = Some e \<longrightarrow> me_name e = n \<and> bt_wf (me_values e))"

lemma registry_new_ok: "registry_ok registry_new"
  by (simp add: registry_ok_def registry_new_def bt.wf_emp bt.get_emp)

lemma registry_ok_insert:
  "registry_ok r \<Longrightarrow> me_name e = n \<Longrightarrow> bt_wf (me_values e) \<Longrightarrow>
   registry_ok (r\<lparr>metrics := bt_insert n e (metrics r)\<rparr>)"
  by (auto simp: registry_ok_def bt.wf_ins bt.get_ins split: if_splits)

lemma with_metric_ok:
  assumes "registry_ok r" and "\<And>e. me_name (f e) = me_name e"
    and "\<And>e. bt_wf (me_values e) \<Longrightarrow> bt_wf (me_values (f e))"
  shows "registry_ok (with_metric r n f)"
  using assms
  by (auto simp: with_metric_def registry_ok_def bt.wf_ins bt.get_ins split: option.split if_splits)

lemma reg_step_ok: "registry_ok r \<Longrightarrow> registry_ok (fst (reg_step r e))"
proof (cases e)
  case (Register n h t)
  assume "registry_ok r"
  with Register show ?thesis
    by (auto simp: register_def entry_new_def bt.wf_emp intro: registry_ok_insert split: option.split)
qed (auto simp: registry_defs(2-5) entry_increment_def entry_set_def increment_with_labels_def
    set_with_labels_def add_at_def bt.wf_ins intro!: with_metric_ok)

lemma abs_registry_insert:
  "registry_ok r \<Longrightarrow> abs_registry (r\<lparr>metrics := bt_insert n e (metrics r)\<rparr>) =
     (abs_registry r)(n \<mapsto> abs_entry e)"
  by (simp add: abs_registry_def registry_ok_def bt.get_ins fun_eq_iff)

lemma abs_with_metric:
  assumes "registry_ok r"
    and "\<And>e. bt_wf (me_values e) \<Longrightarrow> abs_entry (f e) = (me_help e, me_type e, g (bt_get (me_values e)))"
  shows "abs_registry (with_metric r n f) = upd_metric (abs_registry r) n g"
proof (cases "bt_get (metrics r) n")
  case None
  then show ?thesis by (simp add: with_metric_def upd_metric_def abs_registry_def)
next
  case (Some e)
  with assms(1) have "bt_wf (me_values e)" by (simp add: registry_ok_def)
  with Some assms show ?thesis
    by (simp add: with_metric_def abs_registry_insert) (simp add: upd_metric_def abs_registry_def abs_entry_def)
qed

lemma bt_get_add_at: "bt_wf m \<Longrightarrow> bt_get (add_at l d m) = plus_at l d (bt_get m)"
  by (simp add: add_at_def plus_at_def bt.get_ins)

lemma dom_abs_registry: "dom (abs_registry r) = dom (bt_get (metrics r))"
  by (auto simp: abs_registry_def dom_def)

lemma registry_sim:
  assumes "registry_ok r"
  shows "areg_step (abs_registry r) e = (abs_registry (fst (reg_step r e)), snd (reg_step r e))"
proof (cases e)
  case (Register n h t)
  show ?thesis
  proof (cases "bt_get (metrics r) n")
    case None
    with Register assms show ?thesis
      by (simp add: register_def abs_registry_insert abs_entry_def entry_new_def bt.get_emp)
        (simp add: abs_registry_def)
  qed (simp add: Register register_def abs_registry_def)
next
  case (GetValue n)
  then show ?thesis
    by (simp add: registry_get_def entry_get_def abs_registry_def abs_entry_def split: option.split)
next
  case Len
  with assms show ?thesis by (simp add: registry_len_def dom_abs_registry registry_ok_def bt.len_card)
next
  case IsEmpty
  have "metrics r = [] \<longleftrightarrow> abs_registry r = Map.empty"
    by (cases "metrics r") (auto simp: abs_registry_def bt_get_def fun_eq_iff)
  with IsEmpty show ?thesis by (simp add: registry_is_empty_def)
qed (use assms in \<open>simp_all add: registry_defs(2-5) abs_entry_def entry_increment_def entry_set_def
    increment_with_labels_def set_with_labels_def bt_get_add_at bt.get_ins abs_with_metric fun_upd_def\<close>)

interpretation registry: invariant_machine reg_step registry_ok
  by unfold_locales (rule reg_step_ok)

interpretation registry_sim: simulation reg_step registry_ok areg_step abs_registry
  by unfold_locales (rule registry_sim)

subsection \<open>Lines, samples and series of the text\<close>

fun lines :: "string \<Rightarrow> string list" where
  "lines [] = []"
| "lines (c # cs) =
     (if c = newline then [] # lines cs
      else case lines cs of [] \<Rightarrow> [[c]] | l # ls \<Rightarrow> (c # l) # ls)"

lemma lines_line: "newline \<notin> set l \<Longrightarrow> lines (l @ newline # s) = l # lines s"
  by (induction l) auto

definition unlines :: "string list \<Rightarrow> string" where
  "unlines ls = concat (map (\<lambda>l. l @ [newline]) ls)"

lemma lines_unlines: "\<forall>l\<in>set ls. newline \<notin> set l \<Longrightarrow> lines (unlines ls) = ls"
  by (induction ls) (simp_all add: unlines_def lines_line)

lemma unlines_append: "unlines (xs @ ys) = unlines xs @ unlines ys"
  by (simp add: unlines_def)

lemma unlines_concat: "unlines (concat xss) = concat (map unlines xss)"
  by (induction xss) (simp_all add: unlines_append, simp add: unlines_def)

definition sample_line :: "string \<Rightarrow> string \<times> f64 \<Rightarrow> string" where
  "sample_line name = (\<lambda>(labels, v). series_text name labels @ '' '' @ value_text v)"

definition entry_lines :: "metric_entry \<Rightarrow> string list" where
  "entry_lines e =
     [''# HELP '' @ me_name e @ '' '' @ me_help e, ''# TYPE '' @ me_name e @ type_text (me_type e)] @
     map (sample_line (me_name e)) (me_values e)"

lemma render_entry_lines: "render_entry e = unlines (entry_lines e)"
  by (simp add: render_entry_def entry_lines_def unlines_def render_value_def sample_line_def
      comp_def split_def)

lemma render_lines: "render_prometheus r = unlines (concat (map (entry_lines \<circ> snd) (metrics r)))"
  by (simp add: render_prometheus_def unlines_concat render_entry_lines comp_def split_def)

text \<open>A reader of the text: comment lines aside, a line is a series and, after its last space,
  the value.\<close>

definition is_comment :: "string \<Rightarrow> bool" where
  "is_comment l \<longleftrightarrow> take 1 l = ''#''"

definition read_line :: "string \<Rightarrow> string \<times> string" where
  "read_line l =
     (let v = rev (takeWhile (\<lambda>c. c \<noteq> CHR '' '') (rev l))
      in (take (length l - length v - 1) l, v))"

definition read_samples :: "string \<Rightarrow> (string \<times> string) list" where
  "read_samples out = map read_line (filter (\<lambda>l. \<not> is_comment l) (lines out))"

definition samples :: "metrics_registry \<Rightarrow> (string \<times> string \<times> f64) list" where
  "samples r = concat (map (\<lambda>(_, e). map (\<lambda>(l, v). (me_name e, l, v)) (me_values e)) (metrics r))"

lemma read_line_eq: "CHR '' '' \<notin> set v \<Longrightarrow> read_line (s @ '' '' @ v) = (s, v)"
proof -
  assume v: "CHR '' '' \<notin> set v"
  have "takeWhile (\<lambda>c. c \<noteq> CHR '' '') (rev v @ CHR '' '' # rev s) =
      rev v @ takeWhile (\<lambda>c. c \<noteq> CHR '' '') (CHR '' '' # rev s)"
    by (rule takeWhile_append2) (use v in auto)
  then have "takeWhile (\<lambda>c. c \<noteq> CHR '' '') (rev v @ CHR '' '' # rev s) = rev v" by simp
  then show ?thesis by (simp add: read_line_def)
qed

text \<open>The texts of values hold neither spaces nor line breaks.\<close>

lemma fmt_nat_plain: "\<not> is_digit c \<Longrightarrow> c \<notin> set (fmt_nat n)"
  using fmt_nat_digits by blast

lemma set_plain_decimal: "set (plain_decimal d e) \<subseteq> set (fmt_nat d) \<union> {CHR ''0'', CHR ''.''}"
  by (auto simp: plain_decimal_def Let_def dest: in_set_takeD in_set_dropD)

lemma value_text_plain:
  assumes "c = CHR '' '' \<or> c = newline"
  shows "c \<notin> set (value_text v)"
proof -
  have c: "\<not> is_digit c" "c \<noteq> CHR ''-''" "c \<noteq> CHR ''.''" "c \<noteq> CHR ''0''"
    using assms by (auto simp: is_digit_def)
  then have "c \<notin> set (plain_decimal d e)" for d e
    using set_plain_decimal [of d e] fmt_nat_plain [of c d] by blast
  then have "c \<notin> set (fmt_f64 v)"
    using c assms by (cases v) (auto split: option.split)
  with c show ?thesis by (simp add: value_text_def fmt_int_def fmt_nat_plain)
qed

text \<open>Names and texts that do not break the format.\<close>

definition name_ok :: "string \<Rightarrow> bool" where
  "name_ok n \<longleftrightarrow> n \<noteq> [] \<and> hd n \<noteq> CHR ''#'' \<and> CHR ''{'' \<notin> set n \<and> newline \<notin> set n"

fun op_ok :: "reg_op \<Rightarrow> bool" where
  "op_ok (Register n h t) \<longleftrightarrow> name_ok n \<and> newline \<notin> set h"
| "op_ok (CounterIncLabels n l d) \<longleftrightarrow> newline \<notin> set l"
| "op_ok (GaugeSetLabels n l v) \<longleftrightarrow> newline \<notin> set l"
| "op_ok _ \<longleftrightarrow> True"

definition entry_ok :: "metric_entry \<Rightarrow> bool" where
  "entry_ok e \<longleftrightarrow> name_ok (me_name e) \<and> newline \<notin> set (me_help e) \<and>
     (\<forall>l\<in>fst ` set (me_values e). newline \<notin> set l)"

definition text_ok :: "metrics_registry \<Rightarrow> bool" where
  "text_ok r \<longleftrightarrow> (\<forall>p\<in>set (metrics r). entry_ok (snd p))"

lemma set_bt_insert: "set (bt_insert k v m) \<subseteq> insert (k, v) (set m)"
  by (induction k v m rule: bt_insert.induct) auto

lemma text_ok_insert: "text_ok r \<Longrightarrow> entry_ok e \<Longrightarrow> text_ok (r\<lparr>metrics := bt_insert n e (metrics r)\<rparr>)"
  using set_bt_insert [of n e "metrics r"] by (auto simp: text_ok_def)

lemma text_ok_with_metric:
  assumes "text_ok r" and "\<And>e. entry_ok e \<Longrightarrow> entry_ok (f e)"
  shows "text_ok (with_metric r n f)"
proof (cases "bt_get (metrics r) n")
  case (Some e)
  then have "(n, e) \<in> set (metrics r)" by (simp add: bt_get_def map_of_SomeD)
  with assms have "entry_ok (f e)" by (auto simp: text_ok_def)
  with Some assms(1) show ?thesis by (simp add: with_metric_def text_ok_insert)
qed (use assms(1) in \<open>simp add: with_metric_def\<close>)

lemma text_ok_step: "text_ok r \<Longrightarrow> op_ok e \<Longrightarrow> text_ok (fst (reg_step r e))"
proof (cases e)
  case (Register n h t)
  assume "text_ok r" "op_ok e"
  with Register show ?thesis
    by (auto simp: register_def entry_new_def entry_ok_def intro!: text_ok_insert split: option.split)
qed (auto simp: registry_defs(2-5) entry_increment_def entry_set_def increment_with_labels_def
    set_with_labels_def add_at_def entry_ok_def keys_bt_insert intro!: text_ok_with_metric)

lemma text_ok_run: "text_ok r \<Longrightarrow> list_all op_ok ops \<Longrightarrow> text_ok (fst (run reg_step r ops))"
  by (induction ops arbitrary: r) (simp_all add: text_ok_step)

lemma entry_lines_plain:
  "entry_ok e \<Longrightarrow> \<forall>l\<in>set (entry_lines e). newline \<notin> set l"
  by (auto simp: entry_lines_def entry_ok_def name_ok_def sample_line_def series_text_def
      type_text_def value_text_plain split: metric_type.split)

lemma lines_render:
  assumes "text_ok r"
  shows "lines (render_prometheus r) = concat (map (entry_lines \<circ> snd) (metrics r))"
  unfolding render_lines
  by (rule lines_unlines) (use assms entry_lines_plain in \<open>auto simp: text_ok_def\<close>)

lemma entry_samples:
  assumes "entry_ok e"
  shows "map read_line (filter (\<lambda>l. \<not> is_comment l) (entry_lines e)) =
     map (\<lambda>(l, v). (series_text (me_name e) l, value_text v)) (me_values e)"
proof -
  obtain c n where name: "me_name e = c # n" "c \<noteq> CHR ''#''"
    using assms by (cases "me_name e") (auto simp: entry_ok_def name_ok_def)
  then have "\<not> is_comment (sample_line (me_name e) p)" for p
    by (simp add: is_comment_def sample_line_def series_text_def split_def)
  moreover have "read_line (sample_line (me_name e) p) = (series_text (me_name e) (fst p), value_text (snd p))"
    for p
    unfolding sample_line_def split_def by (rule read_line_eq) (simp add: value_text_plain)
  ultimately show ?thesis
    by (simp add: entry_lines_def is_comment_def filter_map comp_def split_def)
qed

lemma read_samples_render:
  assumes "text_ok r"
  shows "read_samples (render_prometheus r) =
     map (\<lambda>(n, l, v). (series_text n l, value_text v)) (samples r)"
proof -
  have "map read_line (filter (\<lambda>l. \<not> is_comment l) (concat (map (entry_lines \<circ> snd) m))) =
      map (\<lambda>(n, l, v). (series_text n l, value_text v))
        (concat (map (\<lambda>(_, e). map (\<lambda>(l, v). (me_name e, l, v)) (me_values e)) m))"
    if "\<forall>p\<in>set m. entry_ok (snd p)" for m :: "(string \<times> metric_entry) list"
    using that by (induction m) (simp_all add: entry_samples comp_def split_def)
  with assms show ?thesis
    by (simp add: read_samples_def lines_render samples_def text_ok_def)
qed

lemma series_text_inject:
  assumes "CHR ''{'' \<notin> set n" and "CHR ''{'' \<notin> set n'"
  shows "series_text n l = series_text n' l' \<longleftrightarrow> n = n' \<and> l = l'"
proof
  assume eq: "series_text n l = series_text n' l'"
  have take: "takeWhile (\<lambda>c. c \<noteq> CHR ''{'') (series_text m k) = m" if "CHR ''{'' \<notin> set m" for m k
  proof -
    have "takeWhile (\<lambda>c. c \<noteq> CHR ''{'') (m @ x) = m @ takeWhile (\<lambda>c. c \<noteq> CHR ''{'') x" for x
      by (rule takeWhile_append2) (use that in auto)
    then show ?thesis by (simp add: series_text_def)
  qed
  have "n = n'" using take [OF assms(1), of l] take [OF assms(2), of l'] eq by simp
  with eq show "n = n' \<and> l = l'" by (auto simp: series_text_def split: if_splits)
qed simp

lemma distinct_samples:
  assumes "registry_ok r"
  shows "distinct (map (\<lambda>(n, l, v). (n, l)) (samples r))"
proof -
  have "distinct (map (\<lambda>(n, l, v). (n, l))
      (concat (map (\<lambda>(_, e). map (\<lambda>(l, v). (me_name e, l, v)) (me_values e)) m)))"
    if "bt_wf m" "\<forall>(n, e)\<in>set m. me_name e = n \<and> bt_wf (me_values e)"
    for m :: "(string \<times> metric_entry) list"
    using that
  proof (induction m)
    case (Cons p m)
    obtain n e where p: "p = (n, e)" by (cases p)
    have own: "distinct (map (\<lambda>(l, v). (n, l)) (me_values e))"
      using bt_wf_distinct [of "me_values e"] Cons.prems(2) p
      by (auto simp: distinct_map inj_on_def split_def)
    have other: "n' \<noteq> n" if "(n', e') \<in> set m" for n' e'
      using that Cons.prems(1) p by (force simp: bt_wf_def)
    have "bt_wf m" using Cons.prems(1) by (simp add: bt_wf_def)
    with Cons own other p show ?case
      by (auto simp: comp_def split_def) (use Cons.prems(2) in \<open>force simp: p\<close>)
  qed simp
  moreover have "\<forall>(n, e)\<in>set (metrics r). me_name e = n \<and> bt_wf (me_values e)"
    using assms bt_wf_distinct by (force simp: registry_ok_def bt_get_def)
  ultimately show ?thesis using assms unfolding samples_def registry_ok_def by blast
qed

subsection \<open>Values read back\<close>

lemma grid_multiple_of_finest: "on_grid q \<Longrightarrow> \<exists>m. q = of_int m * pow2 (-1074)"
proof -
  assume grid: "on_grid q"
  consider "0 < q" | "q = 0" | "0 < - q" by linarith
  then show ?thesis
  proof cases
    case 1
    then show ?thesis by (rule grid_multiple_of_smaller [OF grid _ ulp_exp_ge])
  next
    case 2
    then show ?thesis by (intro exI [of _ 0]) simp
  next
    case 3
    have "on_grid (- q)" using grid by (simp add: on_grid_neg)
    then obtain m where "- q = of_int m * pow2 (-1074)"
      using grid_multiple_of_smaller [OF _ 3 ulp_exp_ge] by blast
    then have "q = of_int (- m) * pow2 (-1074)" by (simp only: of_int_minus)
    then show ?thesis ..
  qed
qed

lemma round64_multiple_zero:
  assumes "round64 (of_int m * pow2 (-1074)) = 0"
  shows "m = 0"
proof -
  have pos: "n < 1" if "round64 (of_int n * pow2 (-1074)) = 0" for n :: int
  proof (rule ccontr)
    assume "\<not> n < 1"
    then have "(1 :: rat) \<le> of_int n" by simp
    then have "1 * pow2 (-1074) \<le> of_int n * pow2 (-1074)" by (rule mult_right_mono) simp
    then have "pow2 (-1074) \<le> round64 (of_int n * pow2 (-1074))"
      by (intro r64.rnd_ge) (simp_all only: mult_1_left on_grid_pow2 order_refl)
    moreover have "0 < pow2 (-1074)" by (rule pow2_pos)
    ultimately show False using that by simp
  qed
  have "round64 (of_int (- m) * pow2 (-1074)) = 0"
    using assms round64_neg [of "of_int m * pow2 (-1074)"] by simp
  then have "- m < 1" by (rule pos)
  with pos [OF assms] show ?thesis by simp
qed

lemma zero_fract:
  assumes "on_grid q" and "round64 (q - of_int (trunc q)) = 0"
  shows "q = of_int (trunc q)"
proof -
  obtain m where m: "q = of_int m * pow2 (-1074)" using grid_multiple_of_finest assms(1) by blast
  have "of_int (2 ^ 1074) * pow2 (-1074) = 1" by (simp add: power_int_minus)
  then have "of_int (trunc q) = of_int (trunc q * 2 ^ 1074) * pow2 (-1074)"
    by (simp only: of_int_mult mult.assoc mult_1_right)
  then have x: "q - of_int (trunc q) = of_int (m - trunc q * 2 ^ 1074) * pow2 (-1074)"
    using m by (simp only: of_int_diff left_diff_distrib)
  have "m - trunc q * 2 ^ 1074 = 0"
    by (rule round64_multiple_zero) (use assms(2) in \<open>simp only: x\<close>)
  with x have "q - of_int (trunc q) = 0" by (simp only: of_int_0 mult_zero_left)
  then show ?thesis by simp
qed

lemma feq_zero_iff: "feq (round_fp s x) (Fin t 0) \<longleftrightarrow> round64 x = 0"
proof
  assume "feq (round_fp s x) (Fin t 0)"
  then show "round64 x = 0"
    by (auto simp: feq_def round_fp_def Let_def split: if_splits)
next
  assume "round64 x = 0"
  moreover have "\<not> f64_limit \<le> 0" by (simp add: not_le)
  ultimately show "feq (round_fp s x) (Fin t 0)" by (simp add: feq_def round_fp_def Let_def)
qed

lemma value_text_reads_back:
  assumes "f64_ok (Fin s q)"
  shows "round64 (read_decimal (value_text (Fin s q))) = q"
proof (cases "feq (ffract (Fin s q)) (flit 0) \<and> flt (fabs (Fin s q)) (flit (10 ^ 15))")
  case True
  have grid: "on_grid q" using assms by simp
  have "ffract (Fin s q) = round_fp (s \<and> \<not> s) (q - of_int (trunc q))"
    by (simp add: ffract_def fsub_def)
  with True have "round64 (q - of_int (trunc q)) = 0" by (simp add: feq_zero_iff del: fle_zero_sign)
  then have int: "q = of_int (trunc q)" using grid zero_fract by blast
  have "flit (10 ^ 15) = Fin False (10 ^ 15)" using flit_nat [of "10 ^ 15"] by simp
  with True have "\<bar>q\<bar> < 10 ^ 15" by simp
  then have "\<bar>of_int (trunc q) :: rat\<bar> < of_int (10 ^ 15)" using int by simp
  then have "\<bar>trunc q\<bar> < 10 ^ 15" by (simp only: of_int_less_iff flip: of_int_abs)
  then have "i64_of_f64 (Fin s q) = trunc q" by simp
  with True have "value_text (Fin s q) = fmt_int (trunc q)" by (simp only: value_text_def) simp
  with int grid show ?thesis by (simp add: read_fmt_int)
next
  case False
  then have "value_text (Fin s q) = fmt_f64 (Fin s q)" by (simp only: value_text_def if_False)
  with read_fmt_f64 [OF assms] show ?thesis by simp
qed

lemma bt_get_in_set: "bt_wf m \<Longrightarrow> bt_get m k = Some v \<longleftrightarrow> (k, v) \<in> set m"
  by (simp add: bt_get_def bt_wf_distinct)

lemma set_samples:
  assumes "registry_ok r"
  shows "set (samples r) =
     {(n, l, v). \<exists>h t vs. abs_registry r n = Some (h, t, vs) \<and> vs l = Some v}"
proof -
  have entry: "me_name e = n \<and> bt_wf (me_values e)" if "(n, e) \<in> set (metrics r)" for n e
    using assms that by (auto simp: registry_ok_def bt_get_in_set)
  have wf: "bt_wf (metrics r)" using assms by (simp add: registry_ok_def)
  have "(n, l, v) \<in> set (samples r) \<longleftrightarrow>
      (\<exists>e. (n, e) \<in> set (metrics r) \<and> (l, v) \<in> set (me_values e))" for n l v
    using entry by (fastforce simp: samples_def)
  moreover have "(l, v) \<in> set (me_values e) \<longleftrightarrow> bt_get (me_values e) l = Some v"
    if "(n, e) \<in> set (metrics r)" for n e l v
    using entry [OF that] by (simp add: bt_get_in_set)
  ultimately show ?thesis
    using wf by (fastforce simp: abs_registry_def abs_entry_def bt_get_in_set)
qed

lemma distinct_series:
  assumes "registry_ok r" and "text_ok r"
  shows "distinct (map (\<lambda>(n, l, v). series_text n l) (samples r))"
proof -
  have "CHR ''{'' \<notin> set n" if "(n, l, v) \<in> set (samples r)" for n l v
    using that assms(2) by (auto simp: samples_def text_ok_def entry_ok_def name_ok_def)
  then have "inj_on (\<lambda>(n, l). series_text n l) (set (map (\<lambda>(n, l, v). (n, l)) (samples r)))"
    by (auto simp: inj_on_def series_text_inject split_def)
  then have "distinct (map (\<lambda>(n, l). series_text n l) (map (\<lambda>(n, l, v). (n, l)) (samples r)))"
    using distinct_samples [OF assms(1)] by (simp only: distinct_map)
  then show ?thesis by (simp add: comp_def split_def)
qed

text \<open>A registered counter can be decreased.\<close>

lemma counter_not_monotone:
  "snd (run reg_step registry_new
     [Register ''c'' [] Counter, CounterInc ''c'' (Fin False 5), CounterInc ''c'' (Fin True (-3)),
      GetValue ''c'']) =
   [Unit, Unit, Unit, Value (Some (Fin False 2))]"
  by (simp add: registry_new_def registry_defs registry_get_def entry_get_def bt_get_def float_eval)

subsection \<open>A line break in a help text\<close>

lemma bt_insert_new:
  assumes "bt_get m k = None"
  obtains xs ys where "m = xs @ ys" "bt_insert k v m = xs @ (k, v) # ys"
proof -
  have "\<exists>xs ys. m = xs @ ys \<and> bt_insert k v m = xs @ (k, v) # ys"
    using assms
  proof (induction m)
    case (Cons p m)
    obtain k' v' where p: "p = (k', v')" by (cases p)
    show ?case
    proof (cases "k < k'")
      case True
      then show ?thesis by (intro exI [of _ "[]"] exI [of _ "p # m"]) (simp add: p)
    next
      case False
      have "k \<noteq> k'" "bt_get m k = None" using Cons.prems by (auto simp: p bt_get_def split: if_splits)
      with Cons.IH obtain xs ys where "m = xs @ ys" "bt_insert k v m = xs @ (k, v) # ys" by blast
      with False \<open>k \<noteq> k'\<close> show ?thesis by (intro exI [of _ "p # xs"] exI [of _ ys]) (simp add: p)
    qed
  qed simp
  with that show ?thesis by blast
qed

lemma injected_lines:
  assumes "bt_get (metrics r) n = None" and "text_ok r" and "name_ok n"
    and "newline \<notin> set h" and "newline \<notin> set line" and "\<not> is_comment line"
  obtains before after where "read_samples (render_prometheus r) = before @ after"
    "read_samples (render_prometheus (register r n (h @ newline # line) t)) = before @ read_line line # after"
    "samples (register r n (h @ newline # line) t) = samples r"
proof -
  let ?e = "entry_new n (h @ newline # line) t"
  obtain xs ys where m: "metrics r = xs @ ys" "bt_insert n ?e (metrics r) = xs @ (n, ?e) # ys"
    using bt_insert_new [OF assms(1), where v = ?e] by blast
  let ?ls = "\<lambda>m. concat (map (entry_lines \<circ> snd) m)" and ?f = "filter (\<lambda>l. \<not> is_comment l)"
  let ?new = "[''# HELP '' @ n @ '' '' @ h, line, ''# TYPE '' @ n @ type_text t]"
  have reg: "register r n (h @ newline # line) t = r\<lparr>metrics := xs @ (n, ?e) # ys\<rparr>"
    using assms(1) m(2) by (simp add: register_def)
  have "entry_lines ?e = [(''# HELP '' @ n @ '' '' @ h) @ newline # line, ''# TYPE '' @ n @ type_text t]"
    by (simp add: entry_lines_def entry_new_def)
  then have rendered: "render_prometheus (register r n (h @ newline # line) t) = unlines (?ls xs @ ?new @ ?ls ys)"
    unfolding render_lines reg by (simp add: unlines_def)
  have plain: "\<forall>l\<in>set (?ls xs @ ?ls ys). newline \<notin> set l"
    using assms(2) entry_lines_plain by (auto simp: text_ok_def m(1))
  moreover have "\<forall>l\<in>set ?new. newline \<notin> set l"
    using assms(3-5) by (auto simp: name_ok_def type_text_def split: metric_type.split)
  ultimately have "lines (unlines (?ls xs @ ?new @ ?ls ys)) = ?ls xs @ ?new @ ?ls ys"
    by (intro lines_unlines) auto
  moreover have "lines (render_prometheus r) = ?ls xs @ ?ls ys"
    using lines_render [OF assms(2)] by (simp add: m(1))
  moreover have "samples (register r n (h @ newline # line) t) = samples r"
    by (simp add: reg samples_def m(1) entry_new_def)
  ultimately show ?thesis
    using assms(6) rendered
    by (intro that [of "map read_line (?f (?ls xs))" "map read_line (?f (?ls ys))"])
      (simp_all add: read_samples_def is_comment_def)
qed

subsection \<open>Properties\<close>

text \<open>C17. The registry refines a map from names to metrics: over any sequence of registrations,
  increments, settings and queries it answers as the map does. The first registration of a
  name wins, operations on unregistered names change nothing, and each label set of each metric
  has a value of its own.\<close>

theorem registry_refines_map:
  "run areg_step Map.empty ops =
     (abs_registry (fst (run reg_step registry_new ops)), snd (run reg_step registry_new ops))"
proof -
  have "abs_registry registry_new = Map.empty"
    by (simp add: abs_registry_def registry_new_def bt.get_emp)
  with registry_sim.run_sim [OF registry_new_ok, of ops] show ?thesis by simp
qed

text \<open>C16. The exported text splits back into its samples: when no name, help text or label set that
  was used breaks the line format, the sample lines are exactly one line per label set with a
  value, no series appears twice, and the samples are those of the registry.\<close>

theorem prometheus_samples:
  assumes "list_all op_ok ops"
  shows "let r = fst (run reg_step registry_new ops)
     in read_samples (render_prometheus r) =
          map (\<lambda>(n, l, v). (series_text n l, value_text v)) (samples r) \<and>
        distinct (map fst (read_samples (render_prometheus r))) \<and>
        set (samples r) =
          {(n, l, v). \<exists>h t vs. fst (run areg_step Map.empty ops) n = Some (h, t, vs) \<and> vs l = Some v}"
proof -
  let ?r = "fst (run reg_step registry_new ops)"
  have ok: "registry_ok ?r" by (rule registry.run_inv) (rule registry_new_ok)
  have lines: "text_ok ?r"
    by (rule text_ok_run [OF _ assms]) (simp add: text_ok_def registry_new_def)
  have read: "read_samples (render_prometheus ?r) =
      map (\<lambda>(n, l, v). (series_text n l, value_text v)) (samples ?r)"
    using lines by (rule read_samples_render)
  moreover have "distinct (map fst (read_samples (render_prometheus ?r)))"
    using distinct_series [OF ok lines] unfolding read by (simp add: comp_def split_def)
  moreover have "abs_registry registry_new = Map.empty"
    by (simp add: abs_registry_def registry_new_def bt.get_emp)
  then have "fst (run areg_step Map.empty ops) = abs_registry ?r"
    using registry_sim.run_sim [OF registry_new_ok, of ops] by simp
  ultimately show ?thesis using set_samples [OF ok] by (simp only: Let_def)
qed

lemma prometheus_samples_witness:
  "let r = fst (run reg_step registry_new
       [Register ''up'' ''is it up'' Gauge, GaugeSet ''up'' NaN, GaugeSetLabels ''up'' ''a=1'' NaN])
   in length (read_samples (render_prometheus r)) = length (samples r)"
  using prometheus_samples [of
      "[Register ''up'' ''is it up'' Gauge, GaugeSet ''up'' NaN, GaugeSetLabels ''up'' ''a=1'' NaN]"]
  by (simp add: Let_def name_ok_def)

text \<open>C14. An exported value reads back exactly: the decimal text of every finite binary64 value,
  whether printed as an integer or as the shortest decimal, rounds to that value.\<close>

theorem exported_value_exact:
  assumes "f64_ok (Fin s q)"
  shows "round64 (read_decimal (value_text (Fin s q))) = q"
  using assms by (rule value_text_reads_back)

lemma exported_value_exact_witness:
  "round64 (read_decimal (value_text (Fin False (pow2 (-1))))) = pow2 (-1)"
proof -
  have "on_grid (pow2 (-1))" by (rule on_grid_pow2) simp
  moreover have "\<bar>pow2 (-1)\<bar> < f64_limit" by (rule below_f64_limit) simp
  moreover have "0 < pow2 (-1)" by simp
  ultimately have "f64_ok (Fin False (pow2 (-1)))"
    unfolding f64_ok.simps by (metis abs_of_pos less_asym)
  then show ?thesis by (rule exported_value_exact)
qed

text \<open>C15. No shorter text would do: a value that is not printed as an integer is printed as the
  decimal \<open>d * 10 ^ e\<close> in positional notation, and no multiple of a larger power of ten reads back
  as that value.\<close>

theorem exported_value_shortest:
  assumes "f64_ok (Fin s q)" and "q \<noteq> 0"
    and "\<not> (feq (ffract (Fin s q)) (flit 0) \<and> flt (fabs (Fin s q)) (flit (10 ^ 15)))"
  shows "\<exists>d e. value_text (Fin s q) = (if q < 0 then ''-'' else []) @ plain_decimal d e \<and>
     round64 (of_nat d * 10 powi e) = \<bar>q\<bar> \<and>
     (\<forall>x n. e < x \<longrightarrow> round64 (of_int n * 10 powi x) \<noteq> \<bar>q\<bar>)"
proof -
  have grid: "on_grid \<bar>q\<bar>" "0 < \<bar>q\<bar>" "\<bar>q\<bar> < f64_limit" and s: "s = (q < 0)"
    using assms(1,2) by (auto simp: abs_if on_grid_neg)
  obtain d e where de: "shortest_decimal \<bar>q\<bar> = Some (d, e)" "round64 (of_nat d * 10 powi e) = \<bar>q\<bar>"
    using shortest_decimal_found [OF grid(1,2)] by blast
  have "value_text (Fin s q) = fmt_f64 (Fin s q)"
    using assms(3) by (simp only: value_text_def if_False)
  also have "\<dots> = (if q < 0 then ''-'' else []) @ plain_decimal d e"
    using assms(2) de(1) s by simp
  finally show ?thesis using de shortest_decimal_coarsest [OF grid de(1)] by blast
qed

lemma exported_value_shortest_witness:
  "\<exists>d e. value_text (Fin False (pow2 (-1))) = plain_decimal d e \<and>
     round64 (of_nat d * 10 powi e) = pow2 (-1)"
proof -
  have grid: "on_grid (pow2 (-1))" by (rule on_grid_pow2) simp
  moreover have "\<bar>pow2 (-1)\<bar> < f64_limit" by (rule below_f64_limit) simp
  moreover have pos: "0 < pow2 (-1)" by simp
  ultimately have ok: "f64_ok (Fin False (pow2 (-1)))"
    unfolding f64_ok.simps by (metis abs_of_pos less_asym)
  have "\<lfloor>pow2 (-1)\<rfloor> = 0" by (simp add: floor_eq_iff)
  then have "ffract (Fin False (pow2 (-1))) = round_fp (False \<and> \<not> False) (pow2 (-1) - 0)"
    by (simp add: ffract_def fsub_def trunc_def)
  moreover have "round64 (pow2 (-1) - 0) \<noteq> 0" using round64_grid [OF grid] pos by simp
  ultimately have "\<not> feq (ffract (Fin False (pow2 (-1)))) (flit 0)"
    by (simp only: feq_zero_iff flit_0 not_False_eq_True)
  then have "\<exists>d e. value_text (Fin False (pow2 (-1))) =
      (if pow2 (-1) < 0 then ''-'' else []) @ plain_decimal d e \<and>
      round64 (of_nat d * 10 powi e) = \<bar>pow2 (-1)\<bar> \<and>
      (\<forall>x n. e < x \<longrightarrow> round64 (of_int n * 10 powi x) \<noteq> \<bar>pow2 (-1)\<bar>)"
    using pos by (intro exported_value_shortest [OF ok]) auto
  then show ?thesis using pos by (metis abs_of_pos less_asym append_Nil)
qed

text \<open>C35. Nothing is escaped: a help text with a line break adds to the exported text a sample of its author's
  choice. After any well-behaved history, registering a new metric whose help text goes on after a line
  break with \<open>s v\<close> leaves the samples of the registry as they were, but a reader of the text finds one
  sample more: the series \<open>s\<close> with the value \<open>v\<close>.\<close>

theorem help_line_break_injects:
  assumes "list_all op_ok ops" and "bt_get (metrics (fst (run reg_step registry_new ops))) n = None"
    and "name_ok n" and "newline \<notin> set (h @ s @ v)" and "s \<noteq> []" and "hd s \<noteq> CHR ''#''" and "CHR '' '' \<notin> set v"
  shows "let r = fst (run reg_step registry_new ops);
       r' = fst (run reg_step r [Register n (h @ [newline] @ s @ '' '' @ v) t])
     in samples r' = samples r \<and>
        (\<exists>before after. read_samples (render_prometheus r) = before @ after \<and>
           read_samples (render_prometheus r') = before @ (s, v) # after)"
proof -
  let ?r = "fst (run reg_step registry_new ops)"
  have "text_ok ?r" by (rule text_ok_run [OF _ assms(1)]) (simp add: text_ok_def registry_new_def)
  moreover have "\<not> is_comment (s @ '' '' @ v)" using assms(5,6) by (cases s) (simp_all add: is_comment_def)
  moreover have "newline \<notin> set h" "newline \<notin> set (s @ '' '' @ v)" using assms(4) by simp_all
  ultimately obtain before after where "read_samples (render_prometheus ?r) = before @ after"
      "read_samples (render_prometheus (register ?r n (h @ newline # s @ '' '' @ v) t)) =
         before @ read_line (s @ '' '' @ v) # after"
      "samples (register ?r n (h @ newline # s @ '' '' @ v) t) = samples ?r"
    using injected_lines [OF assms(2) _ assms(3), of h "s @ '' '' @ v" t] by blast
  then show ?thesis by (simp add: Let_def read_line_eq [OF assms(7), simplified]) blast
qed

lemma help_line_break_injects_witness:
  "let r = fst (run reg_step registry_new [Register ''a'' (''x'' @ [newline] @ ''up'' @ '' '' @ ''1'') Gauge])
   in samples r = [] \<and> read_samples (render_prometheus r) = [(''up'', ''1'')]"
  using help_line_break_injects [of "[]" "''a''" "''x''" "''up''" "''1''" Gauge]
  by (auto simp: name_ok_def registry_new_def samples_def render_prometheus_def read_samples_def bt_get_def Let_def)

end
