(* ===== verification/Ingest.thy ===== *)
theory Ingest
  imports Queue_Bridge Device_Keys Telemetry
begin

text \<open>
  \<^verbatim>\<open>src/ingest.rs\<close>: the pipeline from a received packet to storage, cache, synchronisation, queue
  and telemetry. The crates it drives (\<^verbatim>\<open>alice_crypto\<close>, \<^verbatim>\<open>alice_db\<close>, \<^verbatim>\<open>alice_cache\<close>, \<^verbatim>\<open>alice_sync\<close>,
  \<^verbatim>\<open>alice_cdn\<close>, \<^verbatim>\<open>alice_analytics\<close>) are not part of the repository: their operations are the
  fields of the parameter record \<open>deps\<close>, and their objects are values of type variables. Each
  numbered step of \<^verbatim>\<open>process_packet\<close> is a definition of its own; the outer \<open>None\<close> is a panic,
  \<open>Inl\<close> an \<^verbatim>\<open>Err\<close>. The readings of the clock that the code takes on its way are an argument.
\<close>

subsection \<open>What the pipeline uses of other crates\<close>

type_synonym vec3 = "f32 \<times> f32 \<times> f32"

record duration =
  secs :: u64
  nanos :: u32

text \<open>\<^verbatim>\<open>Duration::as_millis() as u64\<close> and \<^verbatim>\<open>Duration::as_secs_f64()\<close>.\<close>

definition millis_u64 :: "duration \<Rightarrow> u64" where
  "millis_u64 d = of_nat (unat (secs d) * 1000 + unat (nanos d) div 1000000)"

definition secs_f64 :: "duration \<Rightarrow> f64" where
  "secs_f64 d = fadd (f64_of_u64 (secs d)) (fdiv (f64_of_u32 (nanos d)) (flit (10 ^ 9)))"

text \<open>The three readings of \<^verbatim>\<open>start.elapsed()\<close>: at the heartbeat, at the queue message, at the end.\<close>

record clock =
  at_heartbeat :: duration
  at_message :: duration
  at_end :: duration

text \<open>The fields of \<^verbatim>\<open>SdfRoutingStats\<close> that the gateway writes.\<close>

record routing_stats =
  total_requests :: u64
  cache_hits :: u64

record ('key, 'sdf, 'mc, 'cache, 'cdn, 'hub, 'dd, 'hll, 'cms, 'h) deps =
  derive_key :: "string \<Rightarrow> bytes \<Rightarrow> 'key"
  crypto_open :: "'key \<Rightarrow> bytes \<Rightarrow> string + bytes"
  sdf_open :: "string \<Rightarrow> vec3 \<Rightarrow> vec3 \<Rightarrow> string + 'sdf"
  store_keyframe :: "'sdf \<Rightarrow> 'mc \<Rightarrow> u32 \<Rightarrow> f32 \<Rightarrow> 'sdf \<times> (string + unit)"
  sdf_query :: "'sdf \<Rightarrow> vec3 \<Rightarrow> vec3 \<Rightarrow> string + ('mc \<times> f32) list"
  from_world :: "vec3 \<Rightarrow> vec3 \<Rightarrow> vec3 \<Rightarrow> 'mc"
  route_sdf_request :: "'cdn \<Rightarrow> 'mc \<Rightarrow> u64 option"
  cache_new :: "usize \<Rightarrow> 'cache"
  cache_get :: "'cache \<Rightarrow> u64 \<Rightarrow> 'cache \<times> bytes option"
  cache_put :: "'cache \<Rightarrow> u64 \<Rightarrow> bytes \<Rightarrow> 'cache"
  hub_new :: 'hub
  register_device :: "'hub \<Rightarrow> u64 \<Rightarrow> string \<Rightarrow> 'hub"
  heartbeat :: "'hub \<Rightarrow> u64 \<Rightarrow> u64 \<Rightarrow> 'hub"
  device_update :: "'hub \<Rightarrow> u64 \<Rightarrow> u32 \<Rightarrow> u64 \<Rightarrow> (rat \<times> rat \<times> rat) \<times> (rat \<times> rat \<times> rat) \<Rightarrow> 'hub \<times> u64 list"
  connected_devices :: "'hub \<Rightarrow> u64 list"
  stats_default :: routing_stats
  sk :: "('dd, 'hll, 'cms, 'h) sketches"

subsection \<open>Results, errors and the pipeline\<close>

record ingest_result =
  r_device_id :: u64
  r_is_keyframe :: bool
  r_scene_version :: u32
  r_sync_recipients :: usize
  r_cached :: bool
  r_cdn_node :: "u64 option"
  r_queue_index :: u32
  r_latency_ms :: f64

datatype ingest_error =
    UnknownDevice u64
  | DecryptionFailed string
  | MalformedPacket string
  | StorageError string

definition fmt_error :: "ingest_error \<Rightarrow> string" where
  "fmt_error err =
     (case err of
        UnknownDevice i \<Rightarrow> ''Unknown device: '' @ fmt_u64 i
      | DecryptionFailed msg \<Rightarrow> ''Decryption failed: '' @ msg
      | MalformedPacket msg \<Rightarrow> ''Malformed packet: '' @ msg
      | StorageError msg \<Rightarrow> ''Storage error: '' @ msg)"

record ('key, 'sdf, 'cache, 'cdn, 'hub, 'dd, 'hll, 'cms) pipeline =
  key_store :: "'key device_key_store"
  sdf_storage :: 'sdf
  frame_cache :: 'cache
  cdn_router :: "'cdn option"
  sync_hub :: 'hub
  queue_router :: gateway_router
  telemetry :: "('dd, 'hll, 'cms) gateway_telemetry"
  routing_stats :: routing_stats
  world_min :: vec3
  world_max :: vec3

definition pipeline_new ::
  "('key, 'sdf, 'mc, 'cache, 'cdn, 'hub, 'dd, 'hll, 'cms, 'h) deps
     \<Rightarrow> string \<Rightarrow> usize \<Rightarrow> bytes \<Rightarrow> vec3 \<Rightarrow> vec3
     \<Rightarrow> string + ('key, 'sdf, 'cache, 'cdn, 'hub, 'dd, 'hll, 'cms) pipeline" where
  "pipeline_new dp db_path cache_capacity secret wmin wmax =
     (case sdf_open dp (db_path @ ''/sdf'') wmin wmax of
        Inl e \<Rightarrow> Inl e
      | Inr sdf \<Rightarrow> Inr
          \<lparr>key_store = key_store_new secret, sdf_storage = sdf,
           frame_cache = cache_new dp cache_capacity, cdn_router = None, sync_hub = hub_new dp,
           queue_router = router_new 4, telemetry = telemetry_new (sk dp),
           routing_stats = stats_default dp, world_min = wmin, world_max = wmax\<rparr>)"

definition set_cdn_router where
  "set_cdn_router P router = P\<lparr>cdn_router := Some router\<rparr>"

subsection \<open>Decoding fields\<close>

text \<open>\<^verbatim>\<open>bs[i..i+n].try_into().map_err(|_| MalformedPacket(msg))\<close>.\<close>

definition field :: "nat \<Rightarrow> nat \<Rightarrow> string \<Rightarrow> bytes \<Rightarrow> (ingest_error + bytes) option" where
  "field i n msg bs =
     (case subslice i (i + n) bs of
        None \<Rightarrow> None
      | Some s \<Rightarrow> Some (case to_array n s of None \<Rightarrow> Inl (MalformedPacket msg) | Some a \<Rightarrow> Inr a))"

text \<open>The operator \<^verbatim>\<open>?\<close> in a function that returns a \<^verbatim>\<open>Result\<close>.\<close>

definition try_r :: "('e + 'a) option \<Rightarrow> ('a \<Rightarrow> ('e + 'b) option) \<Rightarrow> ('e + 'b) option" where
  "try_r x f =
     (case x of None \<Rightarrow> None | Some (Inl e) \<Rightarrow> Some (Inl e) | Some (Inr v) \<Rightarrow> f v)"

lemma try_r_simps [simp]:
  "try_r None f = None" "try_r (Some (Inl e)) f = Some (Inl e)" "try_r (Some (Inr v)) f = f v"
  by (simp_all add: try_r_def)

definition read_header :: "bytes \<Rightarrow> (ingest_error + u64 \<times> u32) option" where
  "read_header raw =
     (if length raw < 12 then Some (Inl (MalformedPacket ''Packet too short (< 12 bytes)''))
      else try_r (field 0 8 ''Invalid device_id field'' raw) (\<lambda>a.
           try_r (field 8 4 ''Invalid scene_version field'' raw) (\<lambda>b.
           Some (Inr (u64_from_le a, u32_from_le b)))))"

text \<open>A 32-bit float in little endian is its bit pattern.\<close>

definition read_center :: "bytes \<Rightarrow> (ingest_error + vec3) option" where
  "read_center d =
     (if 13 \<le> length d
      then try_r (field 1 4 ''Invalid cx field'' d) (\<lambda>cx.
           try_r (field 5 4 ''Invalid cy field'' d) (\<lambda>cy.
           try_r (field 9 4 ''Invalid cz field'' d) (\<lambda>cz.
           Some (Inr (u32_from_le cx, u32_from_le cy, u32_from_le cz)))))
      else Some (Inr (0, 0, 0)))"

definition read_sdf_value :: "bytes \<Rightarrow> (ingest_error + f32) option" where
  "read_sdf_value d =
     (if 17 \<le> length d
      then try_r (field 13 4 ''Invalid sdf_value field'' d) (\<lambda>a. Some (Inr (u32_from_le a)))
      else Some (Inr 0))"

definition is_keyframe_payload :: "bytes \<Rightarrow> bool" where
  "is_keyframe_payload d \<longleftrightarrow> d \<noteq> [] \<and> index d 0 = Some 0x01"

definition cache_key :: "u64 \<Rightarrow> u32 \<Rightarrow> u64" where
  "cache_key device_id scene_version = or (push_bit 32 device_id) (ucast scene_version)"

subsection \<open>The steps of \<open>process_packet\<close>\<close>

text \<open>Step 4: store a keyframe and route it to a CDN node.\<close>

definition store_and_route where
  "store_and_route dp P scene_version is_keyframe d =
     (if is_keyframe \<and> 1 < length d
      then (case read_center d of
          None \<Rightarrow> None
        | Some (Inl e) \<Rightarrow> Some (P, Inl e)
        | Some (Inr center) \<Rightarrow>
            let morton = from_world dp center (world_min P) (world_max P)
            in (case read_sdf_value d of
                None \<Rightarrow> None
              | Some (Inl e) \<Rightarrow> Some (P, Inl e)
              | Some (Inr sdf_value) \<Rightarrow>
                  let (sdf', stored) = store_keyframe dp (sdf_storage P) morton scene_version sdf_value;
                      P' = P\<lparr>sdf_storage := sdf'\<rparr>
                  in (case stored of
                      Inl msg \<Rightarrow> Some (P', Inl (StorageError msg))
                    | Inr _ \<Rightarrow>
                        Some (P', Inr (Option.bind (cdn_router P') (\<lambda>r. route_sdf_request dp r morton))))))
      else Some (P, Inr None))"

text \<open>Step 5: look up and replace the cached frame.\<close>

definition cache_frame where
  "cache_frame dp P device_id scene_version d =
     (let key = cache_key device_id scene_version;
          (c, hit) = cache_get dp (frame_cache P) key
      in (P\<lparr>frame_cache := cache_put dp c key d\<rparr>, hit \<noteq> None))"

text \<open>Step 6: register the device, heartbeat, and broadcast its update.\<close>

definition sync_device where
  "sync_device dp P ck device_id scene_version =
     (let hub = register_device dp (sync_hub P) device_id (''device-'' @ fmt_u64 device_id);
          hub = heartbeat dp hub device_id (millis_u64 (at_heartbeat ck));
          (hub, recipients) = device_update dp hub device_id scene_version (ucast scene_version)
             ((-10, -10, -10), (10, 10, 10))
      in (P\<lparr>sync_hub := hub\<rparr>, recipients))"

text \<open>Step 7: the queue of the message.\<close>

definition queue_message where
  "queue_message P ck device_id scene_version is_keyframe =
     (let msg = \<lparr>source_device_id = device_id, timestamp_ms = millis_u64 (at_message ck),
                 priority = (if is_keyframe then High else Normal), payload = [],
                 routing_key = scene_version\<rparr>;
          (q, i) = route_with_priority (queue_router P) msg
      in map_option (\<lambda>i. (P\<lparr>queue_router := q\<rparr>, i)) i)"

text \<open>Step 8: telemetry and routing statistics.\<close>

definition record_telemetry where
  "record_telemetry dp P device_id raw_len latency_ms is_keyframe =
     P\<lparr>telemetry := record_packet (sk dp) (telemetry P) device_id raw_len latency_ms is_keyframe\<rparr>"

definition count_request where
  "count_request P cache_hit =
     P\<lparr>routing_stats :=
         \<lparr>total_requests = total_requests (routing_stats P) + 1,
          cache_hits = (if cache_hit then cache_hits (routing_stats P) + 1
                        else cache_hits (routing_stats P))\<rparr>\<rparr>"

definition finish_packet where
  "finish_packet dp P ck raw device_id scene_version is_keyframe d cdn_node =
     (let (P3, cache_hit) = cache_frame dp P device_id scene_version d;
          (P4, recipients) = sync_device dp P3 ck device_id scene_version
      in case queue_message P4 ck device_id scene_version is_keyframe of
          None \<Rightarrow> None
        | Some (P5, queue_index) \<Rightarrow>
            let latency_ms = fmul (secs_f64 (at_end ck)) (flit 1000);
                P6 = record_telemetry dp P5 device_id (length raw) latency_ms is_keyframe;
                P7 = count_request P6 cache_hit
            in Some (P7, Inr
                 \<lparr>r_device_id = device_id, r_is_keyframe = is_keyframe, r_scene_version = scene_version,
                  r_sync_recipients = length recipients, r_cached = True, r_cdn_node = cdn_node,
                  r_queue_index = queue_index, r_latency_ms = latency_ms\<rparr>))"

definition process_packet ::
  "('key, 'sdf, 'mc, 'cache, 'cdn, 'hub, 'dd, 'hll, 'cms, 'h) deps
     \<Rightarrow> ('key, 'sdf, 'cache, 'cdn, 'hub, 'dd, 'hll, 'cms) pipeline \<Rightarrow> clock \<Rightarrow> bytes
     \<Rightarrow> (('key, 'sdf, 'cache, 'cdn, 'hub, 'dd, 'hll, 'cms) pipeline
          \<times> (ingest_error + ingest_result)) option" where
  "process_packet dp P ck raw =
     (case read_header raw of
        None \<Rightarrow> None
      | Some (Inl e) \<Rightarrow> Some (P, Inl e)
      | Some (Inr (device_id, scene_version)) \<Rightarrow>
          let (ks, stream_key) = derive_device_key (derive_key dp) (key_store P) device_id;
              P1 = P\<lparr>key_store := ks\<rparr>
          in (case subslice 12 (length raw) raw of
              None \<Rightarrow> None
            | Some sealed \<Rightarrow>
                (case crypto_open dp stream_key sealed of
                   Inl e \<Rightarrow> Some (P1, Inl (DecryptionFailed e))
                 | Inr d \<Rightarrow>
                     let is_keyframe = is_keyframe_payload d
                     in (case store_and_route dp P1 scene_version is_keyframe d of
                         None \<Rightarrow> None
                       | Some (P2, Inl e) \<Rightarrow> Some (P2, Inl e)
                       | Some (P2, Inr cdn_node) \<Rightarrow>
                           finish_packet dp P2 ck raw device_id scene_version is_keyframe d cdn_node))))"

subsection \<open>Queries\<close>

definition query_spatial_region where
  "query_spatial_region dp P rmin rmax =
     (case sdf_query dp (sdf_storage P) rmin rmax of
        Inl e \<Rightarrow> Inl (StorageError e) | Inr xs \<Rightarrow> Inr xs)"

definition get_cached_frame where
  "get_cached_frame dp P device_id scene_version =
     (let (c, r) = cache_get dp (frame_cache P) (cache_key device_id scene_version)
      in (P\<lparr>frame_cache := c\<rparr>, r))"

definition telemetry_snapshot where
  "telemetry_snapshot P = telemetry P"

definition routing_stats_of where
  "routing_stats_of P = routing_stats P"

definition connected_device_count where
  "connected_device_count dp P = length (connected_devices dp (sync_hub P))"

subsection \<open>Reading a packet never fails half-way\<close>

definition header_of :: "bytes \<Rightarrow> u64 \<times> u32" where
  "header_of raw = (u64_from_le (take 8 raw), u32_from_le (take 4 (drop 8 raw)))"

definition center_of :: "bytes \<Rightarrow> vec3" where
  "center_of d =
     (if 13 \<le> length d
      then (u32_from_le (take 4 (drop 1 d)), u32_from_le (take 4 (drop 5 d)), u32_from_le (take 4 (drop 9 d)))
      else (0, 0, 0))"

definition sdf_value_of :: "bytes \<Rightarrow> f32" where
  "sdf_value_of d = (if 17 \<le> length d then u32_from_le (take 4 (drop 13 d)) else 0)"

lemma field_ok: "i + n \<le> length bs \<Longrightarrow> field i n msg bs = Some (Inr (take n (drop i bs)))"
  by (simp add: field_def subslice_def to_array_def)

lemma read_header_eq:
  "read_header raw =
     Some (if length raw < 12 then Inl (MalformedPacket ''Packet too short (< 12 bytes)'')
           else Inr (header_of raw))"
  by (simp add: read_header_def field_ok header_of_def)

lemma read_center_eq: "read_center d = Some (Inr (center_of d))"
  by (simp add: read_center_def field_ok center_of_def)

lemma read_sdf_value_eq: "read_sdf_value d = Some (Inr (sdf_value_of d))"
  by (simp add: read_sdf_value_def field_ok sdf_value_of_def)

lemma is_keyframe_payload_eq: "is_keyframe_payload d \<longleftrightarrow> (\<exists>rest. d = 1 # rest)"
  by (cases d) (auto simp: is_keyframe_payload_def index_def)

text \<open>The payloads that are stored: keyframes with at least one byte of data.\<close>

definition stored_payload :: "bytes \<Rightarrow> bool" where
  "stored_payload d \<longleftrightarrow> is_keyframe_payload d \<and> 1 < length d"

definition morton_of where
  "morton_of dp P d = from_world dp (center_of d) (world_min P) (world_max P)"

definition store_call where
  "store_call dp P ver d = store_keyframe dp (sdf_storage P) (morton_of dp P d) ver (sdf_value_of d)"

definition stored_sdf where
  "stored_sdf dp P ver d = (if stored_payload d then fst (store_call dp P ver d) else sdf_storage P)"

definition cdn_target where
  "cdn_target dp P d =
     (if stored_payload d
      then Option.bind (cdn_router P) (\<lambda>r. route_sdf_request dp r (morton_of dp P d)) else None)"

lemma store_and_route_eq:
  "store_and_route dp P ver (is_keyframe_payload d) d =
     (case (if stored_payload d then snd (store_call dp P ver d) else Inr ()) of
        Inl msg \<Rightarrow> Some (P\<lparr>sdf_storage := stored_sdf dp P ver d\<rparr>, Inl (StorageError msg))
      | Inr _ \<Rightarrow> Some (P\<lparr>sdf_storage := stored_sdf dp P ver d\<rparr>, Inr (cdn_target dp P d)))"
  by (auto simp: store_and_route_def stored_payload_def read_center_eq read_sdf_value_eq store_call_def
      morton_of_def stored_sdf_def cdn_target_def Let_def split: prod.split sum.split)

subsection \<open>The verdict on a packet and the effect of an accepted one\<close>

definition device_key where
  "device_key dp secret device_id = derive_key dp (key_context device_id) secret"

definition verdict where
  "verdict dp secret P raw =
     (if length raw < 12 then Inl (MalformedPacket ''Packet too short (< 12 bytes)'')
      else let (dev, ver) = header_of raw
        in case crypto_open dp (device_key dp secret dev) (drop 12 raw) of
             Inl e \<Rightarrow> Inl (DecryptionFailed e)
           | Inr d \<Rightarrow>
               (case (if stored_payload d then snd (store_call dp P ver d) else Inr ()) of
                  Inl e \<Rightarrow> Inl (StorageError e)
                | Inr _ \<Rightarrow> Inr (dev, ver, d)))"

definition hub_calls where
  "hub_calls dp hub ck dev ver =
     device_update dp
       (heartbeat dp (register_device dp hub dev (''device-'' @ fmt_u64 dev)) dev (millis_u64 (at_heartbeat ck)))
       dev ver (ucast ver) ((-10, -10, -10), (10, 10, 10))"

definition cache_calls where
  "cache_calls dp c dev ver d =
     (let (c', hit) = cache_get dp c (cache_key dev ver)
      in (cache_put dp c' (cache_key dev ver) d, hit \<noteq> None))"

definition envelope where
  "envelope ck dev ver kf =
     \<lparr>source_device_id = dev, timestamp_ms = millis_u64 (at_message ck),
      priority = (if kf then High else Normal), payload = [], routing_key = ver\<rparr>"

definition latency_of :: "clock \<Rightarrow> f64" where
  "latency_of ck = fmul (secs_f64 (at_end ck)) (flit 1000)"

definition accepted_state where
  "accepted_state dp P ck raw dev ver d =
     P\<lparr>sdf_storage := stored_sdf dp P ver d,
       frame_cache := fst (cache_calls dp (frame_cache P) dev ver d),
       sync_hub := fst (hub_calls dp (sync_hub P) ck dev ver),
       queue_router := fst (route_with_priority (queue_router P) (envelope ck dev ver (is_keyframe_payload d))),
       telemetry := record_packet (sk dp) (telemetry P) dev (length raw) (latency_of ck) (is_keyframe_payload d),
       routing_stats :=
         \<lparr>total_requests = total_requests (routing_stats P) + 1,
          cache_hits = (if snd (cache_calls dp (frame_cache P) dev ver d)
                        then cache_hits (routing_stats P) + 1 else cache_hits (routing_stats P))\<rparr>\<rparr>"

definition accepted_result where
  "accepted_result dp P ck dev ver d =
     \<lparr>r_device_id = dev, r_is_keyframe = is_keyframe_payload d, r_scene_version = ver,
      r_sync_recipients = length (snd (hub_calls dp (sync_hub P) ck dev ver)), r_cached = True,
      r_cdn_node = cdn_target dp P d, r_queue_index = ver mod 4, r_latency_ms = latency_of ck\<rparr>"

lemma finish_packet_eq:
  assumes "queue_count (queue_router P) = 4"
  shows "finish_packet dp (P\<lparr>sdf_storage := stored_sdf dp P ver d\<rparr>) ck raw dev ver
           (is_keyframe_payload d) d (cdn_target dp P d) =
     Some (accepted_state dp P ck raw dev ver d, Inr (accepted_result dp P ck dev ver d))"
  using assms
  by (simp add: finish_packet_def cache_frame_def sync_device_def queue_message_def split_def Let_def
      record_telemetry_def count_request_def accepted_state_def accepted_result_def hub_calls_def
      cache_calls_def envelope_def latency_of_def route_with_priority_queue checked_rem_def)

text \<open>The pipeline's invariant: a sound key cache and the four queues.\<close>

definition pipeline_ok where
  "pipeline_ok dp secret P \<longleftrightarrow>
     key_store_ok (derive_key dp) secret (key_store P) \<and> queue_count (queue_router P) = 4"

definition keys_after where
  "keys_after dp P dev = P\<lparr>key_store := fst (derive_device_key (derive_key dp) (key_store P) dev)\<rparr>"

lemma keys_after_simps [simp]:
  "sdf_storage (keys_after dp P dev) = sdf_storage P" "frame_cache (keys_after dp P dev) = frame_cache P"
  "cdn_router (keys_after dp P dev) = cdn_router P" "sync_hub (keys_after dp P dev) = sync_hub P"
  "queue_router (keys_after dp P dev) = queue_router P" "telemetry (keys_after dp P dev) = telemetry P"
  "routing_stats (keys_after dp P dev) = routing_stats P"
  "world_min (keys_after dp P dev) = world_min P" "world_max (keys_after dp P dev) = world_max P"
  by (simp_all add: keys_after_def)

lemma keys_after_calls [simp]:
  "store_call dp (keys_after dp' P dev') ver d = store_call dp P ver d"
  "stored_sdf dp (keys_after dp' P dev') ver d = stored_sdf dp P ver d"
  "cdn_target dp (keys_after dp' P dev') d = cdn_target dp P d"
  by (simp_all add: store_call_def stored_sdf_def cdn_target_def morton_of_def)

definition packet_result where
  "packet_result dp secret P ck raw =
     (case verdict dp secret P raw of
        Inl (StorageError e) \<Rightarrow>
          (let (dev, ver) = header_of raw;
               d = projr (crypto_open dp (device_key dp secret dev) (drop 12 raw))
           in ((keys_after dp P dev)\<lparr>sdf_storage := stored_sdf dp P ver d\<rparr>, Inl (StorageError e)))
      | Inl (DecryptionFailed e) \<Rightarrow> (keys_after dp P (fst (header_of raw)), Inl (DecryptionFailed e))
      | Inl e \<Rightarrow> (P, Inl e)
      | Inr (dev, ver, d) \<Rightarrow>
          (accepted_state dp (keys_after dp P dev) ck raw dev ver d,
           Inr (accepted_result dp P ck dev ver d)))"

lemma process_packet_eq:
  assumes "pipeline_ok dp secret P"
  shows "process_packet dp P ck raw = Some (packet_result dp secret P ck raw)"
proof (cases "length raw < 12")
  case True
  then show ?thesis by (simp add: process_packet_def read_header_eq packet_result_def verdict_def)
next
  case False
  obtain dev ver where h: "header_of raw = (dev, ver)" by (cases "header_of raw")
  let ?o = "crypto_open dp (device_key dp secret dev) (drop 12 raw)"
  have key: "derive_device_key (derive_key dp) (key_store P) dev =
      (key_store (keys_after dp P dev), device_key dp secret dev)"
    using assms derive_key_value [of "derive_key dp" secret "key_store P" dev]
    by (simp add: prod_eq_iff pipeline_ok_def keys_after_def device_key_def)
  have queues: "queue_count (queue_router (keys_after dp P dev)) = 4"
    using assms by (simp add: pipeline_ok_def)
  have slice: "subslice 12 (length raw) raw = Some (drop 12 raw)"
    using False by (simp add: subslice_def)
  have keys: "P\<lparr>key_store := key_store (keys_after dp P dev)\<rparr> = keys_after dp P dev"
    by (simp add: keys_after_def)
  have result: "accepted_result dp (keys_after dp P dev) ck dev ver d = accepted_result dp P ck dev ver d" for d
    by (simp add: accepted_result_def)
  show ?thesis
  proof (cases ?o)
    case (Inl e)
    with False h key slice show ?thesis
      by (simp add: keys process_packet_def read_header_eq packet_result_def verdict_def)
  next
    case (Inr d)
    with False h key slice show ?thesis
      by (simp add: finish_packet_eq [OF queues, simplified] result keys process_packet_def read_header_eq packet_result_def verdict_def Let_def
          store_and_route_eq split: sum.split)
  qed
qed

subsection \<open>Histories of a pipeline\<close>

datatype 'cdn pipe_op = Packet clock bytes | SetRouter 'cdn | GetFrame u64 u32

datatype pipe_out = Panicked | Rejected ingest_error | Accepted ingest_result | RouterSet
  | Frame "bytes option"

fun pipe_step where
  "pipe_step dp P (Packet ck raw) =
     (case process_packet dp P ck raw of
        None \<Rightarrow> (P, Panicked)
      | Some (P', Inl e) \<Rightarrow> (P', Rejected e)
      | Some (P', Inr r) \<Rightarrow> (P', Accepted r))"
| "pipe_step dp P (SetRouter r) = (set_cdn_router P r, RouterSet)"
| "pipe_step dp P (GetFrame dev ver) =
     (let (P', f) = get_cached_frame dp P dev ver in (P', Frame f))"

lemma pipe_step_Packet:
  "pipeline_ok dp secret P \<Longrightarrow> pipe_step dp P (Packet ck raw) =
     (fst (packet_result dp secret P ck raw),
      case snd (packet_result dp secret P ck raw) of Inl e \<Rightarrow> Rejected e | Inr r \<Rightarrow> Accepted r)"
  by (simp add: process_packet_eq split_def split: sum.split)

lemma route_with_priority_frame: "queue_count (fst (route_with_priority q m)) = queue_count q"
  by simp

lemma packet_result_ok: "pipeline_ok dp secret P \<Longrightarrow> pipeline_ok dp secret (fst (packet_result dp secret P ck raw))"
  by (auto simp: packet_result_def pipeline_ok_def keys_after_def accepted_state_def split_def Let_def
      intro: derive_ok split: sum.split ingest_error.split)

lemma pipe_step_ok: "pipeline_ok dp secret P \<Longrightarrow> pipeline_ok dp secret (fst (pipe_step dp P e))"
proof (cases e)
  case (Packet ck raw)
  assume "pipeline_ok dp secret P"
  then show ?thesis unfolding Packet by (simp only: pipe_step_Packet fst_conv packet_result_ok)
qed (simp_all add: set_cdn_router_def get_cached_frame_def split_def Let_def pipeline_ok_def)

interpretation pipeline: invariant_machine "pipe_step dp" "pipeline_ok dp secret" for dp secret
  by unfold_locales (rule pipe_step_ok)

lemma pipeline_new_ok: "pipeline_new dp path cap secret lo hi = Inr P \<Longrightarrow> pipeline_ok dp secret P"
  by (auto simp: pipeline_new_def pipeline_ok_def key_store_new_ok router_new_def split: sum.splits)

lemma pipeline_run_ok:
  "pipeline_new dp path cap secret lo hi = Inr P \<Longrightarrow> pipeline_ok dp secret (fst (run (pipe_step dp) P ops))"
  by (rule pipeline.run_inv) (rule pipeline_new_ok)

subsection \<open>What is counted\<close>

fun accepted_weight :: "(ingest_result \<Rightarrow> nat) \<Rightarrow> 'op \<Rightarrow> pipe_out \<Rightarrow> nat" where
  "accepted_weight w e (Accepted r) = w r"
| "accepted_weight w e _ = 0"

fun packet_bytes :: "'cdn pipe_op \<Rightarrow> pipe_out \<Rightarrow> nat" where
  "packet_bytes (Packet ck raw) (Accepted r) = length raw"
| "packet_bytes _ _ = 0"

lemma counted_step:
  assumes "pipeline_ok dp secret P"
  shows "total_packets (telemetry (fst (pipe_step dp P e))) =
      total_packets (telemetry P) + of_nat (accepted_weight (\<lambda>r. 1) e (snd (pipe_step dp P e)))"
    and "keyframe_count (telemetry (fst (pipe_step dp P e))) =
      keyframe_count (telemetry P) + of_nat (accepted_weight (\<lambda>r. if r_is_keyframe r then 1 else 0) e (snd (pipe_step dp P e)))"
    and "total_bytes (telemetry (fst (pipe_step dp P e))) =
      total_bytes (telemetry P) + of_nat (packet_bytes e (snd (pipe_step dp P e)))"
    and "messages_routed (queue_router (fst (pipe_step dp P e))) =
      messages_routed (queue_router P) + of_nat (accepted_weight (\<lambda>r. 1) e (snd (pipe_step dp P e)))"
    and "bytes_routed (queue_router (fst (pipe_step dp P e))) =
      bytes_routed (queue_router P) + of_nat (accepted_weight (\<lambda>r. 0) e (snd (pipe_step dp P e)))"
    and "total_requests (routing_stats (fst (pipe_step dp P e))) =
      total_requests (routing_stats P) + of_nat (accepted_weight (\<lambda>r. 1) e (snd (pipe_step dp P e)))"
  by (atomize (full), cases e)
    (auto simp: pipe_step_Packet [OF assms(1)] packet_result_def accepted_state_def keys_after_def
      accepted_result_def record_packet_def u64_of_bool_def route_with_priority_def route_count_def
      envelope_def set_cdn_router_def get_cached_frame_def split_def Let_def
      simp del: pipe_step.simps(1) split: sum.split ingest_error.split)

interpretation packets_counted: guarded_tally "pipe_step dp" "pipeline_ok dp secret"
    "\<lambda>P. total_packets (telemetry P)" "accepted_weight (\<lambda>r. 1)" for dp secret
  by unfold_locales (rule counted_step(1))

interpretation keyframes_counted: guarded_tally "pipe_step dp" "pipeline_ok dp secret"
    "\<lambda>P. keyframe_count (telemetry P)" "accepted_weight (\<lambda>r. if r_is_keyframe r then 1 else 0)"
  for dp secret
  by unfold_locales (rule counted_step(2))

interpretation bytes_counted: guarded_tally "pipe_step dp" "pipeline_ok dp secret"
    "\<lambda>P. total_bytes (telemetry P)" packet_bytes for dp secret
  by unfold_locales (rule counted_step(3))

interpretation messages_counted: guarded_tally "pipe_step dp" "pipeline_ok dp secret"
    "\<lambda>P. messages_routed (queue_router P)" "accepted_weight (\<lambda>r. 1)" for dp secret
  by unfold_locales (rule counted_step(4))

interpretation payloads_counted: guarded_tally "pipe_step dp" "pipeline_ok dp secret"
    "\<lambda>P. bytes_routed (queue_router P)" "accepted_weight (\<lambda>r. 0)" for dp secret
  by unfold_locales (rule counted_step(5))

interpretation requests_counted: guarded_tally "pipe_step dp" "pipeline_ok dp secret"
    "\<lambda>P. total_requests (routing_stats P)" "accepted_weight (\<lambda>r. 1)" for dp secret
  by unfold_locales (rule counted_step(6))

subsection \<open>Cache keys\<close>

lemma cache_key_bits:
  "bit (cache_key dev ver) n \<longleftrightarrow> (if n < 32 then bit ver n else n < 64 \<and> bit dev (n - 32))"
  using bit_imp_le_length [of ver n]
  by (auto simp: cache_key_def bit_or_iff bit_push_bit_iff bit_ucast_iff)

lemma cache_key_eq_iff:
  "cache_key dev ver = cache_key dev' ver' \<longleftrightarrow> ver = ver' \<and> (ucast dev :: u32) = ucast dev'"
proof
  assume eq: "cache_key dev ver = cache_key dev' ver'"
  have bits: "bit (cache_key dev ver) n = bit (cache_key dev' ver') n" for n by (simp add: eq)
  have "bit ver n = bit ver' n" if "n < 32" for n
    using bits [of n] that by (simp add: cache_key_bits)
  moreover have "bit dev n = bit dev' n" if "n < 32" for n
    using bits [of "n + 32"] that by (simp add: cache_key_bits)
  ultimately show "ver = ver' \<and> (ucast dev :: u32) = ucast dev'"
    by (auto intro!: bit_word_eqI simp: bit_ucast_iff)
next
  assume eq: "ver = ver' \<and> (ucast dev :: u32) = ucast dev'"
  have "bit dev n = bit dev' n" if "n < 32" for n
  proof -
    have "bit (ucast dev :: u32) n = bit (ucast dev' :: u32) n" using eq by simp
    with that show ?thesis by (simp add: bit_ucast_iff)
  qed
  with eq show "cache_key dev ver = cache_key dev' ver'"
    by (intro bit_word_eqI) (auto simp: cache_key_bits)
qed

lemma ucast_u32_eq_iff: "(ucast d :: u32) = ucast d' \<longleftrightarrow> unat d mod 2 ^ 32 = unat d' mod 2 ^ 32" for d d' :: u64
  by (simp add: word_unat_eq_iff unsigned_ucast_eq take_bit_eq_mod)

text \<open>A cache that returns what was put last.\<close>

definition cache_keeps where
  "cache_keeps dp \<longleftrightarrow> (\<forall>c k v. snd (cache_get dp (cache_put dp c k v) k) = Some v)"

text \<open>One that also returns nothing that was never put.\<close>

definition cache_honest where
  "cache_honest dp \<longleftrightarrow> cache_keeps dp \<and>
     (\<forall>n k. snd (cache_get dp (cache_new dp n) k) = None) \<and>
     (\<forall>c k v k'. k' \<noteq> k \<and> snd (cache_get dp c k') = None \<longrightarrow>
        snd (cache_get dp (cache_put dp c k v) k') = None) \<and>
     (\<forall>c k k'. snd (cache_get dp (fst (cache_get dp c k)) k') = snd (cache_get dp c k'))"

text \<open>A storage that never reports an error.\<close>

definition storage_accepts where
  "storage_accepts dp \<longleftrightarrow> (\<forall>s m ver v. snd (store_keyframe dp s m ver v) = Inr ())"

lemma cached_after_accept:
  assumes "cache_keeps dp" and "cache_key dev' ver' = cache_key dev ver"
  shows "snd (get_cached_frame dp (accepted_state dp P ck raw dev ver d) dev' ver') = Some d"
  using assms
  by (simp add: get_cached_frame_def accepted_state_def cache_calls_def cache_keeps_def split_def Let_def)

subsection \<open>An instance of the foreign operations\<close>

text \<open>Keys are the derivation inputs, a sealed text is the key followed by the plain text, stores
  keep everything.\<close>

definition demo_key :: "string \<Rightarrow> bytes \<Rightarrow> bytes" where
  "demo_key ctx secret = map of_char ctx @ secret"

definition demo_seal :: "bytes \<Rightarrow> bytes \<Rightarrow> bytes option" where
  "demo_seal k m = Some (k @ m)"

definition demo_deps ::
  "(bytes, (vec3 \<times> u32 \<times> f32) list, vec3, (u64 \<times> bytes) list, u64, u64 list,
    f64 list, u64 list, u64 list, u64) deps" where
  "demo_deps =
     \<lparr>derive_key = demo_key,
      crypto_open = \<lambda>k s. if take (length k) s = k then Inr (drop (length k) s) else Inl ''AuthenticationFailed'',
      sdf_open = \<lambda>path lo hi. Inr [],
      store_keyframe = \<lambda>s m ver v. (s @ [(m, ver, v)], Inr ()),
      sdf_query = \<lambda>s lo hi. Inr (map (\<lambda>(m, ver, v). (m, v)) s),
      from_world = \<lambda>c lo hi. c, route_sdf_request = \<lambda>r m. Some r,
      cache_new = \<lambda>n. [], cache_get = \<lambda>c k. (c, map_of c k), cache_put = \<lambda>c k v. (k, v) # c,
      hub_new = [], register_device = \<lambda>h d name. List.insert d h, heartbeat = \<lambda>h d ms. h,
      device_update = \<lambda>h d ver wh region. (h, remove1 d h), connected_devices = \<lambda>h. h,
      stats_default = \<lparr>total_requests = 0, cache_hits = 0\<rparr>, sk = exact_sketches\<rparr>"

definition demo_pipeline where
  "demo_pipeline = projr (pipeline_new demo_deps ''db'' 10 (replicate 32 42) (0, 0, 0) (0, 0, 0))"

lemma demo_pipeline_new:
  "pipeline_new demo_deps ''db'' 10 (replicate 32 42) (0, 0, 0) (0, 0, 0) = Inr demo_pipeline"
  by (simp add: demo_pipeline_def pipeline_new_def demo_deps_def)

lemma demo_open_seal: "demo_seal k m = Some s \<Longrightarrow> crypto_open demo_deps k s = Inr m"
  by (auto simp: demo_seal_def demo_deps_def)

lemma demo_store: "snd (store_keyframe demo_deps s m ver v) = Inr ()"
  by (simp add: demo_deps_def)

lemma demo_storage_accepts: "storage_accepts demo_deps"
  by (simp add: storage_accepts_def demo_store)

lemma demo_cache_keeps: "cache_keeps demo_deps"
  by (simp add: cache_keeps_def demo_deps_def)

lemma demo_cache_honest: "cache_honest demo_deps"
  using demo_cache_keeps by (simp add: cache_honest_def) (simp add: demo_deps_def)

definition demo_clock :: clock where
  "demo_clock = (let z = \<lparr>secs = 0, nanos = 0\<rparr> in \<lparr>at_heartbeat = z, at_message = z, at_end = z\<rparr>)"

subsection \<open>Building packets\<close>

definition packet_for :: "u64 \<Rightarrow> u32 \<Rightarrow> bytes \<Rightarrow> bytes" where
  "packet_for dev ver sealed = u64_to_le dev @ u32_to_le ver @ sealed"

text \<open>The packet of the repository's tests: a type byte, a position at the origin and eight bytes
  of data, sealed under the device's key (\<open>None\<close> is the panic of \<^verbatim>\<open>unwrap\<close>).\<close>

definition test_payload :: "bool \<Rightarrow> bytes" where
  "test_payload is_keyframe =
     (if is_keyframe then 0x01 else 0x02) # u32_to_le 0 @ u32_to_le 0 @ u32_to_le 0 @ [1, 2, 3, 4, 5, 6, 7, 8]"

definition make_test_packet where
  "make_test_packet dp seal dev ver is_keyframe =
     (let (ks, key) = derive_device_key (derive_key dp) (key_store_new (replicate 32 42)) dev
      in map_option (packet_for dev ver) (seal key (test_payload is_keyframe)))"

lemma header_of_packet: "header_of (packet_for dev ver s) = (dev, ver)" "drop 12 (packet_for dev ver s) = s"
    "length (packet_for dev ver s) = 12 + length s"
  by (simp_all add: header_of_def packet_for_def le64.length_enc le32.length_enc le64.dec_enc le32.dec_enc)

lemma verdict_of_packet:
  assumes "crypto_open dp (device_key dp secret dev) s = Inr d"
    and "stored_payload d \<Longrightarrow> snd (store_call dp P ver d) = Inr ()"
  shows "verdict dp secret P (packet_for dev ver s) = Inr (dev, ver, d)"
  using assms by (simp add: verdict_def header_of_packet split: sum.split)

lemma test_packet_key:
  "make_test_packet dp seal dev ver kf =
     map_option (packet_for dev ver) (seal (device_key dp (replicate 32 42) dev) (test_payload kf))"
  using derive_key_value [OF key_store_new_ok, of "derive_key dp" "replicate 32 42" dev]
  by (simp add: make_test_packet_def device_key_def split_def)

lemma verdict_not_unknown: "verdict dp secret P raw \<noteq> Inl (UnknownDevice d)"
  by (simp add: verdict_def split_def Let_def split: sum.split)

lemma verdict_cases:
  obtains m where "verdict dp secret P raw = Inl (MalformedPacket m)"
    | m where "verdict dp secret P raw = Inl (DecryptionFailed m)"
    | m where "verdict dp secret P raw = Inl (StorageError m)"
    | x where "verdict dp secret P raw = Inr x"
proof (cases "verdict dp secret P raw")
  case (Inl e)
  then show ?thesis using that verdict_not_unknown [of dp secret P raw] by (cases e) auto
qed (rule that(4))

lemma packet_result_Inl:
  assumes "snd (packet_result dp secret P ck raw) = Inl e"
  shows "\<exists>ks sdf. fst (packet_result dp secret P ck raw) = P\<lparr>key_store := ks, sdf_storage := sdf\<rparr> \<and>
      ((\<exists>msg. e = StorageError msg) \<or> sdf = sdf_storage P) \<and> (\<forall>d. e \<noteq> UnknownDevice d)"
proof -
  obtain dev ver where h: "header_of raw = (dev, ver)" by (cases "header_of raw")
  show ?thesis
  proof (cases rule: verdict_cases [of dp secret P raw])
    case 1
    with assms show ?thesis
      by (intro exI [of _ "key_store P"] exI [of _ "sdf_storage P"]) (auto simp: packet_result_def)
  next
    case (2 m)
    then have "fst (packet_result dp secret P ck raw) =
        P\<lparr>key_store := key_store (keys_after dp P dev), sdf_storage := sdf_storage P\<rparr>"
      by (simp add: packet_result_def keys_after_def h)
    moreover have "e = DecryptionFailed m" using assms 2 by (simp add: packet_result_def)
    ultimately show ?thesis by blast
  next
    case (3 m)
    let ?d = "projr (crypto_open dp (device_key dp secret dev) (drop 12 raw))"
    have "fst (packet_result dp secret P ck raw) =
        P\<lparr>key_store := key_store (keys_after dp P dev), sdf_storage := stored_sdf dp P ver ?d\<rparr>"
      using 3 by (simp add: packet_result_def keys_after_def h)
    moreover have "e = StorageError m" using assms 3 by (simp add: packet_result_def h)
    ultimately show ?thesis by blast
  next
    case 4
    with assms show ?thesis by (simp add: packet_result_def split_def)
  qed
qed

lemma packet_result_Inr:
  assumes "snd (packet_result dp secret P ck raw) = Inr r"
  obtains dev ver d where "verdict dp secret P raw = Inr (dev, ver, d)"
    and "header_of raw = (dev, ver)"
    and "crypto_open dp (device_key dp secret dev) (drop 12 raw) = Inr d"
    and "r = accepted_result dp P ck dev ver d"
    and "fst (packet_result dp secret P ck raw) = accepted_state dp (keys_after dp P dev) ck raw dev ver d"
proof -
  obtain dev ver d where v: "verdict dp secret P raw = Inr (dev, ver, d)"
    using assms by (auto simp: packet_result_def split_def Let_def split: sum.splits ingest_error.splits)
  moreover from v have "header_of raw = (dev, ver)"
      "crypto_open dp (device_key dp secret dev) (drop 12 raw) = Inr d"
    by (auto simp: verdict_def split_def Let_def split: if_splits sum.splits)
  ultimately show ?thesis using assms that by (simp add: packet_result_def)
qed

lemma accepted_weight_const: "accepted_weight (\<lambda>r. 0) e x = 0"
  by (cases x) simp_all

subsection \<open>Properties\<close>

text \<open>C1. The verdict on a packet. At any point of any history \<open>process_packet\<close> returns, without
  panicking, and its answer is fixed by the packet, the master secret and the storage: too short,
  not decryptable under the key derived for the device the header names (whatever the key
  cache holds), not storable, or else accepted for exactly that device and scene version, with
  the queue \<open>scene_version mod 4\<close>, the recipients of the hub and the CDN node of the keyframe's cell.\<close>

theorem packet_verdict:
  assumes "pipeline_new dp path cap secret lo hi = Inr P0"
  shows "let P = fst (run (pipe_step dp) P0 ops)
     in \<exists>P'. process_packet dp P ck raw = Some (P',
          case verdict dp secret P raw of
            Inl e \<Rightarrow> Inl e
          | Inr (dev, ver, d) \<Rightarrow> Inr (accepted_result dp P ck dev ver d))"
proof -
  let ?P = "fst (run (pipe_step dp) P0 ops)"
  have "snd (packet_result dp secret ?P ck raw) =
      (case verdict dp secret ?P raw of Inl e \<Rightarrow> Inl e
       | Inr (dev, ver, d) \<Rightarrow> Inr (accepted_result dp ?P ck dev ver d))"
    by (auto simp: packet_result_def split_def Let_def split: sum.split ingest_error.split)
  then show ?thesis
    unfolding Let_def process_packet_eq [OF pipeline_run_ok [OF assms]] by (metis prod.collapse)
qed

lemma packet_verdict_witness:
  "\<exists>P'. process_packet demo_deps demo_pipeline demo_clock [1, 2, 3] =
     Some (P', Inl (MalformedPacket ''Packet too short (< 12 bytes)''))"
  using packet_verdict [OF demo_pipeline_new, of "[]" demo_clock "[1, 2, 3]"]
  by (simp add: verdict_def)

text \<open>C5. A rejected packet leaves no trace: cache, hub, queue, telemetry, statistics and CDN
  router are as before, the storage too unless it reported the error itself; only the key cache
  may have gained the derived key. \<open>UnknownDevice\<close> is never the reason.\<close>

theorem rejection_leaves_no_trace:
  assumes "pipeline_new dp path cap secret lo hi = Inr P0"
    and "process_packet dp (fst (run (pipe_step dp) P0 ops)) ck raw = Some (P', Inl e)"
  shows "\<exists>ks sdf. P' = (fst (run (pipe_step dp) P0 ops))\<lparr>key_store := ks, sdf_storage := sdf\<rparr> \<and>
     ((\<exists>msg. e = StorageError msg) \<or> sdf = sdf_storage (fst (run (pipe_step dp) P0 ops))) \<and>
     (\<forall>d. e \<noteq> UnknownDevice d)"
proof -
  let ?P = "fst (run (pipe_step dp) P0 ops)"
  have "packet_result dp secret ?P ck raw = (P', Inl e)"
    using assms(2) process_packet_eq [OF pipeline_run_ok [OF assms(1)], of ops ck raw] by simp
  with packet_result_Inl [of dp secret ?P ck raw e] show ?thesis by simp
qed

lemma rejection_leaves_no_trace_witness:
  "\<exists>ks sdf. fst (the (process_packet demo_deps demo_pipeline demo_clock (replicate 12 0))) =
     demo_pipeline\<lparr>key_store := ks, sdf_storage := sdf\<rparr>"
proof -
  let ?x = "process_packet demo_deps demo_pipeline demo_clock (replicate 12 0)"
  have "snd (packet_result demo_deps (replicate 32 42) demo_pipeline demo_clock (replicate 12 0)) =
      Inl (DecryptionFailed ''AuthenticationFailed'')"
    by (simp add: packet_result_def verdict_def header_of_def device_key_def demo_deps_def demo_key_def
        key_context_def)
  moreover have eq: "?x = Some (packet_result demo_deps (replicate 32 42) demo_pipeline demo_clock (replicate 12 0))"
    by (rule process_packet_eq [OF pipeline_new_ok [OF demo_pipeline_new]])
  ultimately have "?x = Some (fst (the ?x), Inl (DecryptionFailed ''AuthenticationFailed''))"
    by (metis option.sel prod.collapse)
  with rejection_leaves_no_trace [OF demo_pipeline_new, of "[]" demo_clock "replicate 12 0" "fst (the ?x)"]
  show ?thesis unfolding run.simps(1) fst_conv by blast
qed

text \<open>Packets built as the repository's tests build them are accepted: if opening undoes sealing
  and the storage works, the packet is processed at any point of any history, for the device and
  the scene version it was built for, as a keyframe exactly when it was built as one.\<close>

theorem test_packet_accepted:
  assumes "pipeline_new dp path cap (replicate 32 42) lo hi = Inr P0"
    and "\<And>k m s. seal k m = Some s \<Longrightarrow> crypto_open dp k s = Inr m"
    and "\<And>s m ver v. snd (store_keyframe dp s m ver v) = Inr ()"
    and "make_test_packet dp seal dev ver kf = Some raw"
  shows "\<exists>P' r. process_packet dp (fst (run (pipe_step dp) P0 ops)) ck raw = Some (P', Inr r) \<and>
     r_device_id r = dev \<and> r_scene_version r = ver \<and> r_is_keyframe r = kf \<and>
     r_queue_index r = ver mod 4 \<and> r_cached r"
proof -
  let ?P = "fst (run (pipe_step dp) P0 ops)" and ?d = "test_payload kf"
  obtain s where s: "seal (device_key dp (replicate 32 42) dev) ?d = Some s" "raw = packet_for dev ver s"
    using assms(4) by (auto simp: test_packet_key)
  have "verdict dp (replicate 32 42) ?P raw = Inr (dev, ver, ?d)"
    unfolding s(2) by (rule verdict_of_packet) (simp_all add: assms(2) [OF s(1)] store_call_def assms(3))
  moreover have "is_keyframe_payload ?d \<longleftrightarrow> kf"
    by (simp add: is_keyframe_payload_eq test_payload_def)
  ultimately show ?thesis
    using process_packet_eq [OF pipeline_run_ok [OF assms(1)], of ops ck raw]
    by (simp add: packet_result_def accepted_result_def)
qed

lemma test_packet_accepted_witness:
  "\<exists>P' r. process_packet demo_deps demo_pipeline demo_clock
     (the (make_test_packet demo_deps demo_seal 7 3 True)) = Some (P', Inr r) \<and> r_queue_index r = 3"
proof -
  have "make_test_packet demo_deps demo_seal 7 3 True = Some (the (make_test_packet demo_deps demo_seal 7 3 True))"
    by (simp add: test_packet_key demo_seal_def)
  from test_packet_accepted [OF demo_pipeline_new demo_open_seal demo_store this, of "[]" demo_clock]
  show ?thesis by auto
qed

text \<open>Two frames share a cache slot exactly when their scene versions are equal and their device
  identifiers agree modulo \<open>2 ^ 32\<close>: the upper half of the identifier is shifted out of the key.\<close>

theorem cache_key_collisions:
  "cache_key dev ver = cache_key dev' ver' \<longleftrightarrow> ver = ver' \<and> unat dev mod 2 ^ 32 = unat dev' mod 2 ^ 32"
  unfolding cache_key_eq_iff ucast_u32_eq_iff ..

text \<open>C19. Reading back an accepted frame: with a cache that returns what was put last, the frame is
  served for the accepted device and version, and also for every other device whose identifier
  has the same lower 32 bits, although that device never sent it.\<close>

theorem accepted_frame_served:
  assumes "pipeline_new dp path cap secret lo hi = Inr P0" and "cache_keeps dp"
    and "process_packet dp (fst (run (pipe_step dp) P0 ops)) ck raw = Some (P', Inr r)"
    and "unat dev' mod 2 ^ 32 = unat (r_device_id r) mod 2 ^ 32"
  shows "\<exists>d. crypto_open dp (device_key dp secret (r_device_id r)) (drop 12 raw) = Inr d \<and>
     snd (get_cached_frame dp P' dev' (r_scene_version r)) = Some d"
proof -
  let ?P = "fst (run (pipe_step dp) P0 ops)"
  have res: "packet_result dp secret ?P ck raw = (P', Inr r)"
    using assms(3) process_packet_eq [OF pipeline_run_ok [OF assms(1)], of ops ck raw] by simp
  then have "snd (packet_result dp secret ?P ck raw) = Inr r" by simp
  then obtain dev ver d where d: "crypto_open dp (device_key dp secret dev) (drop 12 raw) = Inr d"
    "r = accepted_result dp ?P ck dev ver d"
    "fst (packet_result dp secret ?P ck raw) = accepted_state dp (keys_after dp ?P dev) ck raw dev ver d"
    by (rule packet_result_Inr)
  have ids: "r_device_id r = dev" "r_scene_version r = ver" by (simp_all add: d(2) accepted_result_def)
  then have "cache_key dev' ver = cache_key dev ver"
    using assms(4) by (simp add: cache_key_eq_iff ucast_u32_eq_iff)
  from cached_after_accept [OF assms(2) this, of "keys_after dp ?P dev" ck raw d] d res ids
  show ?thesis by simp
qed

lemma accepted_frame_served_witness:
  "\<exists>P' r. process_packet demo_deps demo_pipeline demo_clock
       (the (make_test_packet demo_deps demo_seal 7 3 True)) = Some (P', Inr r) \<and>
     snd (get_cached_frame demo_deps P' 0x100000007 3) = Some (test_payload True)"
proof -
  let ?raw = "the (make_test_packet demo_deps demo_seal 7 3 True)"
  have raw: "?raw = packet_for 7 3 (demo_key (key_context 7) (replicate 32 42) @ test_payload True)"
    by (simp add: test_packet_key demo_seal_def device_key_def demo_deps_def)
  let ?s = "demo_key (key_context 7) (replicate 32 42) @ test_payload True"
  have open': "crypto_open demo_deps (device_key demo_deps (replicate 32 42) 7) ?s = Inr (test_payload True)"
    by (rule demo_open_seal) (simp add: demo_seal_def device_key_def demo_deps_def)
  have v: "verdict demo_deps (replicate 32 42) demo_pipeline ?raw = Inr (7, 3, test_payload True)"
    unfolding raw by (rule verdict_of_packet) (simp_all add: open' store_call_def demo_store)
  obtain P' r where p: "process_packet demo_deps demo_pipeline demo_clock ?raw = Some (P', Inr r)"
      "r_device_id r = 7" "r_scene_version r = 3"
    using process_packet_eq [OF pipeline_new_ok [OF demo_pipeline_new], of demo_clock ?raw] v
    by (simp add: packet_result_def accepted_result_def)
  have "\<exists>d. crypto_open demo_deps (device_key demo_deps (replicate 32 42) 7) (drop 12 ?raw) = Inr d \<and>
      snd (get_cached_frame demo_deps P' 0x100000007 3) = Some d"
    using accepted_frame_served [OF demo_pipeline_new demo_cache_keeps,
        where ops = "[]" and ck = demo_clock and raw = ?raw and P' = P' and r = r and dev' = "0x100000007"]
      p by simp
  then show ?thesis using p open' by (simp add: raw header_of_packet)
qed

text \<open>C23. The counters of the pipeline agree: after any history the packets counted by telemetry, the
  requests of the routing statistics and the messages of the queue router are all the number of
  accepted packets, the keyframes and bytes those of the accepted packets; the router never
  counts a payload byte, because the messages carry none.\<close>

theorem counters_agree:
  assumes "pipeline_new dp path cap secret lo hi = Inr P0"
  shows "let (P, outs) = run (pipe_step dp) P0 ops;
       accepted = sum_list (map2 (accepted_weight (\<lambda>r. 1)) ops outs)
     in total_packets (telemetry P) = of_nat accepted \<and>
        messages_routed (queue_router P) = of_nat accepted \<and>
        total_requests (routing_stats P) = total_requests (stats_default dp) + of_nat accepted \<and>
        keyframe_count (telemetry P) =
          of_nat (sum_list (map2 (accepted_weight (\<lambda>r. if r_is_keyframe r then 1 else 0)) ops outs)) \<and>
        total_bytes (telemetry P) = of_nat (sum_list (map2 packet_bytes ops outs)) \<and>
        bytes_routed (queue_router P) = 0"
proof -
  have ok: "pipeline_ok dp secret P0" using assms by (rule pipeline_new_ok)
  have start: "total_packets (telemetry P0) = 0" "keyframe_count (telemetry P0) = 0"
      "total_bytes (telemetry P0) = 0" "messages_routed (queue_router P0) = 0"
      "bytes_routed (queue_router P0) = 0" "total_requests (routing_stats P0) = total_requests (stats_default dp)"
    using assms by (auto simp: pipeline_new_def telemetry_new_def router_new_def split: sum.splits)
  show ?thesis
    unfolding split_def Let_def packets_counted.run_weight [OF ok] keyframes_counted.run_weight [OF ok]
      bytes_counted.run_weight [OF ok] messages_counted.run_weight [OF ok] requests_counted.run_weight [OF ok]
      payloads_counted.run_weight [OF ok] start
    by (simp add: accepted_weight_const)
qed

lemma counters_agree_witness:
  "total_packets (telemetry (fst (run (pipe_step demo_deps) demo_pipeline [Packet demo_clock [1]]))) = 0"
  using counters_agree [OF demo_pipeline_new, of "[Packet demo_clock [1]]"]
  by (simp add: split_def Let_def process_packet_eq [OF pipeline_new_ok [OF demo_pipeline_new]]
      packet_result_def verdict_def)

end
