(* ===== verification/Concurrent_Ingest.thy ===== *)
theory Concurrent_Ingest
  imports Ingest
begin

text \<open>
  The packets are processed by concurrent tasks on one shared pipeline (\<^verbatim>\<open>src/main.rs\<close> spawns one
  per datagram). A task is \<open>process_packet\<close> cut where other tasks may intervene: one action per
  critical section or call of a shared object, in the order of \<^verbatim>\<open>src/ingest.rs\<close>, with the locks the
  code takes. The lemmas relate an undisturbed task to \<open>process_packet\<close>, show that no schedule
  deadlocks or runs for ever, and that the counters do not depend on the schedule.
\<close>

subsection \<open>Tasks\<close>

record work =
  w_clock :: clock
  w_raw :: bytes
  w_dev :: u64
  w_ver :: u32
  w_data :: bytes
  w_node :: "u64 option"
  w_hit :: bool
  w_recipients :: "u64 list"
  w_queue :: u32

datatype stage = Store | Route | Lookup | Put | Sync | Queue | Tell | Count

datatype task = Fresh clock bytes | At stage work | Finished "ingest_error + ingest_result" | Crashed

definition work_result :: "work \<Rightarrow> ingest_result" where
  "work_result w =
     \<lparr>r_device_id = w_dev w, r_is_keyframe = is_keyframe_payload (w_data w), r_scene_version = w_ver w,
      r_sync_recipients = length (w_recipients w), r_cached = True, r_cdn_node = w_node w,
      r_queue_index = w_queue w, r_latency_ms = latency_of (w_clock w)\<rparr>"

text \<open>Steps 1 to 3: the header, the key (one critical section), decryption.\<close>

definition open_packet where
  "open_packet dp P ck raw =
     (case read_header raw of
        None \<Rightarrow> (P, Crashed)
      | Some (Inl e) \<Rightarrow> (P, Finished (Inl e))
      | Some (Inr (dev, ver)) \<Rightarrow>
          let (ks, key) = derive_device_key (derive_key dp) (key_store P) dev;
              P1 = P\<lparr>key_store := ks\<rparr>
          in (case subslice 12 (length raw) raw of
                None \<Rightarrow> (P1, Crashed)
              | Some sealed \<Rightarrow>
                  (case crypto_open dp key sealed of
                     Inl e \<Rightarrow> (P1, Finished (Inl (DecryptionFailed e)))
                   | Inr d \<Rightarrow>
                       (P1, At (if is_keyframe_payload d \<and> 1 < length d then Store else Lookup)
                          \<lparr>w_clock = ck, w_raw = raw, w_dev = dev, w_ver = ver, w_data = d,
                           w_node = None, w_hit = False, w_recipients = [], w_queue = 0\<rparr>))))"

text \<open>The storage call, then the CDN lookup, which is a critical section of its own.\<close>

definition store_frame where
  "store_frame dp P w =
     (case (read_center (w_data w), read_sdf_value (w_data w)) of
        (Some (Inr center), Some (Inr v)) \<Rightarrow>
          let (sdf', stored) = store_keyframe dp (sdf_storage P)
                 (from_world dp center (world_min P) (world_max P)) (w_ver w) v;
              P' = P\<lparr>sdf_storage := sdf'\<rparr>
          in (case stored of
                Inl msg \<Rightarrow> (P', Finished (Inl (StorageError msg)))
              | Inr _ \<Rightarrow> (P', At Route w))
      | (Some (Inl e), _) \<Rightarrow> (P, Finished (Inl e))
      | (_, Some (Inl e)) \<Rightarrow> (P, Finished (Inl e))
      | _ \<Rightarrow> (P, Crashed))"

definition route_frame_cdn where
  "route_frame_cdn dp P w =
     (case read_center (w_data w) of
        Some (Inr center) \<Rightarrow>
          (P, At Lookup (w\<lparr>w_node := Option.bind (cdn_router P) (\<lambda>r. route_sdf_request dp r
                 (from_world dp center (world_min P) (world_max P)))\<rparr>))
      | Some (Inl e) \<Rightarrow> (P, Finished (Inl e))
      | None \<Rightarrow> (P, Crashed))"

fun task_step where
  "task_step dp P (Fresh ck raw) = open_packet dp P ck raw"
| "task_step dp P (At Store w) = store_frame dp P w"
| "task_step dp P (At Route w) = route_frame_cdn dp P w"
| "task_step dp P (At Lookup w) =
     (let (c, hit) = cache_get dp (frame_cache P) (cache_key (w_dev w) (w_ver w))
      in (P\<lparr>frame_cache := c\<rparr>, At Put (w\<lparr>w_hit := (hit \<noteq> None)\<rparr>)))"
| "task_step dp P (At Put w) =
     (P\<lparr>frame_cache := cache_put dp (frame_cache P) (cache_key (w_dev w) (w_ver w)) (w_data w)\<rparr>, At Sync w)"
| "task_step dp P (At Sync w) =
     (let (P', recipients) = sync_device dp P (w_clock w) (w_dev w) (w_ver w)
      in (P', At Queue (w\<lparr>w_recipients := recipients\<rparr>)))"
| "task_step dp P (At Queue w) =
     (case queue_message P (w_clock w) (w_dev w) (w_ver w) (is_keyframe_payload (w_data w)) of
        None \<Rightarrow> (P, Crashed)
      | Some (P', i) \<Rightarrow> (P', At Tell (w\<lparr>w_queue := i\<rparr>)))"
| "task_step dp P (At Tell w) =
     (record_telemetry dp P (w_dev w) (length (w_raw w)) (latency_of (w_clock w))
        (is_keyframe_payload (w_data w)), At Count w)"
| "task_step dp P (At Count w) = (count_request P (w_hit w), Finished (Inr (work_result w)))"
| "task_step dp P t = (P, t)"

fun finished :: "task \<Rightarrow> bool" where
  "finished (Finished r) = True"
| "finished Crashed = True"
| "finished _ = False"

text \<open>How many actions a task has left.\<close>

fun actions_left :: "task \<Rightarrow> nat" where
  "actions_left (Fresh ck raw) = 9"
| "actions_left (At s w) =
     (case s of Store \<Rightarrow> 8 | Route \<Rightarrow> 7 | Lookup \<Rightarrow> 6 | Put \<Rightarrow> 5 | Sync \<Rightarrow> 4 | Queue \<Rightarrow> 3 | Tell \<Rightarrow> 2 | Count \<Rightarrow> 1)"
| "actions_left _ = 0"

lemmas task_defs = open_packet_def store_frame_def route_frame_cdn_def read_header_eq read_center_eq
  read_sdf_value_eq

lemma actions_left_step: "\<not> finished t \<Longrightarrow> actions_left (snd (task_step dp P t)) < actions_left t"
proof (cases t)
  case (At s w)
  then show ?thesis
    by (cases s) (simp_all add: task_defs sync_device_def split_def Let_def split: sum.split option.split)
qed (simp_all add: task_defs split_def Let_def split: sum.split option.split)

lemma actions_left_0: "finished t \<longleftrightarrow> actions_left t = 0"
  by (cases t rule: actions_left.cases) (auto split: stage.split)

text \<open>A task that nobody disturbs.\<close>

fun alone where
  "alone dp 0 P t = (P, t)"
| "alone dp (Suc n) P t = (let (P', t') = task_step dp P t in alone dp n P' t')"

lemma alone_numeral:
  "alone dp (numeral k) P t = (let (P', t') = task_step dp P t in alone dp (pred_numeral k) P' t')"
  by (simp add: numeral_eq_Suc)

lemma alone_finished: "finished t \<Longrightarrow> alone dp n P t = (P, t)"
  by (induction n) (cases t; simp)+

lemma alone_add:
  "alone dp (m + n) P t = (let (P', t') = alone dp m P t in alone dp n P' t')"
  by (induction m arbitrary: P t) (simp_all add: split_def Let_def)

lemma alone_finished_later:
  "alone dp m P t = (P', Finished r) \<Longrightarrow> alone dp (m + n) P t = (P', Finished r)"
  by (simp add: alone_add alone_finished)

lemma alone_from_Lookup:
  assumes "queue_count (queue_router P) = 4"
  shows "alone dp 6 (P\<lparr>sdf_storage := stored_sdf dp P (w_ver w) (w_data w)\<rparr>)
       (At Lookup (w\<lparr>w_node := cdn_target dp P (w_data w)\<rparr>)) =
     (accepted_state dp P (w_clock w) (w_raw w) (w_dev w) (w_ver w) (w_data w),
      Finished (Inr (accepted_result dp P (w_clock w) (w_dev w) (w_ver w) (w_data w))))"
  using assms
  by (simp add: alone_numeral sync_device_def queue_message_def record_telemetry_def count_request_def
      accepted_state_def accepted_result_def work_result_def hub_calls_def cache_calls_def envelope_def
      route_with_priority_queue checked_rem_def split_def Let_def)

lemma alone_Route:
  "stored_payload (w_data w) \<Longrightarrow>
   alone dp 7 P (At Route w) = alone dp 6 P (At Lookup (w\<lparr>w_node := cdn_target dp P (w_data w)\<rparr>))"
  by (simp add: alone_numeral [of dp _ P "At Route w"] route_frame_cdn_def read_center_eq cdn_target_def
      morton_of_def)

lemma alone_process_packet:
  assumes "pipeline_ok dp secret P"
  shows "alone dp 9 P (Fresh ck raw) =
     (fst (packet_result dp secret P ck raw), Finished (snd (packet_result dp secret P ck raw)))"
proof (cases "length raw < 12")
  case True
  then show ?thesis
    by (simp add: alone_numeral task_defs alone_finished packet_result_def verdict_def)
next
  case False
  obtain dev ver where h: "header_of raw = (dev, ver)" by (cases "header_of raw")
  let ?P1 = "keys_after dp P dev"
  let ?o = "crypto_open dp (device_key dp secret dev) (drop 12 raw)"
  have key: "derive_device_key (derive_key dp) (key_store P) dev =
      (key_store ?P1, device_key dp secret dev)"
    using assms derive_key_value [of "derive_key dp" secret "key_store P" dev]
    by (simp add: prod_eq_iff pipeline_ok_def keys_after_def device_key_def)
  have keys: "P\<lparr>key_store := key_store ?P1\<rparr> = ?P1" by (simp add: keys_after_def)
  have queues: "queue_count (queue_router ?P1) = 4" using assms by (simp add: pipeline_ok_def)
  have slice: "subslice 12 (length raw) raw = Some (drop 12 raw)" using False by (simp add: subslice_def)
  have result: "accepted_result dp ?P1 ck dev ver d = accepted_result dp P ck dev ver d" for d
    by (simp add: accepted_result_def)
  show ?thesis
  proof (cases ?o)
    case (Inl e)
    with False h key slice show ?thesis
      by (simp add: keys alone_numeral task_defs alone_finished packet_result_def verdict_def)
  next
    case (Inr d)
    define w where "w = \<lparr>w_clock = ck, w_raw = raw, w_dev = dev, w_ver = ver, w_data = d,
      w_node = None, w_hit = False, w_recipients = [], w_queue = 0\<rparr>"
    have first: "task_step dp P (Fresh ck raw) = (?P1, At (if stored_payload d then Store else Lookup) w)"
      using False h key slice Inr by (simp add: keys task_defs w_def stored_payload_def)
    have start: "alone dp 9 P (Fresh ck raw) = alone dp 8 ?P1 (At (if stored_payload d then Store else Lookup) w)"
      unfolding alone_numeral [of dp _ P] first by simp
    note rest = alone_finished_later [OF alone_from_Lookup [OF queues, of dp w]]
    show ?thesis
    proof (cases "stored_payload d")
      case False
      then have "w\<lparr>w_node := cdn_target dp ?P1 (w_data w)\<rparr> = w"
        "?P1\<lparr>sdf_storage := stored_sdf dp ?P1 (w_ver w) (w_data w)\<rparr> = ?P1"
        by (simp_all add: w_def cdn_target_def stored_sdf_def keys_after_def)
      with rest [of 2] have "alone dp 8 ?P1 (At Lookup w) =
          (accepted_state dp ?P1 ck raw dev ver d, Finished (Inr (accepted_result dp ?P1 ck dev ver d)))"
        by (simp add: w_def)
      with start False h Inr \<open>\<not> length raw < 12\<close> show ?thesis
        by (simp add: packet_result_def verdict_def result)
    next
      case True
      let ?P2 = "?P1\<lparr>sdf_storage := stored_sdf dp ?P1 ver d\<rparr>"
      have store: "task_step dp ?P1 (At Store w) =
          (?P2, case snd (store_call dp P ver d) of Inl e \<Rightarrow> Finished (Inl (StorageError e)) | Inr _ \<Rightarrow> At Route w)"
        using True
        by (simp add: task_defs w_def store_call_def stored_sdf_def morton_of_def split_def Let_def split: sum.split)
      show ?thesis
      proof (cases "snd (store_call dp P ver d)")
        case (Inl e)
        with start True store have "alone dp 9 P (Fresh ck raw) = (?P2, Finished (Inl (StorageError e)))"
          by (simp add: alone_numeral [of dp _ ?P1] alone_finished)
        with True h Inl \<open>?o = Inr d\<close> \<open>\<not> length raw < 12\<close> show ?thesis
          by (simp add: packet_result_def verdict_def)
      next
        case (Inr u)
        have "cdn_target dp ?P2 d = cdn_target dp ?P1 d"
          by (simp add: cdn_target_def morton_of_def)
        then have "alone dp 8 ?P1 (At Store w) = alone dp 6 ?P2 (At Lookup (w\<lparr>w_node := cdn_target dp ?P1 (w_data w)\<rparr>))"
          using Inr store True
          by (simp add: alone_numeral [of dp _ ?P1] alone_Route w_def)
        also have "\<dots> = (accepted_state dp ?P1 ck raw dev ver d, Finished (Inr (accepted_result dp ?P1 ck dev ver d)))"
          using alone_from_Lookup [OF queues, of dp w] by (simp add: w_def)
        finally show ?thesis
          using start True h Inr \<open>?o = Inr d\<close> \<open>\<not> length raw < 12\<close>
          by (simp add: packet_result_def verdict_def result)
      qed
    qed
  qed
qed

subsection \<open>Locks and schedules\<close>

text \<open>The locks in the canonical order of the documentation of \<^verbatim>\<open>IngestPipeline\<close>, after the lock
  inside the key store. Each is held for one action only.\<close>

datatype lock = KeyLock | CdnLock | HubLock | QueueLock | TelemetryLock | StatsLock

fun lock_of :: "task \<Rightarrow> lock option" where
  "lock_of (Fresh ck raw) = (if length raw < 12 then None else Some KeyLock)"
| "lock_of (At s w) =
     (case s of Route \<Rightarrow> Some CdnLock | Sync \<Rightarrow> Some HubLock | Queue \<Rightarrow> Some QueueLock
      | Tell \<Rightarrow> Some TelemetryLock | Count \<Rightarrow> Some StatsLock | _ \<Rightarrow> None)"
| "lock_of _ = None"

lemma lock_of_unfinished: "lock_of t = Some l \<Longrightarrow> \<not> finished t"
  by (cases t) simp_all

record ('key, 'sdf, 'cache, 'cdn, 'hub, 'dd, 'hll, 'cms) config =
  pl :: "('key, 'sdf, 'cache, 'cdn, 'hub, 'dd, 'hll, 'cms) pipeline"
  packets :: "bytes list"
  tasks :: "task list"
  holder :: "lock \<Rightarrow> nat option"

datatype 'cdn label = Arrive clock bytes | Acquire nat | Act nat | Install 'cdn

definition release :: "(lock \<Rightarrow> nat option) \<Rightarrow> lock option \<Rightarrow> lock \<Rightarrow> nat option" where
  "release h ol = (case ol of None \<Rightarrow> h | Some l \<Rightarrow> h(l := None))"

inductive gstep for dp where
  arrive: "gstep dp c (Arrive ck raw)
     (c\<lparr>packets := packets c @ [raw], tasks := tasks c @ [Fresh ck raw]\<rparr>)"
| acquire: "i < length (tasks c) \<Longrightarrow> lock_of (tasks c ! i) = Some l \<Longrightarrow> holder c l = None \<Longrightarrow>
     gstep dp c (Acquire i) (c\<lparr>holder := (holder c)(l := Some i)\<rparr>)"
| act: "i < length (tasks c) \<Longrightarrow> \<not> finished (tasks c ! i) \<Longrightarrow>
     (\<And>l. lock_of (tasks c ! i) = Some l \<Longrightarrow> holder c l = Some i) \<Longrightarrow>
     task_step dp (pl c) (tasks c ! i) = (P', t') \<Longrightarrow>
     gstep dp c (Act i) (c\<lparr>pl := P', tasks := (tasks c)[i := t'],
       holder := release (holder c) (lock_of (tasks c ! i))\<rparr>)"
| install: "holder c CdnLock = None \<Longrightarrow> gstep dp c (Install r) (c\<lparr>pl := set_cdn_router (pl c) r\<rparr>)"

inductive_cases arriveE: "gstep dp c (Arrive ck raw) c'"
inductive_cases acquireE: "gstep dp c (Acquire i) c'"
inductive_cases actE: "gstep dp c (Act i) c'"
inductive_cases installE: "gstep dp c (Install r) c'"

definition initial where
  "initial P = \<lparr>pl = P, packets = [], tasks = [], holder = \<lambda>_. None\<rparr>"

inductive gsteps for dp where
  none: "gsteps dp c [] c"
| more: "gsteps dp c ls c' \<Longrightarrow> gstep dp c' l c'' \<Longrightarrow> gsteps dp c (ls @ [l]) c''"

subsection \<open>No deadlock\<close>

text \<open>A lock is held only by a task that is about to use it.\<close>

definition locks_ok where
  "locks_ok c \<longleftrightarrow> (\<forall>l i. holder c l = Some i \<longrightarrow> i < length (tasks c) \<and> lock_of (tasks c ! i) = Some l)"

lemma locks_ok_step: "gstep dp c l c' \<Longrightarrow> locks_ok c \<Longrightarrow> locks_ok c'"
proof (induction rule: gstep.induct)
  case (arrive c ck raw)
  then show ?case by (auto simp: locks_ok_def nth_append less_SucI)
next
  case (act i c P' t')
  show ?case unfolding locks_ok_def
  proof (intro allI impI)
    fix l j
    assume "holder (c\<lparr>pl := P', tasks := (tasks c)[i := t'],
        holder := release (holder c) (lock_of (tasks c ! i))\<rparr>) l = Some j"
    then have h: "holder c l = Some j" "lock_of (tasks c ! i) \<noteq> Some l"
      by (auto simp: release_def split: option.splits if_splits)
    with act.prems have "j < length (tasks c)" "lock_of (tasks c ! j) = Some l"
      by (auto simp: locks_ok_def)
    moreover from this h(2) have "j \<noteq> i" by auto
    ultimately show "j < length (tasks (c\<lparr>pl := P', tasks := (tasks c)[i := t'],
          holder := release (holder c) (lock_of (tasks c ! i))\<rparr>)) \<and>
        lock_of (tasks (c\<lparr>pl := P', tasks := (tasks c)[i := t'],
          holder := release (holder c) (lock_of (tasks c ! i))\<rparr>) ! j) = Some l" by simp
  qed
qed (auto simp: locks_ok_def)

lemma gsteps_induct_inv:
  assumes "gsteps dp c ls c'" and "I c" and "\<And>c l c'. I c \<Longrightarrow> gstep dp c l c' \<Longrightarrow> I c'"
  shows "I c'"
  using assms(1,2) by (induction rule: gsteps.induct) (auto intro: assms(3))

lemma initial_locks_ok: "locks_ok (initial P)"
  by (simp add: locks_ok_def initial_def)

lemma some_task_moves:
  assumes "locks_ok c" and "i < length (tasks c)" and "\<not> finished (tasks c ! i)"
  shows "\<exists>j c'. gstep dp c (Acquire j) c' \<or> gstep dp c (Act j) c'"
proof -
  have act: "\<exists>c'. gstep dp c (Act j) c'"
    if "j < length (tasks c)" "\<not> finished (tasks c ! j)"
      "\<And>l. lock_of (tasks c ! j) = Some l \<Longrightarrow> holder c l = Some j" for j
  proof -
    obtain P' t' where "task_step dp (pl c) (tasks c ! j) = (P', t')" by fastforce
    from gstep.act [OF that this] show ?thesis ..
  qed
  show ?thesis
  proof (cases "lock_of (tasks c ! i)")
    case None
    with act [OF assms(2,3)] show ?thesis by auto
  next
    case (Some l)
    show ?thesis
    proof (cases "holder c l")
      case None
      with gstep.acquire [OF assms(2) Some] show ?thesis by blast
    next
      case (Some j)
      with assms(1) have j: "j < length (tasks c)" "lock_of (tasks c ! j) = Some l"
        by (auto simp: locks_ok_def)
      then have "\<not> finished (tasks c ! j)" by (intro lock_of_unfinished)
      with act [OF j(1)] j(2) Some show ?thesis by auto
    qed
  qed
qed

subsection \<open>Every schedule ends\<close>

text \<open>Two moves per action left, one of them gone when the lock of the next action is held.\<close>

definition moves_of where
  "moves_of c i =
     2 * actions_left (tasks c ! i) -
     (if \<exists>l. lock_of (tasks c ! i) = Some l \<and> holder c l = Some i then 1 else 0)"

definition moves_left where
  "moves_left c = (\<Sum>i<length (tasks c). moves_of c i)"

lemma moves_left_less:
  assumes "length (tasks c') = length (tasks c)" and "i < length (tasks c)"
    and "moves_of c' i < moves_of c i"
    and "\<And>j. j < length (tasks c) \<Longrightarrow> j \<noteq> i \<Longrightarrow> moves_of c' j \<le> moves_of c j"
  shows "moves_left c' < moves_left c"
  unfolding moves_left_def assms(1)
  by (rule sum_strict_mono_ex1) (use assms(2-4) in \<open>auto simp: le_less\<close>)

lemma moves_left_acquire:
  assumes "gstep dp c (Acquire i) c'"
  shows "moves_left c' < moves_left c"
proof -
  from assms obtain l where l: "i < length (tasks c)" "lock_of (tasks c ! i) = Some l" "holder c l = None"
    and c': "c' = c\<lparr>holder := (holder c)(l := Some i)\<rparr>"
    by (rule acquireE) blast
  have "0 < actions_left (tasks c ! i)"
    using lock_of_unfinished [OF l(2)] by (simp add: actions_left_0)
  moreover have "moves_of c' i = 2 * actions_left (tasks c ! i) - 1" using l(2) by (simp add: moves_of_def c')
  moreover have "moves_of c i = 2 * actions_left (tasks c ! i)" using l(2,3) by (simp add: moves_of_def)
  ultimately have "moves_of c' i < moves_of c i" by linarith
  moreover have "moves_of c' j \<le> moves_of c j" for j
  proof -
    have "holder c m = Some j \<longrightarrow> holder c' m = Some j" for m
      using l(3) by (cases "m = l") (simp_all add: c')
    moreover have "tasks c' = tasks c" by (simp add: c')
    ultimately show ?thesis unfolding moves_of_def by auto
  qed
  ultimately show ?thesis using l(1) by (intro moves_left_less [of _ _ i]) (simp_all add: c')
qed

lemma moves_left_act:
  assumes "gstep dp c (Act i) c'"
  shows "moves_left c' < moves_left c"
proof -
  from assms obtain P' t' where i: "i < length (tasks c)" "\<not> finished (tasks c ! i)"
    and lock: "\<And>l. lock_of (tasks c ! i) = Some l \<Longrightarrow> holder c l = Some i"
    and step: "task_step dp (pl c) (tasks c ! i) = (P', t')"
    and c': "c' = c\<lparr>pl := P', tasks := (tasks c)[i := t'], holder := release (holder c) (lock_of (tasks c ! i))\<rparr>"
    by (rule actE) blast
  have "actions_left t' < actions_left (tasks c ! i)"
    using actions_left_step [OF i(2), of dp "pl c"] step by simp
  then have "2 * actions_left t' < 2 * actions_left (tasks c ! i) - 1" by linarith
  moreover have "moves_of c' i \<le> 2 * actions_left t'" using i(1) by (simp add: moves_of_def c')
  moreover have "2 * actions_left (tasks c ! i) - 1 \<le> moves_of c i" by (simp add: moves_of_def)
  ultimately have "moves_of c' i < moves_of c i" by linarith
  moreover have "moves_of c' j \<le> moves_of c j" if "j \<noteq> i" for j
  proof -
    have "release (holder c) (lock_of (tasks c ! i)) l = Some j \<longleftrightarrow> holder c l = Some j" for l
      using lock that by (auto simp: release_def split: option.split)
    with that show ?thesis by (simp add: moves_of_def c')
  qed
  ultimately show ?thesis using i(1) by (intro moves_left_less [of _ _ i]) (simp_all add: c')
qed

lemma moves_left_install: "gstep dp c (Install r) c' \<Longrightarrow> moves_left c' = moves_left c"
  by (erule installE) (simp add: moves_left_def moves_of_def)

fun task_move :: "'cdn label \<Rightarrow> bool" where
  "task_move (Acquire i) = True"
| "task_move (Act i) = True"
| "task_move _ = False"

fun is_arrival :: "'cdn label \<Rightarrow> bool" where
  "is_arrival (Arrive ck raw) = True"
| "is_arrival _ = False"

lemma schedule_length:
  "gsteps dp c ls c' \<Longrightarrow> list_all (\<lambda>l. \<not> is_arrival l) ls \<Longrightarrow>
   length (filter task_move ls) + moves_left c' \<le> moves_left c"
proof (induction rule: gsteps.induct)
  case (more c ls c' l c'')
  then have IH: "length (filter task_move ls) + moves_left c' \<le> moves_left c" by simp
  have "(if task_move l then 1 else 0) + moves_left c'' \<le> moves_left c'"
  proof (cases l)
    case (Acquire i)
    with more.hyps(2) moves_left_acquire show ?thesis by (metis Suc_leI plus_1_eq_Suc task_move.simps(1))
  next
    case (Act i)
    with more.hyps(2) moves_left_act show ?thesis by (metis Suc_leI plus_1_eq_Suc task_move.simps(2))
  next
    case (Install r)
    with more.hyps(2) moves_left_install show ?thesis by fastforce
  qed (use more.prems in simp)
  with IH show ?case by (auto split: if_splits)
qed simp

lemma moves_left_bound: "moves_left c \<le> 18 * length (tasks c)"
proof -
  have "actions_left t \<le> 9" for t by (cases t rule: actions_left.cases) (auto split: stage.split)
  then have "2 * actions_left t \<le> 18" for t using mult_le_mono2 [of "actions_left t" 9 2] by simp
  moreover have "moves_of c i \<le> 2 * actions_left (tasks c ! i)" for i by (simp add: moves_of_def)
  ultimately have "moves_of c i \<le> 18" for i by (rule order_trans [rotated])
  then have "(\<Sum>i<length (tasks c). moves_of c i) \<le> (\<Sum>i<length (tasks c). 18)" by (intro sum_mono)
  then show ?thesis by (simp add: moves_left_def mult.commute)
qed

subsection \<open>What a task has established, and what it has counted\<close>

definition settled where
  "settled dp secret raw r \<longleftrightarrow>
     (if length raw < 12 then r = Inl (MalformedPacket ''Packet too short (< 12 bytes)'')
      else let (dev, ver) = header_of raw
        in case crypto_open dp (device_key dp secret dev) (drop 12 raw) of
             Inl e \<Rightarrow> r = Inl (DecryptionFailed e)
           | Inr d \<Rightarrow>
               (\<exists>msg. r = Inl (StorageError msg) \<and> stored_payload d) \<or>
               (\<exists>x. r = Inr x \<and> r_device_id x = dev \<and> r_scene_version x = ver \<and>
                  r_is_keyframe x = is_keyframe_payload d \<and> r_queue_index x = ver mod 4))"

fun task_ok where
  "task_ok dp secret raw (Fresh ck raw') \<longleftrightarrow> raw' = raw"
| "task_ok dp secret raw (At s w) \<longleftrightarrow>
     w_raw w = raw \<and> 12 \<le> length raw \<and> header_of raw = (w_dev w, w_ver w) \<and>
     crypto_open dp (device_key dp secret (w_dev w)) (drop 12 raw) = Inr (w_data w) \<and>
     (s = Store \<longrightarrow> stored_payload (w_data w)) \<and>
     (s \<in> {Tell, Count} \<longrightarrow> w_queue w = w_ver w mod 4)"
| "task_ok dp secret raw (Finished r) \<longleftrightarrow> settled dp secret raw r"
| "task_ok dp secret raw Crashed \<longleftrightarrow> False"

lemma derive_shared:
  assumes "pipeline_ok dp secret P"
  shows "snd (derive_device_key (derive_key dp) (key_store P) dev) = device_key dp secret dev"
    and "pipeline_ok dp secret (P\<lparr>key_store := fst (derive_device_key (derive_key dp) (key_store P) dev)\<rparr>)"
  using assms derive_key_value [of "derive_key dp" secret "key_store P" dev]
    derive_ok [of "derive_key dp" secret "key_store P" dev]
  by (simp_all add: pipeline_ok_def device_key_def)

lemma open_packet_ok:
  assumes "pipeline_ok dp secret P"
  shows "task_ok dp secret raw (snd (open_packet dp P ck raw)) \<and> pipeline_ok dp secret (fst (open_packet dp P ck raw))"
proof (cases "length raw < 12")
  case True
  with assms show ?thesis by (simp add: task_defs settled_def)
next
  case False
  obtain dev ver where h: "header_of raw = (dev, ver)" by (cases "header_of raw")
  obtain ks key where d: "derive_device_key (derive_key dp) (key_store P) dev = (ks, key)" by fastforce
  with derive_shared [OF assms, of dev]
  have "key = device_key dp secret dev" "pipeline_ok dp secret (P\<lparr>key_store := ks\<rparr>)" by simp_all
  moreover have "subslice 12 (length raw) raw = Some (drop 12 raw)" using False by (simp add: subslice_def)
  ultimately show ?thesis
    using False h d
    by (simp add: task_defs settled_def stored_payload_def Let_def split: sum.split)
qed

lemma task_step_ok:
  assumes "pipeline_ok dp secret P" and "task_ok dp secret raw t"
  shows "task_ok dp secret raw (snd (task_step dp P t)) \<and> pipeline_ok dp secret (fst (task_step dp P t))"
proof (cases t)
  case (Fresh ck raw')
  with assms open_packet_ok show ?thesis by simp
next
  case (At s w)
  with assms show ?thesis
    by (cases s)
      (simp_all add: task_defs sync_device_def queue_message_def record_telemetry_def count_request_def
        route_with_priority_queue checked_rem_def pipeline_ok_def settled_def work_result_def
        split_def Let_def split: sum.split)
qed (use assms in simp_all)

lemma stays_settled: "finished t \<Longrightarrow> task_step dp P t = (P, t)"
  by (cases t) simp_all

lemma no_storage_error:
  assumes "storage_accepts dp" and "\<not> finished t"
  shows "snd (task_step dp P t) \<noteq> Finished (Inl (StorageError msg))"
  using assms by (cases "(dp, P, t)" rule: task_step.cases)
    (auto simp: task_defs storage_accepts_def split_def Let_def split: sum.splits option.splits)

fun passed_queue :: "task \<Rightarrow> bool" where
  "passed_queue (At s w) = (s = Tell \<or> s = Count)"
| "passed_queue (Finished r) = (\<exists>x. r = Inr x)"
| "passed_queue _ = False"

fun passed_tell :: "task \<Rightarrow> bool" where
  "passed_tell (At s w) = (s = Count)"
| "passed_tell (Finished r) = (\<exists>x. r = Inr x)"
| "passed_tell _ = False"

fun told_keyframe :: "task \<Rightarrow> bool" where
  "told_keyframe (At s w) = (s = Count \<and> is_keyframe_payload (w_data w))"
| "told_keyframe (Finished r) = (\<exists>x. r = Inr x \<and> r_is_keyframe x)"
| "told_keyframe _ = False"

fun accepted :: "task \<Rightarrow> bool" where
  "accepted (Finished r) = (\<exists>x. r = Inr x)"
| "accepted _ = False"

text \<open>A counter that goes up exactly when a task passes a point of its program.\<close>

locale passage_counter =
  fixes act :: "'s \<Rightarrow> 't \<Rightarrow> 's \<times> 't" and count :: "'s \<Rightarrow> 'w::len word" and passed :: "'t \<Rightarrow> bool"
  assumes act_count:
    "count (fst (act s t)) + (if passed t then 1 else 0) =
       count s + (if passed (snd (act s t)) then 1 else 0)"
begin

lemma length_filter_update:
  "i < length ts \<Longrightarrow> length (filter passed (ts[i := t])) + (if passed (ts ! i) then 1 else 0) =
     length (filter passed ts) + (if passed t then 1 else 0)"
proof (induction ts arbitrary: i)
  case (Cons x ts)
  then show ?case by (cases i) auto
qed simp

lemma count_update:
  assumes "i < length ts" and "act s (ts ! i) = (s', t')"
    and "count s = base + of_nat (length (filter passed ts))"
  shows "count s' = base + of_nat (length (filter passed (ts[i := t'])))"
proof -
  let ?old = "if passed (ts ! i) then 1 else 0 :: 'w word" and ?new = "if passed t' then 1 else 0 :: 'w word"
  have "(of_nat (length (filter passed (ts[i := t'])) + (if passed (ts ! i) then 1 else 0)) :: 'w word) =
      of_nat (length (filter passed ts) + (if passed t' then 1 else 0))"
    by (simp only: length_filter_update [OF assms(1)])
  then have "of_nat (length (filter passed (ts[i := t']))) + ?old = of_nat (length (filter passed ts)) + ?new"
    by (simp split: if_splits)
  moreover have "count s' + ?old = count s + ?new"
    using act_count [of s "ts ! i"] assms(2) by simp
  ultimately have "count s' + ?old = base + of_nat (length (filter passed (ts[i := t']))) + ?old"
    using assms(3) by (simp only: add.assoc)
  then show ?thesis by (simp only: add_right_cancel)
qed

end

lemmas count_defs = task_defs sync_device_def queue_message_def record_telemetry_def count_request_def
  record_packet_def u64_of_bool_def route_with_priority_def route_count_def work_result_def

interpretation queue_passage:
  passage_counter "task_step dp" "\<lambda>P. messages_routed (queue_router P)" passed_queue for dp
proof unfold_locales
  show "messages_routed (queue_router (fst (task_step dp s t))) + (if passed_queue t then 1 else 0) =
      messages_routed (queue_router s) + (if passed_queue (snd (task_step dp s t)) then 1 else 0)" for s t
    by (cases "(dp, s, t)" rule: task_step.cases)
      (auto simp: count_defs split_def Let_def split: sum.split option.split)
qed

interpretation tell_passage:
  passage_counter "task_step dp" "\<lambda>P. total_packets (telemetry P)" passed_tell for dp
proof unfold_locales
  show "total_packets (telemetry (fst (task_step dp s t))) + (if passed_tell t then 1 else 0) =
      total_packets (telemetry s) + (if passed_tell (snd (task_step dp s t)) then 1 else 0)" for s t
    by (cases "(dp, s, t)" rule: task_step.cases)
      (auto simp: count_defs split_def Let_def split: sum.split option.split)
qed

interpretation keyframe_passage:
  passage_counter "task_step dp" "\<lambda>P. keyframe_count (telemetry P)" told_keyframe for dp
proof unfold_locales
  show "keyframe_count (telemetry (fst (task_step dp s t))) + (if told_keyframe t then 1 else 0) =
      keyframe_count (telemetry s) + (if told_keyframe (snd (task_step dp s t)) then 1 else 0)" for s t
    by (cases "(dp, s, t)" rule: task_step.cases)
      (auto simp: count_defs split_def Let_def split: sum.split option.split)
qed

interpretation stats_passage:
  passage_counter "task_step dp" "\<lambda>P. total_requests (routing_stats P)" accepted for dp
proof unfold_locales
  show "total_requests (routing_stats (fst (task_step dp s t))) + (if accepted t then 1 else 0) =
      total_requests (routing_stats s) + (if accepted (snd (task_step dp s t)) then 1 else 0)" for s t
    by (cases "(dp, s, t)" rule: task_step.cases)
      (auto simp: count_defs split_def Let_def split: sum.split option.split)
qed

subsection \<open>The invariant of every schedule\<close>

definition config_ok where
  "config_ok dp secret base c \<longleftrightarrow>
     pipeline_ok dp secret (pl c) \<and> list_all2 (task_ok dp secret) (packets c) (tasks c) \<and>
     messages_routed (queue_router (pl c)) = 0 + of_nat (length (filter passed_queue (tasks c))) \<and>
     total_packets (telemetry (pl c)) = 0 + of_nat (length (filter passed_tell (tasks c))) \<and>
     keyframe_count (telemetry (pl c)) = 0 + of_nat (length (filter told_keyframe (tasks c))) \<and>
     total_requests (routing_stats (pl c)) = base + of_nat (length (filter accepted (tasks c)))"

lemma initial_config_ok:
  assumes "pipeline_new dp path cap secret lo hi = Inr P"
  shows "config_ok dp secret (total_requests (stats_default dp)) (initial P)"
proof -
  have "pipeline_ok dp secret P" using assms by (rule pipeline_new_ok)
  with assms show ?thesis
    by (auto simp: config_ok_def initial_def pipeline_new_def telemetry_new_def router_new_def
        split: sum.splits)
qed

lemma config_ok_act:
  assumes "config_ok dp secret base c" and "i < length (tasks c)"
    and "task_step dp (pl c) (tasks c ! i) = (P', t')"
  shows "config_ok dp secret base (c\<lparr>pl := P', tasks := (tasks c)[i := t'], holder := h\<rparr>)"
proof -
  have len: "length (packets c) = length (tasks c)" and task: "task_ok dp secret (packets c ! i) (tasks c ! i)"
    and all: "list_all2 (task_ok dp secret) (packets c) (tasks c)"
    using assms(1,2) by (auto simp: config_ok_def list_all2_conv_all_nth)
  have "task_ok dp secret (packets c ! i) t'" "pipeline_ok dp secret P'"
    using task_step_ok [OF _ task, of "pl c"] assms(1,3) by (simp_all add: config_ok_def)
  moreover from this(1) have "list_all2 (task_ok dp secret) (packets c) ((tasks c)[i := t'])"
    using list_all2_update_cong [OF all, of "packets c ! i" t' i] by simp
  ultimately show ?thesis
    using assms(1) queue_passage.count_update [OF assms(2,3), of 0]
      tell_passage.count_update [OF assms(2,3), of 0] keyframe_passage.count_update [OF assms(2,3), of 0]
      stats_passage.count_update [OF assms(2,3), of base]
    by (simp add: config_ok_def)
qed

lemma config_ok_step: "gstep dp c l c' \<Longrightarrow> config_ok dp secret base c \<Longrightarrow> config_ok dp secret base c'"
proof (induction rule: gstep.induct)
  case (arrive c ck raw)
  then show ?case by (auto simp: config_ok_def intro!: list_all2_appendI)
next
  case (act i c P' t')
  then show ?case by (intro config_ok_act)
qed (auto simp: config_ok_def set_cdn_router_def pipeline_ok_def)

lemma reachable_ok:
  assumes "pipeline_new dp path cap secret lo hi = Inr P" and "gsteps dp (initial P) ls c"
  shows "config_ok dp secret (total_requests (stats_default dp)) c" "locks_ok c"
proof -
  show "config_ok dp secret (total_requests (stats_default dp)) c"
    using assms(2) initial_config_ok [OF assms(1)] by (rule gsteps_induct_inv) (rule config_ok_step)
  show "locks_ok c"
    using assms(2) initial_locks_ok by (rule gsteps_induct_inv) (rule locks_ok_step)
qed

lemma filter_finished:
  assumes "list_all finished ts"
  shows "filter passed_queue ts = filter accepted ts" "filter passed_tell ts = filter accepted ts"
proof -
  have "passed_queue t = accepted t" "passed_tell t = accepted t" if "finished t" for t
    using that by (cases t; simp)+
  with assms show "filter passed_queue ts = filter accepted ts" "filter passed_tell ts = filter accepted ts"
    by (auto simp: list_all_iff intro!: filter_cong)
qed

text \<open>A schedule of the demonstration pipeline: one packet that is too short.\<close>

definition demo_config where
  "demo_config =
     \<lparr>pl = demo_pipeline, packets = [[1]],
      tasks = [Finished (Inl (MalformedPacket ''Packet too short (< 12 bytes)''))], holder = \<lambda>_. None\<rparr>"

lemma demo_schedule: "gsteps demo_deps (initial demo_pipeline) [Arrive demo_clock [1], Act 0] demo_config"
proof -
  let ?c = "(initial demo_pipeline)\<lparr>packets := [[1]], tasks := [Fresh demo_clock [1]]\<rparr>"
  have "gsteps demo_deps (initial demo_pipeline) ([] @ [Arrive demo_clock [1]]) ?c"
    using gsteps.more [OF gsteps.none gstep.arrive, of demo_deps "initial demo_pipeline" demo_clock "[1]"]
    by (simp add: initial_def)
  moreover have "gstep demo_deps ?c (Act 0) demo_config"
    using gstep.act [of 0 ?c demo_deps demo_pipeline]
    by (simp add: initial_def demo_config_def release_def task_defs)
  ultimately show ?thesis using gsteps.more by fastforce
qed

subsection \<open>Properties\<close>

text \<open>A task that no other task disturbs is \<open>process_packet\<close>: at any point of any history its nine
  or fewer actions end in the state and with the answer of the sequential function.\<close>

theorem undisturbed_task:
  assumes "pipeline_new dp path cap secret lo hi = Inr P0"
  shows "let P = fst (run (pipe_step dp) P0 ops)
     in alone dp 9 P (Fresh ck raw) = (P', Finished r) \<longleftrightarrow> process_packet dp P ck raw = Some (P', r)"
proof -
  note ok = pipeline_run_ok [OF assms, of ops]
  show ?thesis
    unfolding Let_def alone_process_packet [OF ok] process_packet_eq [OF ok] by (auto simp: prod_eq_iff)
qed

lemma undisturbed_task_witness:
  "alone demo_deps 9 demo_pipeline (Fresh demo_clock [1]) =
     (demo_pipeline, Finished (Inl (MalformedPacket ''Packet too short (< 12 bytes)'')))"
proof -
  have "process_packet demo_deps demo_pipeline demo_clock [1] =
      Some (demo_pipeline, Inl (MalformedPacket ''Packet too short (< 12 bytes)''))"
    by (simp add: process_packet_def read_header_eq)
  with undisturbed_task [OF demo_pipeline_new, of "[]" demo_clock "[1]" demo_pipeline
      "Inl (MalformedPacket ''Packet too short (< 12 bytes)'')"]
  show ?thesis by simp
qed

text \<open>No deadlock: in every reachable configuration with an unfinished task some task can take
  its lock or act, because a task never holds one lock while it waits for another.\<close>

theorem no_deadlock:
  assumes "pipeline_new dp path cap secret lo hi = Inr P" and "gsteps dp (initial P) ls c"
    and "\<exists>i<length (tasks c). \<not> finished (tasks c ! i)"
  shows "\<exists>j c'. gstep dp c (Acquire j) c' \<or> gstep dp c (Act j) c'"
  using some_task_moves [OF reachable_ok(2) [OF assms(1,2)]] assms(3) by blast

lemma no_deadlock_witness:
  "\<exists>j c'. gstep demo_deps ((initial demo_pipeline)\<lparr>packets := [[1]], tasks := [Fresh demo_clock [1]]\<rparr>) (Acquire j) c'
     \<or> gstep demo_deps ((initial demo_pipeline)\<lparr>packets := [[1]], tasks := [Fresh demo_clock [1]]\<rparr>) (Act j) c'"
proof (rule no_deadlock [OF demo_pipeline_new])
  show "gsteps demo_deps (initial demo_pipeline) ([] @ [Arrive demo_clock [1]])
      ((initial demo_pipeline)\<lparr>packets := [[1]], tasks := [Fresh demo_clock [1]]\<rparr>)"
    using gsteps.more [OF gsteps.none gstep.arrive, of demo_deps "initial demo_pipeline" demo_clock "[1]"]
    by (simp add: initial_def)
qed simp

text \<open>Termination under every schedule: from any configuration at most 18 moves per task (nine
  actions and the locks before them) are possible until all tasks are finished, however they
  interleave and whenever a CDN router is installed in between.\<close>

theorem schedules_terminate:
  assumes "gsteps dp c ls c'" and "list_all (\<lambda>l. \<not> is_arrival l) ls"
  shows "length (filter task_move ls) \<le> 18 * length (tasks c)"
  using schedule_length [OF assms] moves_left_bound [of c] by linarith

lemma schedules_terminate_witness:
  "length (filter task_move [Install (5 :: u64)]) \<le> 18 * length (tasks (initial demo_pipeline))"
proof (rule schedules_terminate [of demo_deps])
  show "gsteps demo_deps (initial demo_pipeline) [Install 5]
      ((initial demo_pipeline)\<lparr>pl := set_cdn_router (pl (initial demo_pipeline)) 5\<rparr>)"
    using gsteps.more [OF gsteps.none gstep.install, of "initial demo_pipeline" demo_deps 5]
    by (simp add: initial_def)
qed simp

text \<open>C2. What every schedule guarantees: no task crashes, a finished task's answer is the one its own
  packet calls for (up to a storage error), and once all tasks are finished telemetry, queue
  router and routing statistics all count exactly the accepted packets.\<close>

theorem every_schedule_settles:
  assumes "pipeline_new dp path cap secret lo hi = Inr P" and "gsteps dp (initial P) ls c"
  shows "list_all2 (\<lambda>raw t. t \<noteq> Crashed \<and> (\<forall>r. t = Finished r \<longrightarrow> settled dp secret raw r))
       (packets c) (tasks c) \<and>
     (list_all finished (tasks c) \<longrightarrow>
        (let n = length (filter accepted (tasks c))
         in total_packets (telemetry (pl c)) = of_nat n \<and>
            messages_routed (queue_router (pl c)) = of_nat n \<and>
            total_requests (routing_stats (pl c)) = total_requests (stats_default dp) + of_nat n))"
proof -
  note ok = reachable_ok(1) [OF assms]
  then have "list_all2 (task_ok dp secret) (packets c) (tasks c)" by (simp add: config_ok_def)
  then have "list_all2 (\<lambda>raw t. t \<noteq> Crashed \<and> (\<forall>r. t = Finished r \<longrightarrow> settled dp secret raw r))
       (packets c) (tasks c)"
    by (rule list_all2_mono) auto
  moreover have "list_all finished (tasks c) \<longrightarrow>
        (let n = length (filter accepted (tasks c))
         in total_packets (telemetry (pl c)) = of_nat n \<and>
            messages_routed (queue_router (pl c)) = of_nat n \<and>
            total_requests (routing_stats (pl c)) = total_requests (stats_default dp) + of_nat n)"
    using ok filter_finished [of "tasks c"] by (simp add: config_ok_def Let_def)
  ultimately show ?thesis ..
qed

lemma every_schedule_settles_witness:
  "total_packets (telemetry (pl demo_config)) = 0"
  using every_schedule_settles [OF demo_pipeline_new demo_schedule]
  by (simp add: demo_config_def Let_def)

end
