(* ===== verification/Serialisation.thy ===== *)
theory Serialisation
  imports Concurrent_Ingest "HOL-Library.Multiset"
begin

text \<open>
  What the concurrent tasks leave behind, component by component: each component that a task changes
  in a single action (storage, hub, queue router, telemetry) ends in the state in which the
  sequential pipeline leaves it after the same packets in some order, and the answers that a
  task takes from it are those of the sequential run. The storage decides which packets are accepted, so its order
  is the one in which the verdicts of all tasks are explained. The orders may differ from one
  component to the next. The frame cache is the exception, because a task reads and writes it in two
  actions: a schedule is given after which the hit count is that of no sequential order.
\<close>

subsection \<open>A component that each task changes at most once\<close>

text \<open>\<open>fits p t\<close>: the task \<open>t\<close> works on the packet \<open>p\<close>; \<open>passed p t\<close>: it has made its change; \<open>ans p x\<close>:
  what the component in the state \<open>x\<close> answers to the packet; \<open>bears t a\<close>: the task carries the answer.\<close>

definition serial where
  "serial proj eff passed ans bears x0 ps s ts \<longleftrightarrow>
     (\<exists>js. distinct js \<and> (\<forall>i. i \<in> set js \<longleftrightarrow> i < length ts \<and> passed (ps ! i) (ts ! i)) \<and>
        proj s = foldl (\<lambda>x j. eff (ps ! j) x) x0 js \<and>
        (\<forall>k<length js. bears (ts ! (js ! k)) (ans (ps ! (js ! k)) (foldl (\<lambda>x j. eff (ps ! j) x) x0 (take k js)))))"

lemma serialI:
  "distinct js \<Longrightarrow> (\<And>j. j \<in> set js \<longleftrightarrow> j < length ts \<and> passed (ps ! j) (ts ! j)) \<Longrightarrow>
   proj s = foldl (\<lambda>x j. eff (ps ! j) x) x0 js \<Longrightarrow>
   (\<And>k. k < length js \<Longrightarrow>
      bears (ts ! (js ! k)) (ans (ps ! (js ! k)) (foldl (\<lambda>x j. eff (ps ! j) x) x0 (take k js)))) \<Longrightarrow>
   serial proj eff passed ans bears x0 ps s ts"
  unfolding serial_def by blast

lemma serialE:
  assumes "serial proj eff passed ans bears x0 ps s ts"
  obtains js where "distinct js" "\<And>j. j \<in> set js \<longleftrightarrow> j < length ts \<and> passed (ps ! j) (ts ! j)"
    "proj s = foldl (\<lambda>x j. eff (ps ! j) x) x0 js"
    "\<And>k. k < length js \<Longrightarrow>
       bears (ts ! (js ! k)) (ans (ps ! (js ! k)) (foldl (\<lambda>x j. eff (ps ! j) x) x0 (take k js)))"
  using assms unfolding serial_def by blast

locale serial_component =
  fixes act :: "'s \<Rightarrow> 't \<Rightarrow> 's \<times> 't" and good :: "'s \<Rightarrow> bool" and fits :: "'p \<Rightarrow> 't \<Rightarrow> bool"
    and proj :: "'s \<Rightarrow> 'x" and eff :: "'p \<Rightarrow> 'x \<Rightarrow> 'x" and passed :: "'p \<Rightarrow> 't \<Rightarrow> bool"
    and ans :: "'p \<Rightarrow> 'x \<Rightarrow> 'a" and bears :: "'t \<Rightarrow> 'a \<Rightarrow> bool"
  assumes act_proj: "good s \<Longrightarrow> fits p t \<Longrightarrow> proj (fst (act s t)) =
      (if passed p (snd (act s t)) \<and> \<not> passed p t then eff p (proj s) else proj s)"
    and passed_stays: "good s \<Longrightarrow> fits p t \<Longrightarrow> passed p t \<Longrightarrow> passed p (snd (act s t))"
    and act_bears: "good s \<Longrightarrow> fits p t \<Longrightarrow> passed p (snd (act s t)) \<Longrightarrow> \<not> passed p t \<Longrightarrow>
      bears (snd (act s t)) (ans p (proj s))"
    and bears_stays: "good s \<Longrightarrow> fits p t \<Longrightarrow> passed p t \<Longrightarrow> bears t a \<Longrightarrow> bears (snd (act s t)) a"
begin

lemma serial_act:
  assumes "serial proj eff passed ans bears x0 ps s ts" and "good s" and "i < length ts"
    and "fits (ps ! i) (ts ! i)" and "act s (ts ! i) = (s', t')"
  shows "serial proj eff passed ans bears x0 ps s' (ts[i := t'])"
proof -
  obtain js where js: "distinct js" "\<And>j. j \<in> set js \<longleftrightarrow> j < length ts \<and> passed (ps ! j) (ts ! j)"
      "proj s = foldl (\<lambda>x j. eff (ps ! j) x) x0 js"
    and bear: "\<And>k. k < length js \<Longrightarrow>
       bears (ts ! (js ! k)) (ans (ps ! (js ! k)) (foldl (\<lambda>x j. eff (ps ! j) x) x0 (take k js)))"
    using serialE [OF assms(1)] by blast
  have bear': "bears (ts[i := t'] ! (js ! k)) (ans (ps ! (js ! k)) (foldl (\<lambda>x j. eff (ps ! j) x) x0 (take k js)))"
    if k: "k < length js" for k
  proof (cases "js ! k = i")
    case True
    have "passed (ps ! i) (ts ! i)" using js(2) [of i] nth_mem [OF k] True by simp
    with bears_stays [OF assms(2,4)] bear [OF k] True assms(3,5) show ?thesis by force
  qed (use bear [OF k] in simp)
  show ?thesis
  proof (cases "passed (ps ! i) t' \<and> \<not> passed (ps ! i) (ts ! i)")
    case True
    then have eff: "proj s' = eff (ps ! i) (proj s)"
      using act_proj [OF assms(2,4)] assms(5) by simp
    have new: "bears t' (ans (ps ! i) (proj s))"
      using act_bears [OF assms(2,4)] assms(5) True by simp
    show ?thesis
    proof (rule serialI [of "js @ [i]"])
      show "distinct (js @ [i])" using js(1,2) True by simp
      show "j \<in> set (js @ [i]) \<longleftrightarrow> j < length (ts[i := t']) \<and> passed (ps ! j) (ts[i := t'] ! j)" for j
        using True assms(3) by (cases "j = i") (simp_all add: js(2))
      show "proj s' = foldl (\<lambda>x j. eff (ps ! j) x) x0 (js @ [i])" by (simp add: eff js(3))
      show "bears (ts[i := t'] ! ((js @ [i]) ! k))
          (ans (ps ! ((js @ [i]) ! k)) (foldl (\<lambda>x j. eff (ps ! j) x) x0 (take k (js @ [i]))))"
        if "k < length (js @ [i])" for k
      proof (cases "k = length js")
        case True
        with new js(3) assms(3) show ?thesis by simp
      next
        case False
        with that bear' show ?thesis by (simp add: nth_append)
      qed
    qed
  next
    case False
    then have same: "passed (ps ! i) t' = passed (ps ! i) (ts ! i)"
      using passed_stays [OF assms(2,4)] assms(5) by auto
    then have "proj s' = proj s" using act_proj [OF assms(2,4)] assms(5) by simp
    moreover have "j \<in> set js \<longleftrightarrow> j < length (ts[i := t']) \<and> passed (ps ! j) (ts[i := t'] ! j)" for j
      using same assms(3) by (cases "j = i") (simp_all add: js(2))
    ultimately show ?thesis using js(1,3) bear' by (intro serialI [of js]) simp_all
  qed
qed

lemma serial_arrive:
  assumes "serial proj eff passed ans bears x0 ps s ts" and "length ps = length ts" and "\<not> passed p t"
  shows "serial proj eff passed ans bears x0 (ps @ [p]) s (ts @ [t])"
proof -
  obtain js where js: "distinct js" "\<And>j. j \<in> set js \<longleftrightarrow> j < length ts \<and> passed (ps ! j) (ts ! j)"
      "proj s = foldl (\<lambda>x j. eff (ps ! j) x) x0 js"
    and bear: "\<And>k. k < length js \<Longrightarrow>
       bears (ts ! (js ! k)) (ans (ps ! (js ! k)) (foldl (\<lambda>x j. eff (ps ! j) x) x0 (take k js)))"
    using serialE [OF assms(1)] by blast
  have fold: "foldl (\<lambda>x j. eff ((ps @ [p]) ! j) x) x0 ks = foldl (\<lambda>x j. eff (ps ! j) x) x0 ks"
    if "set ks \<subseteq> set js" for ks
    by (rule foldl_cong) (use that in \<open>auto simp: js(2) assms(2) nth_append\<close>)
  show ?thesis
  proof (rule serialI [of js])
    show "j \<in> set js \<longleftrightarrow> j < length (ts @ [t]) \<and> passed ((ps @ [p]) ! j) ((ts @ [t]) ! j)" for j
      using assms(2,3) by (cases "j = length ts") (auto simp: js(2) nth_append)
    show "proj s = foldl (\<lambda>x j. eff ((ps @ [p]) ! j) x) x0 js" by (simp add: js(3) fold)
    show "bears ((ts @ [t]) ! (js ! k))
        (ans ((ps @ [p]) ! (js ! k)) (foldl (\<lambda>x j. eff ((ps @ [p]) ! j) x) x0 (take k js)))" if "k < length js" for k
    proof -
      have "js ! k < length ts" using nth_mem [OF that] by (simp add: js(2))
      moreover have "set (take k js) \<subseteq> set js" by (rule set_take_subset)
      ultimately show ?thesis using bear [OF that] by (simp only: fold) (simp add: nth_append assms(2))
    qed
  qed (rule js(1))
qed

lemma serial_other:
  "serial proj eff passed ans bears x0 ps s ts \<Longrightarrow> proj s' = proj s \<Longrightarrow>
   serial proj eff passed ans bears x0 ps s' ts"
  by (simp add: serial_def)

text \<open>The packets whose tasks have passed, with the tasks, in the order of the component.\<close>

lemma serial_order:
  assumes "serial proj eff passed ans bears x0 ps s ts" and "length ps = length ts"
  obtains qs where "mset qs = mset (filter (\<lambda>(p, t). passed p t) (zip ps ts))"
    "proj s = foldl (\<lambda>x p. eff p x) x0 (map fst qs)"
    "\<And>k. k < length qs \<Longrightarrow>
       bears (snd (qs ! k)) (ans (fst (qs ! k)) (foldl (\<lambda>x p. eff p x) x0 (take k (map fst qs))))"
proof -
  obtain js where js: "distinct js" "\<And>j. j \<in> set js \<longleftrightarrow> j < length ts \<and> passed (ps ! j) (ts ! j)"
      "proj s = foldl (\<lambda>x j. eff (ps ! j) x) x0 js"
    and bear: "\<And>k. k < length js \<Longrightarrow>
       bears (ts ! (js ! k)) (ans (ps ! (js ! k)) (foldl (\<lambda>x j. eff (ps ! j) x) x0 (take k js)))"
    using serialE [OF assms(1)] by blast
  let ?at = "\<lambda>j. (ps ! j, ts ! j)"
  have "set js = set (filter (\<lambda>j. passed (ps ! j) (ts ! j)) [0..<length ts])"
    by (rule set_eqI) (simp add: js(2))
  then have "mset js = mset (filter (\<lambda>j. passed (ps ! j) (ts ! j)) [0..<length ts])"
    using js(1) by (simp only: set_eq_iff_mset_eq_distinct distinct_upt distinct_filter)
  then have "mset (map ?at js) = mset (map ?at (filter (\<lambda>j. passed (ps ! j) (ts ! j)) [0..<length ts]))"
    by (simp only: mset_map)
  also have "map ?at (filter (\<lambda>j. passed (ps ! j) (ts ! j)) [0..<length ts]) =
      filter (\<lambda>(p, t). passed p t) (map ?at [0..<length ts])"
    by (simp add: filter_map comp_def)
  also have "map ?at [0..<length ts] = zip ps ts"
    by (rule nth_equalityI) (simp_all add: assms(2))
  finally show ?thesis
    using js(3) bear by (intro that [of "map ?at js"]) (simp_all add: foldl_map take_map comp_def)
qed

end

subsection \<open>What a packet changes in each component\<close>

text \<open>An arrival is the clock readings of a task and its packet; \<open>opened\<close> is what the packet decrypts to.\<close>

type_synonym arrival = "clock \<times> bytes"

definition opened where
  "opened dp secret raw =
     (if length raw < 12 then None
      else let (dev, ver) = header_of raw
        in case crypto_open dp (device_key dp secret dev) (drop 12 raw) of
             Inl e \<Rightarrow> None | Inr d \<Rightarrow> Some (dev, ver, d))"

fun on_opened where
  "on_opened dp secret f (ck, raw) x =
     (case opened dp secret raw of None \<Rightarrow> x | Some (dev, ver, d) \<Rightarrow> f ck raw dev ver d x)"

definition stores where
  "stores dp lo hi ck raw dev ver d s =
     (if stored_payload d then fst (store_keyframe dp s (from_world dp (center_of d) lo hi) ver (sdf_value_of d)) else s)"

definition syncs where
  "syncs dp ck raw dev ver d hub = fst (hub_calls dp hub ck dev ver)"

definition routes where
  "routes ck raw dev ver d q = fst (route_with_priority q (envelope ck dev ver (is_keyframe_payload d)))"

definition tells where
  "tells dp ck raw dev ver d tel =
     record_packet (sk dp) tel dev (length raw) (latency_of ck) (is_keyframe_payload d)"

text \<open>The points of a task's program after which it has made each change.\<close>

fun passed_store :: "arrival \<Rightarrow> task \<Rightarrow> bool" where
  "passed_store p (Fresh ck raw) = False"
| "passed_store p (At s w) = (s \<noteq> Store)"
| "passed_store p _ = True"

fun passed_sync :: "arrival \<Rightarrow> task \<Rightarrow> bool" where
  "passed_sync p (At s w) = (s \<in> {Queue, Tell, Count})"
| "passed_sync p (Finished r) = (\<exists>x. r = Inr x)"
| "passed_sync p _ = False"

text \<open>The error the storage reports for a packet, if any, and what a task has heard of it.\<close>

fun storage_report where
  "storage_report dp secret lo hi (ck, raw) s =
     (case opened dp secret raw of
        None \<Rightarrow> None
      | Some (dev, ver, d) \<Rightarrow>
          if stored_payload d
          then (case snd (store_keyframe dp s (from_world dp (center_of d) lo hi) ver (sdf_value_of d)) of
                  Inl msg \<Rightarrow> Some msg | Inr _ \<Rightarrow> None)
          else None)"

fun heard_storage :: "task \<Rightarrow> string option \<Rightarrow> bool" where
  "heard_storage (Finished (Inl (StorageError msg))) a = (a = Some msg)"
| "heard_storage _ a = (a = None)"

lemma heard_storage_error: "(\<And>msg. e \<noteq> StorageError msg) \<Longrightarrow> heard_storage (Finished (Inl e)) a = (a = None)"
  by (cases e) auto

text \<open>How many devices the hub informs, and what a task has noted.\<close>

fun hub_answer where
  "hub_answer dp secret (ck, raw) hub =
     (case opened dp secret raw of
        None \<Rightarrow> 0 | Some (dev, ver, d) \<Rightarrow> length (snd (hub_calls dp hub ck dev ver)))"

fun heard_hub :: "task \<Rightarrow> nat \<Rightarrow> bool" where
  "heard_hub (At s w) a = (length (w_recipients w) = a)"
| "heard_hub (Finished (Inr r)) a = (r_sync_recipients r = a)"
| "heard_hub _ a = True"

text \<open>A task that works on an arrival.\<close>

fun works_on where
  "works_on dp secret (ck, raw) t \<longleftrightarrow>
     task_ok dp secret raw t \<and>
     (case t of Fresh ck' raw' \<Rightarrow> ck' = ck
      | At s w \<Rightarrow> w_clock w = ck \<and> opened dp secret raw = Some (w_dev w, w_ver w, w_data w) \<and>
          (s = Route \<longrightarrow> stored_payload (w_data w))
      | _ \<Rightarrow> True)"

definition pipeline_good ::
  "('key, 'sdf, 'mc, 'cache, 'cdn, 'hub, 'dd, 'hll, 'cms, 'h) deps \<Rightarrow> bytes \<Rightarrow> vec3 \<Rightarrow> vec3
     \<Rightarrow> ('key, 'sdf, 'cache, 'cdn, 'hub, 'dd, 'hll, 'cms) pipeline \<Rightarrow> bool" where
  "pipeline_good dp secret lo hi P \<longleftrightarrow> pipeline_ok dp secret P \<and> world_min P = lo \<and> world_max P = hi"

lemmas stage_defs = store_frame_def route_frame_cdn_def read_center_eq read_sdf_value_eq sync_device_def
  queue_message_def record_telemetry_def count_request_def

lemma opened_simps:
  "length raw < 12 \<Longrightarrow> opened dp secret raw = None"
  "12 \<le> length raw \<Longrightarrow> header_of raw = (dev, ver) \<Longrightarrow>
     crypto_open dp (device_key dp secret dev) (drop 12 raw) = Inr d \<Longrightarrow> opened dp secret raw = Some (dev, ver, d)"
  by (simp_all add: opened_def)

lemma open_packet_opened:
  assumes "pipeline_ok dp secret P"
  shows "(\<exists>ks. fst (open_packet dp P ck raw) = P\<lparr>key_store := ks\<rparr>) \<and>
    (case opened dp secret raw of
       None \<Rightarrow> \<exists>e. snd (open_packet dp P ck raw) = Finished (Inl e) \<and> (\<forall>msg. e \<noteq> StorageError msg)
     | Some (dev, ver, d) \<Rightarrow> snd (open_packet dp P ck raw) = At (if stored_payload d then Store else Lookup)
         \<lparr>w_clock = ck, w_raw = raw, w_dev = dev, w_ver = ver, w_data = d, w_node = None, w_hit = False,
          w_recipients = [], w_queue = 0\<rparr>)"
proof (cases "length raw < 12")
  case True
  have "P = P\<lparr>key_store := key_store P\<rparr>" by simp
  then have "\<exists>ks. P = P\<lparr>key_store := ks\<rparr>" by blast
  with True show ?thesis by (simp add: task_defs opened_def)
next
  case False
  obtain dev ver where h: "header_of raw = (dev, ver)" by (cases "header_of raw")
  obtain ks key where d: "derive_device_key (derive_key dp) (key_store P) dev = (ks, key)" by fastforce
  with derive_shared(1) [OF assms, of dev] have "key = device_key dp secret dev" by simp
  moreover have "subslice 12 (length raw) raw = Some (drop 12 raw)" using False by (simp add: subslice_def)
  moreover have "\<exists>ks'. P\<lparr>key_store := ks\<rparr> = P\<lparr>key_store := ks'\<rparr>" by blast
  ultimately show ?thesis
    using False h d by (simp add: task_defs opened_def stored_payload_def Let_def split: sum.split)
qed

lemma open_packet_frame:
  assumes "pipeline_ok dp secret P"
  shows "sdf_storage (fst (open_packet dp P ck raw)) = sdf_storage P"
    "sync_hub (fst (open_packet dp P ck raw)) = sync_hub P"
    "queue_router (fst (open_packet dp P ck raw)) = queue_router P"
    "telemetry (fst (open_packet dp P ck raw)) = telemetry P"
    "world_min (fst (open_packet dp P ck raw)) = world_min P"
    "world_max (fst (open_packet dp P ck raw)) = world_max P"
  using open_packet_opened [OF assms, of ck raw] by auto

lemma works_on_step:
  assumes "pipeline_good dp secret lo hi P" and "works_on dp secret p t"
  shows "works_on dp secret p (snd (task_step dp P t))"
proof (cases "finished t")
  case True
  with assms(2) show ?thesis by (simp add: stays_settled)
next
  case False
  obtain ck raw where p: "p = (ck, raw)" by (cases p)
  have pok: "pipeline_ok dp secret P" using assms(1) by (simp add: pipeline_good_def)
  have ok: "task_ok dp secret raw (snd (task_step dp P t))"
    using task_step_ok [OF pok, of raw t] assms(2) by (simp add: p)
  note cases = False assms(2) open_packet_opened [OF pok, of ck raw]
  show ?thesis
  proof (cases "snd (task_step dp P t)")
    case (Fresh ck' raw')
    with cases show ?thesis
      by (cases "(dp, P, t)" rule: task_step.cases)
        (auto simp: p stage_defs split_def Let_def split: option.splits sum.splits)
  next
    case (At s w)
    have "w_clock w = ck \<and> (s = Route \<longrightarrow> stored_payload (w_data w))"
      using At cases
      by (cases "(dp, P, t)" rule: task_step.cases)
        (auto simp: p stage_defs split_def Let_def split: option.splits sum.splits if_splits)
    with At ok show ?thesis by (simp add: p opened_simps)
  qed (use ok in \<open>simp_all add: p\<close>)
qed

lemma good_step:
  assumes "pipeline_good dp secret lo hi P" and "works_on dp secret p t"
  shows "pipeline_good dp secret lo hi (fst (task_step dp P t))"
proof -
  have "world_min (fst (task_step dp P t)) = world_min P \<and> world_max (fst (task_step dp P t)) = world_max P"
    using open_packet_frame [of dp secret P] assms(1)
    by (cases "(dp, P, t)" rule: task_step.cases)
      (auto simp: pipeline_good_def store_frame_def route_frame_cdn_def read_center_eq read_sdf_value_eq
        sync_device_def queue_message_def record_telemetry_def count_request_def split_def Let_def
        split: sum.split option.split)
  with assms task_step_ok [of dp secret P "snd p" t] show ?thesis
    by (cases p) (simp add: pipeline_good_def)
qed

lemmas component_defs = stores_def syncs_def routes_def tells_def hub_calls_def envelope_def latency_of_def

lemma good_queue:
  "pipeline_good dp secret lo hi P \<Longrightarrow> snd (route_with_priority (queue_router P) m) \<noteq> None"
  by (simp add: pipeline_good_def pipeline_ok_def route_with_priority_queue checked_rem_def)

lemma good_ok: "pipeline_good dp secret lo hi P \<Longrightarrow> pipeline_ok dp secret P"
  by (simp add: pipeline_good_def)

interpretation telling: serial_component "task_step dp" "pipeline_good dp secret lo hi" "works_on dp secret"
    telemetry "on_opened dp secret (tells dp)" "\<lambda>p. passed_tell" "\<lambda>p x. ()" "\<lambda>t a. True" for dp secret lo hi
proof unfold_locales
  fix P p t
  assume good: "pipeline_good dp secret lo hi P" and works: "works_on dp secret p t"
  note state = good [unfolded pipeline_good_def]
  note first = open_packet_opened [OF good_ok [OF good], of "fst p" "snd p"]
  note step = works first state
  show "telemetry (fst (task_step dp P t)) =
      (if (\<lambda>p. passed_tell) p (snd (task_step dp P t)) \<and> \<not> (\<lambda>p. passed_tell) p t
       then on_opened dp secret (tells dp) p (telemetry P) else telemetry P)"
    using step
    by (cases p; cases "(dp, P, t)" rule: task_step.cases)
      (auto simp: good_queue [OF good] stage_defs component_defs split_def Let_def split: option.splits sum.splits)
  show "(\<lambda>p. passed_tell) p (snd (task_step dp P t))" if "(\<lambda>p. passed_tell) p t"
    using that step
    by (cases p; cases "(dp, P, t)" rule: task_step.cases)
      (auto simp: good_queue [OF good] stage_defs split_def Let_def split: option.splits sum.splits)
  show "(\<lambda>t a. True) (snd (task_step dp P t)) ((\<lambda>p x. ()) p (telemetry P))" by simp
qed simp

interpretation routing: serial_component "task_step dp" "pipeline_good dp secret lo hi" "works_on dp secret"
    queue_router "on_opened dp secret routes" "\<lambda>p. passed_queue" "\<lambda>p x. ()" "\<lambda>t a. True" for dp secret lo hi
proof unfold_locales
  fix P p t
  assume good: "pipeline_good dp secret lo hi P" and works: "works_on dp secret p t"
  note state = good [unfolded pipeline_good_def]
  note first = open_packet_opened [OF good_ok [OF good], of "fst p" "snd p"]
  note step = works first state
  show "queue_router (fst (task_step dp P t)) =
      (if (\<lambda>p. passed_queue) p (snd (task_step dp P t)) \<and> \<not> (\<lambda>p. passed_queue) p t
       then on_opened dp secret routes p (queue_router P) else queue_router P)"
    using step
    by (cases p; cases "(dp, P, t)" rule: task_step.cases)
      (auto simp: good_queue [OF good] stage_defs component_defs split_def Let_def split: option.splits sum.splits)
  show "(\<lambda>p. passed_queue) p (snd (task_step dp P t))" if "(\<lambda>p. passed_queue) p t"
    using that step
    by (cases p; cases "(dp, P, t)" rule: task_step.cases)
      (auto simp: good_queue [OF good] stage_defs split_def Let_def split: option.splits sum.splits)
  show "(\<lambda>t a. True) (snd (task_step dp P t)) ((\<lambda>p x. ()) p (queue_router P))" by simp
qed simp

interpretation syncing: serial_component "task_step dp" "pipeline_good dp secret lo hi" "works_on dp secret"
    sync_hub "on_opened dp secret (syncs dp)" passed_sync "hub_answer dp secret" heard_hub for dp secret lo hi
proof unfold_locales
  fix P p t
  assume good: "pipeline_good dp secret lo hi P" and works: "works_on dp secret p t"
  note state = good [unfolded pipeline_good_def]
  note first = open_packet_opened [OF good_ok [OF good], of "fst p" "snd p"]
  note step = works first state
  show "sync_hub (fst (task_step dp P t)) =
      (if passed_sync p (snd (task_step dp P t)) \<and> \<not> passed_sync p t
       then on_opened dp secret (syncs dp) p (sync_hub P) else sync_hub P)"
    using step
    by (cases p; cases "(dp, P, t)" rule: task_step.cases)
      (auto simp: good_queue [OF good] stage_defs component_defs split_def Let_def
        split: option.splits sum.splits if_splits)
  show "passed_sync p (snd (task_step dp P t))" if "passed_sync p t"
    using that step
    by (cases p; cases "(dp, P, t)" rule: task_step.cases)
      (auto simp: good_queue [OF good] stage_defs split_def Let_def split: option.splits sum.splits)
  show "heard_hub (snd (task_step dp P t)) (hub_answer dp secret p (sync_hub P))"
    if "passed_sync p (snd (task_step dp P t))" "\<not> passed_sync p t"
    using that step
    by (cases p; cases "(dp, P, t)" rule: task_step.cases)
      (auto simp: good_queue [OF good] stage_defs component_defs split_def Let_def
        split: option.splits sum.splits if_splits)
  show "heard_hub (snd (task_step dp P t)) a" if "passed_sync p t" "heard_hub t a" for a
    using that step
    by (cases p; cases "(dp, P, t)" rule: task_step.cases)
      (auto simp: good_queue [OF good] stage_defs work_result_def split_def Let_def split: option.splits sum.splits)
qed

interpretation storing: serial_component "task_step dp" "pipeline_good dp secret lo hi" "works_on dp secret"
    sdf_storage "on_opened dp secret (stores dp lo hi)" passed_store "storage_report dp secret lo hi" heard_storage for dp secret lo hi
proof unfold_locales
  fix P p t
  assume good: "pipeline_good dp secret lo hi P" and works: "works_on dp secret p t"
  note state = good [unfolded pipeline_good_def]
  note first = open_packet_opened [OF good_ok [OF good], of "fst p" "snd p"]
  note step = works first state
  show "sdf_storage (fst (task_step dp P t)) =
      (if passed_store p (snd (task_step dp P t)) \<and> \<not> passed_store p t
       then on_opened dp secret (stores dp lo hi) p (sdf_storage P) else sdf_storage P)"
    using step
    by (cases p; cases "(dp, P, t)" rule: task_step.cases)
      (auto simp: good_queue [OF good] stage_defs component_defs split_def Let_def split: option.splits sum.splits)
  show "passed_store p (snd (task_step dp P t))" if "passed_store p t"
    using that step
    by (cases p; cases "(dp, P, t)" rule: task_step.cases)
      (auto simp: good_queue [OF good] stage_defs split_def Let_def split: option.splits sum.splits)
  show "heard_storage (snd (task_step dp P t)) (storage_report dp secret lo hi p (sdf_storage P))"
    if "passed_store p (snd (task_step dp P t))" "\<not> passed_store p t"
    using that step
    by (cases p; cases "(dp, P, t)" rule: task_step.cases)
      (auto simp: good_queue [OF good] stage_defs component_defs heard_storage_error split_def Let_def
        split: option.splits sum.splits)
  show "heard_storage (snd (task_step dp P t)) a" if "passed_store p t" "heard_storage t a" for a
    using that step
    by (cases p; cases "(dp, P, t)" rule: task_step.cases)
      (auto simp: good_queue [OF good] stage_defs work_result_def split_def Let_def split: option.splits sum.splits)
qed

subsection \<open>The invariant of a schedule\<close>

fun arrivals :: "'cdn label list \<Rightarrow> arrival list" where
  "arrivals [] = []"
| "arrivals (Arrive ck raw # ls) = (ck, raw) # arrivals ls"
| "arrivals (l # ls) = arrivals ls"

lemma arrivals_append: "arrivals (xs @ ys) = arrivals xs @ arrivals ys"
  by (induction xs rule: arrivals.induct) simp_all

definition serial_ok where
  "serial_ok dp secret lo hi P0 ps c \<longleftrightarrow>
     pipeline_good dp secret lo hi (pl c) \<and> list_all2 (works_on dp secret) ps (tasks c) \<and>
     serial telemetry (on_opened dp secret (tells dp)) (\<lambda>p. passed_tell) (\<lambda>p x. ()) (\<lambda>t a. True)
       (telemetry P0) ps (pl c) (tasks c) \<and>
     serial queue_router (on_opened dp secret routes) (\<lambda>p. passed_queue) (\<lambda>p x. ()) (\<lambda>t a. True)
       (queue_router P0) ps (pl c) (tasks c) \<and>
     serial sync_hub (on_opened dp secret (syncs dp)) passed_sync (hub_answer dp secret) heard_hub
       (sync_hub P0) ps (pl c) (tasks c) \<and>
     serial sdf_storage (on_opened dp secret (stores dp lo hi)) passed_store (storage_report dp secret lo hi)
       heard_storage (sdf_storage P0) ps (pl c) (tasks c)"

lemma serial_ok_initial:
  "pipeline_good dp secret lo hi P \<Longrightarrow> serial_ok dp secret lo hi P [] (initial P)"
  by (simp add: serial_ok_def initial_def serial_def)

lemma serial_ok_step:
  assumes "serial_ok dp secret lo hi P0 ps c" and "gstep dp c l c'"
  shows "serial_ok dp secret lo hi P0 (ps @ arrivals [l]) c'"
  using assms(2)
proof cases
  case (arrive ck raw)
  have n: "length ps = length (tasks c)" using assms(1) by (auto simp: serial_ok_def dest: list_all2_lengthD)
  show ?thesis
    using assms(1) n
    by (auto simp: arrive serial_ok_def intro!: list_all2_appendI telling.serial_arrive
        syncing.serial_arrive routing.serial_arrive storing.serial_arrive)
next
  case (act i P' t')
  have good: "pipeline_good dp secret lo hi (pl c)" and all: "list_all2 (works_on dp secret) ps (tasks c)"
    using assms(1) by (simp_all add: serial_ok_def)
  have works: "works_on dp secret (ps ! i) (tasks c ! i)" using all act(3) by (simp add: list_all2_conv_all_nth)
  note step = good act(3) works act(6)
  have "list_all2 (works_on dp secret) ps ((tasks c)[i := t'])"
    using list_all2_update_cong [OF all works_on_step [OF good works], of i] act(6) by simp
  moreover have "pipeline_good dp secret lo hi P'" using good_step [OF good works] act(6) by simp
  ultimately show ?thesis
    using assms(1) telling.serial_act [OF _ step] syncing.serial_act [OF _ step]
      routing.serial_act [OF _ step] storing.serial_act [OF _ step]
    by (simp add: act serial_ok_def)
qed (use assms(1) in \<open>simp_all add: serial_ok_def serial_def pipeline_good_def pipeline_ok_def set_cdn_router_def\<close>)

lemma serial_ok_steps:
  "gsteps dp c ls c' \<Longrightarrow> serial_ok dp secret lo hi P0 [] c \<Longrightarrow> serial_ok dp secret lo hi P0 (arrivals ls) c'"
  by (induction rule: gsteps.induct) (auto simp: arrivals_append dest: serial_ok_step)

subsection \<open>The sequential pipeline makes the same changes\<close>

definition packets_in_order :: "arrival list \<Rightarrow> 'cdn pipe_op list" where
  "packets_in_order ps = map (\<lambda>(ck, raw). Packet ck raw) ps"

definition after_packets where
  "after_packets dp P ps = fst (run (pipe_step dp) P (packets_in_order ps))"

lemma after_packets_Nil: "after_packets dp P [] = P"
  by (simp add: after_packets_def packets_in_order_def)

lemma after_packets_Cons:
  "pipeline_ok dp secret P \<Longrightarrow>
   after_packets dp P ((ck, raw) # ps) = after_packets dp (fst (packet_result dp secret P ck raw)) ps"
  by (simp add: after_packets_def packets_in_order_def pipe_step_Packet del: pipe_step.simps)

lemma packet_result_good:
  assumes "pipeline_good dp secret lo hi P"
  shows "pipeline_good dp secret lo hi (fst (packet_result dp secret P ck raw))"
proof -
  have "world_min (fst (packet_result dp secret P ck raw)) = lo \<and> world_max (fst (packet_result dp secret P ck raw)) = hi"
    using assms
    by (auto simp: pipeline_good_def packet_result_def accepted_state_def split_def Let_def
        split: sum.split ingest_error.split)
  with assms packet_result_ok [OF good_ok [OF assms]] show ?thesis by (simp add: pipeline_good_def)
qed

lemma after_packets_good:
  "pipeline_good dp secret lo hi P \<Longrightarrow> pipeline_good dp secret lo hi (after_packets dp P ps)"
proof (induction ps arbitrary: P)
  case (Cons p ps)
  then show ?case by (cases p) (simp add: after_packets_Cons [OF good_ok [OF Cons.prems]] packet_result_good)
qed (simp add: after_packets_Nil)

text \<open>The storage after a run, and the verdict on each packet, whatever errors the storage reports.\<close>

lemma packet_storage:
  assumes "pipeline_good dp secret lo hi P"
  shows "sdf_storage (fst (packet_result dp secret P ck raw)) =
      on_opened dp secret (stores dp lo hi) (ck, raw) (sdf_storage P)"
proof -
  have world: "world_min P = lo" "world_max P = hi" using assms by (simp_all add: pipeline_good_def)
  show ?thesis
    by (auto simp: packet_result_def verdict_def opened_def accepted_state_def stores_def world store_call_def
        stored_sdf_def morton_of_def split_def Let_def split: sum.split)
qed

lemma after_packets_storage:
  "pipeline_good dp secret lo hi P \<Longrightarrow>
   sdf_storage (after_packets dp P ps) = foldl (\<lambda>x p. on_opened dp secret (stores dp lo hi) p x) (sdf_storage P) ps"
proof (induction ps arbitrary: P)
  case (Cons p ps)
  obtain ck raw where "p = (ck, raw)" by (cases p)
  with Cons.IH [OF packet_result_good [OF Cons.prems]] packet_storage [OF Cons.prems] show ?case
    by (simp add: after_packets_Cons [OF good_ok [OF Cons.prems]])
qed (simp add: after_packets_Nil)

text \<open>The task's answer and the sequential one agree on what does not depend on cache, hub and CDN router.\<close>

fun same_verdict :: "task \<Rightarrow> pipe_out \<Rightarrow> bool" where
  "same_verdict (Finished (Inl e)) (Rejected e') = (e = e')"
| "same_verdict (Finished (Inr r)) (Accepted r') =
     (r_device_id r = r_device_id r' \<and> r_is_keyframe r = r_is_keyframe r' \<and>
      r_scene_version r = r_scene_version r' \<and> r_queue_index r = r_queue_index r')"
| "same_verdict t out = False"

lemma verdict_explained:
  assumes good: "pipeline_good dp secret lo hi P" and works: "works_on dp secret (ck, raw) t" and "finished t"
    and heard: "heard_storage t (storage_report dp secret lo hi (ck, raw) (sdf_storage P))"
  shows "same_verdict t (snd (pipe_step dp P (Packet ck raw)))"
proof -
  have world: "world_min P = lo" "world_max P = hi" using good by (simp_all add: pipeline_good_def)
  from works assms(3) obtain r where t: "t = Finished r" by (cases t) auto
  with works have settled: "settled dp secret raw r" by simp
  show ?thesis
  proof (cases "opened dp secret raw")
    case None
    with settled show ?thesis
      unfolding t pipe_step_Packet [OF good_ok [OF good]]
      by (auto simp: packet_result_def verdict_def settled_def opened_def split_def Let_def
          split: sum.splits if_splits)
  next
    case (Some x)
    obtain dev ver d where x: "x = (dev, ver, d)" by (cases x)
    have len: "\<not> length raw < 12" and h: "header_of raw = (dev, ver)"
      and o: "crypto_open dp (device_key dp secret dev) (drop 12 raw) = Inr d"
      using Some x by (auto simp: opened_def split_def Let_def split: if_splits sum.splits)
    from settled have "(\<exists>msg. r = Inl (StorageError msg) \<and> stored_payload d) \<or>
        (\<exists>y. r = Inr y \<and> r_device_id y = dev \<and> r_scene_version y = ver \<and>
           r_is_keyframe y = is_keyframe_payload d \<and> r_queue_index y = ver mod 4)"
      using len h o by (simp add: settled_def)
    then show ?thesis
      using heard Some x len h o
      unfolding t pipe_step_Packet [OF good_ok [OF good]]
      by (auto simp: packet_result_def verdict_def accepted_result_def store_call_def morton_of_def world
          split_def Let_def split: sum.splits if_splits)
  qed
qed

lemma run_outputs:
  "k < length ps \<Longrightarrow> snd (run (pipe_step dp) P (packets_in_order ps)) ! k =
     snd (pipe_step dp (after_packets dp P (take k ps)) (case ps ! k of (ck, raw) \<Rightarrow> Packet ck raw))"
proof (induction ps arbitrary: P k)
  case (Cons p ps)
  then show ?case
    by (cases k) (simp_all add: after_packets_def packets_in_order_def split_def del: pipe_step.simps)
qed simp

text \<open>The other components, in a run in which the storage takes everything.\<close>

definition taking_all where
  "taking_all dp = dp\<lparr>store_keyframe := (\<lambda>s m ver v. (s, Inr ()))\<rparr>"

lemma taking_all_accepts: "storage_accepts (taking_all dp)"
  by (simp add: storage_accepts_def taking_all_def)

lemma taking_all_simps:
  fixes dp :: "('key, 'sdf, 'mc, 'cache, 'cdn, 'hub, 'dd, 'hll, 'cms, 'h) deps"
  shows "crypto_open (taking_all dp) = crypto_open dp" "device_key (taking_all dp) = device_key dp"
    "opened (taking_all dp) = opened dp" "tells (taking_all dp) = tells dp"
    "hub_calls (taking_all dp) = hub_calls dp" "syncs (taking_all dp) = syncs dp"
    "settled (taking_all dp) = settled dp" "hub_answer (taking_all dp) = hub_answer dp"
    "pipeline_good (taking_all dp) = pipeline_good dp" "on_opened (taking_all dp) = on_opened dp"
proof -
  show *: "crypto_open (taking_all dp) = crypto_open dp" "device_key (taking_all dp) = device_key dp"
    "tells (taking_all dp) = tells dp" "hub_calls (taking_all dp) = hub_calls dp"
    "pipeline_good (taking_all dp) = pipeline_good dp"
    by (simp_all add: taking_all_def device_key_def tells_def hub_calls_def pipeline_good_def pipeline_ok_def
        fun_eq_iff)
  show "opened (taking_all dp) = opened dp" "settled (taking_all dp) = settled dp"
    by (simp_all add: opened_def settled_def fun_eq_iff *)
  then show "hub_answer (taking_all dp) = hub_answer dp" "on_opened (taking_all dp) = on_opened dp"
    "syncs (taking_all dp) = syncs dp"
    by (simp_all add: fun_eq_iff hub_calls_def syncs_def split: option.split) (simp_all add: taking_all_def)
qed

lemma taking_all_works:
  fixes dp :: "('key, 'sdf, 'mc, 'cache, 'cdn, 'hub, 'dd, 'hll, 'cms, 'h) deps"
  shows "works_on (taking_all dp) secret p t = works_on dp secret p t"
  by (cases p; cases t) (simp_all add: taking_all_simps)

lemma packet_changes:
  assumes "pipeline_good dp secret lo hi P" and "storage_accepts dp"
  shows "telemetry (fst (packet_result dp secret P ck raw)) = on_opened dp secret (tells dp) (ck, raw) (telemetry P)"
    and "sync_hub (fst (packet_result dp secret P ck raw)) = on_opened dp secret (syncs dp) (ck, raw) (sync_hub P)"
    and "queue_router (fst (packet_result dp secret P ck raw)) = on_opened dp secret routes (ck, raw) (queue_router P)"
proof -
  have accepts: "snd (store_keyframe dp s m ver v) = Inr ()" for s m ver v
    using assms(2) by (simp add: storage_accepts_def)
  note eval = packet_result_def verdict_def opened_def accepts accepted_state_def component_defs
    store_call_def
  show "telemetry (fst (packet_result dp secret P ck raw)) = on_opened dp secret (tells dp) (ck, raw) (telemetry P)"
    "sync_hub (fst (packet_result dp secret P ck raw)) = on_opened dp secret (syncs dp) (ck, raw) (sync_hub P)"
    "queue_router (fst (packet_result dp secret P ck raw)) = on_opened dp secret routes (ck, raw) (queue_router P)"
    by (auto simp: eval split_def Let_def split: sum.split)
qed

lemma after_packets_changes:
  assumes "pipeline_good dp secret lo hi P" and "storage_accepts dp"
  shows "telemetry (after_packets dp P ps) = foldl (\<lambda>x p. on_opened dp secret (tells dp) p x) (telemetry P) ps"
    and "sync_hub (after_packets dp P ps) = foldl (\<lambda>x p. on_opened dp secret (syncs dp) p x) (sync_hub P) ps"
    and "queue_router (after_packets dp P ps) = foldl (\<lambda>x p. on_opened dp secret routes p x) (queue_router P) ps"
  using assms(1)
proof (atomize (full), induction ps arbitrary: P)
  case (Cons p ps)
  obtain ck raw where "p = (ck, raw)" by (cases p)
  with Cons.IH [OF packet_result_good [OF Cons.prems]] packet_changes [OF Cons.prems assms(2)] show ?case
    by (simp add: after_packets_Cons [OF good_ok [OF Cons.prems]])
qed (simp add: after_packets_Nil)

text \<open>Accepted tasks hear from the hub what the sequential run hears.\<close>

fun same_recipients :: "task \<Rightarrow> pipe_out \<Rightarrow> bool" where
  "same_recipients (Finished (Inr r)) (Accepted r') = (r_sync_recipients r = r_sync_recipients r')"
| "same_recipients t out = False"

lemma recipients_explained:
  assumes good: "pipeline_good dp secret lo hi P" and accepts: "storage_accepts dp"
    and works: "works_on dp secret (ck, raw) t" and "accepted t"
    and heard: "heard_hub t (hub_answer dp secret (ck, raw) (sync_hub P))"
  shows "same_recipients t (snd (pipe_step dp P (Packet ck raw)))"
proof -
  from assms(4) obtain r where t: "t = Finished (Inr r)" by (cases t) auto
  then have settled: "settled dp secret raw (Inr r)" using works by simp
  have "snd (store_keyframe dp s m ver v) = Inr ()" for s m ver v
    using accepts by (simp add: storage_accepts_def)
  then show ?thesis
    using settled heard
    unfolding t pipe_step_Packet [OF good_ok [OF good]]
    by (auto simp: settled_def opened_def packet_result_def verdict_def accepted_result_def store_call_def
        split_def Let_def split: sum.splits if_splits)
qed

subsection \<open>All tasks finished\<close>

lemma passed_finished:
  assumes "list_all finished ts" and "length ps = length ts"
  shows "filter (\<lambda>(p, t). passed_store p t) (zip ps ts) = zip ps ts"
    "filter (\<lambda>(p, t). passed_sync p t) (zip ps ts) = filter (\<lambda>(p, t). accepted t) (zip ps ts)"
    "filter (\<lambda>(p, t). passed_tell t) (zip ps ts) = filter (\<lambda>(p, t). accepted t) (zip ps ts)"
    "filter (\<lambda>(p, t). passed_queue t) (zip ps ts) = filter (\<lambda>(p, t). accepted t) (zip ps ts)"
proof -
  have "passed_store p t" "passed_sync p t = accepted t" "passed_tell t = accepted t" "passed_queue t = accepted t"
    if "finished t" for p t
    using that by (cases t; simp)+
  moreover have "finished t" if "(p, t) \<in> set (zip ps ts)" for p t
    using that assms(1) by (auto simp: list_all_iff dest: set_zip_rightD)
  ultimately show "filter (\<lambda>(p, t). passed_store p t) (zip ps ts) = zip ps ts"
    "filter (\<lambda>(p, t). passed_sync p t) (zip ps ts) = filter (\<lambda>(p, t). accepted t) (zip ps ts)"
    "filter (\<lambda>(p, t). passed_tell t) (zip ps ts) = filter (\<lambda>(p, t). accepted t) (zip ps ts)"
    "filter (\<lambda>(p, t). passed_queue t) (zip ps ts) = filter (\<lambda>(p, t). accepted t) (zip ps ts)"
    by (auto simp: filter_id_conv intro!: filter_cong)
qed

lemma works_zip:
  assumes "list_all2 (works_on dp secret) ps ts" and "mset qs = mset (filter Q (zip ps ts))" and "(p, t) \<in> set qs"
  shows "works_on dp secret p t" and "Q (p, t)" and "t \<in> set ts"
proof -
  have "(p, t) \<in> set (filter Q (zip ps ts))" using assms(2,3) by (metis set_mset_mset)
  with assms(1) show "works_on dp secret p t" "Q (p, t)" "t \<in> set ts"
    by (auto simp: list_all2_iff dest: set_zip_rightD)
qed

text \<open>The order of the storage explains every answer.\<close>

lemma storage_order:
  assumes ok: "serial_ok dp secret (world_min P) (world_max P) P ps c" and fin: "list_all finished (tasks c)"
    and good: "pipeline_good dp secret (world_min P) (world_max P) P"
  obtains qs where "mset qs = mset (zip ps (tasks c))"
    "sdf_storage (pl c) = sdf_storage (after_packets dp P (map fst qs))"
    "list_all2 same_verdict (map snd qs) (snd (run (pipe_step dp) P (packets_in_order (map fst qs))))"
proof -
  have works: "list_all2 (works_on dp secret) ps (tasks c)" using ok by (simp add: serial_ok_def)
  then have n: "length ps = length (tasks c)" by (rule list_all2_lengthD)
  from ok have "serial sdf_storage (on_opened dp secret (stores dp (world_min P) (world_max P))) passed_store
      (storage_report dp secret (world_min P) (world_max P)) heard_storage (sdf_storage P) ps (pl c) (tasks c)"
    by (simp add: serial_ok_def)
  from storing.serial_order [OF this n] obtain qs
    where qs: "mset qs = mset (filter (\<lambda>(p, t). passed_store p t) (zip ps (tasks c)))"
      "sdf_storage (pl c) = foldl (\<lambda>x p. on_opened dp secret (stores dp (world_min P) (world_max P)) p x)
         (sdf_storage P) (map fst qs)"
      and heard: "\<And>k. k < length qs \<Longrightarrow> heard_storage (snd (qs ! k)) (storage_report dp secret (world_min P) (world_max P)
         (fst (qs ! k)) (foldl (\<lambda>x p. on_opened dp secret (stores dp (world_min P) (world_max P)) p x)
           (sdf_storage P) (take k (map fst qs))))"
    by blast
  show ?thesis
  proof (rule that)
    show "mset qs = mset (zip ps (tasks c))" using qs(1) by (simp only: passed_finished(1) [OF fin n])
    show "sdf_storage (pl c) = sdf_storage (after_packets dp P (map fst qs))"
      using qs(2) by (simp only: after_packets_storage [OF good])
    show "list_all2 same_verdict (map snd qs) (snd (run (pipe_step dp) P (packets_in_order (map fst qs))))"
    proof (rule list_all2_all_nthI)
      fix k
      assume k: "k < length (map snd qs)"
      obtain ck raw t where q: "qs ! k = ((ck, raw), t)" by (metis prod.exhaust)
      then have mem: "((ck, raw), t) \<in> set qs" using nth_mem [of k qs] k by simp
      note task = works_zip [OF works qs(1) mem]
      have "finished t" using task(3) fin by (simp add: list_all_iff)
      from verdict_explained [OF after_packets_good [OF good] task(1) this, of "take k (map fst qs)"]
      have "same_verdict t (snd (pipe_step dp (after_packets dp P (take k (map fst qs))) (Packet ck raw)))"
        using heard [of k] k q by (simp add: after_packets_storage [OF good] del: pipe_step.simps)
      then show "same_verdict (map snd qs ! k) (snd (run (pipe_step dp) P (packets_in_order (map fst qs))) ! k)"
        using k q run_outputs [of k "map fst qs" dp P] by (simp del: pipe_step.simps)
    qed (simp add: packets_in_order_def)
  qed
qed

lemma hub_order:
  assumes ok: "serial_ok dp secret (world_min P) (world_max P) P ps c" and fin: "list_all finished (tasks c)"
    and good: "pipeline_good dp secret (world_min P) (world_max P) P"
  obtains qs where "mset qs = mset (filter (\<lambda>(p, t). accepted t) (zip ps (tasks c)))"
    "sync_hub (pl c) = sync_hub (after_packets (taking_all dp) P (map fst qs))"
    "list_all2 same_recipients (map snd qs)
       (snd (run (pipe_step (taking_all dp)) P (packets_in_order (map fst qs))))"
proof -
  let ?dp = "taking_all dp"
  have good': "pipeline_good ?dp secret (world_min P) (world_max P) P" using good by (simp only: taking_all_simps)
  have works: "list_all2 (works_on dp secret) ps (tasks c)" using ok by (simp add: serial_ok_def)
  then have n: "length ps = length (tasks c)" by (rule list_all2_lengthD)
  from ok have "serial sync_hub (on_opened dp secret (syncs dp)) passed_sync (hub_answer dp secret) heard_hub
      (sync_hub P) ps (pl c) (tasks c)"
    by (simp add: serial_ok_def)
  from syncing.serial_order [OF this n] obtain qs
    where qs: "mset qs = mset (filter (\<lambda>(p, t). passed_sync p t) (zip ps (tasks c)))"
      "sync_hub (pl c) = foldl (\<lambda>x p. on_opened dp secret (syncs dp) p x) (sync_hub P) (map fst qs)"
      and heard: "\<And>k. k < length qs \<Longrightarrow> heard_hub (snd (qs ! k)) (hub_answer dp secret (fst (qs ! k))
         (foldl (\<lambda>x p. on_opened dp secret (syncs dp) p x) (sync_hub P) (take k (map fst qs))))"
    by blast
  note hub = after_packets_changes(2) [OF good' taking_all_accepts, unfolded taking_all_simps]
  show ?thesis
  proof (rule that)
    show "mset qs = mset (filter (\<lambda>(p, t). accepted t) (zip ps (tasks c)))"
      using qs(1) by (simp only: passed_finished(2) [OF fin n])
    show "sync_hub (pl c) = sync_hub (after_packets ?dp P (map fst qs))"
      using qs(2) by (simp only: hub)
    show "list_all2 same_recipients (map snd qs) (snd (run (pipe_step ?dp) P (packets_in_order (map fst qs))))"
    proof (rule list_all2_all_nthI)
      fix k
      assume k: "k < length (map snd qs)"
      obtain ck raw t where q: "qs ! k = ((ck, raw), t)" by (metis prod.exhaust)
      then have mem: "((ck, raw), t) \<in> set qs" using nth_mem [of k qs] k by simp
      note task = works_zip [OF works qs(1) mem]
      have "accepted t" using task(2,3) fin by (cases t) (auto simp: list_all_iff)
      moreover have "works_on ?dp secret (ck, raw) t"
        using task(1) by (simp only: taking_all_works)
      moreover have "heard_hub t (hub_answer ?dp secret (ck, raw) (sync_hub (after_packets ?dp P (take k (map fst qs)))))"
        using heard [of k] k q by (simp add: hub taking_all_simps)
      ultimately have "same_recipients t (snd (pipe_step ?dp (after_packets ?dp P (take k (map fst qs))) (Packet ck raw)))"
        using after_packets_good [OF good'] taking_all_accepts by (intro recipients_explained)
      then show "same_recipients (map snd qs ! k) (snd (run (pipe_step ?dp) P (packets_in_order (map fst qs))) ! k)"
        using k q run_outputs [of k "map fst qs" ?dp P] by (simp del: pipe_step.simps)
    qed (simp add: packets_in_order_def)
  qed
qed

lemma counting_orders:
  assumes ok: "serial_ok dp secret (world_min P) (world_max P) P ps c" and fin: "list_all finished (tasks c)"
    and good: "pipeline_good dp secret (world_min P) (world_max P) P"
  shows "\<exists>qs. mset qs = mset (map fst (filter (\<lambda>(p, t). accepted t) (zip ps (tasks c)))) \<and>
      telemetry (pl c) = telemetry (after_packets (taking_all dp) P qs)"
    and "\<exists>qs. mset qs = mset (map fst (filter (\<lambda>(p, t). accepted t) (zip ps (tasks c)))) \<and>
      queue_router (pl c) = queue_router (after_packets (taking_all dp) P qs)"
proof -
  have n: "length ps = length (tasks c)" using ok by (auto simp: serial_ok_def dest: list_all2_lengthD)
  have good': "pipeline_good (taking_all dp) secret (world_min P) (world_max P) P"
    using good by (simp only: taking_all_simps)
  note run = after_packets_changes [OF good' taking_all_accepts, unfolded taking_all_simps]
  have 1: "serial telemetry (on_opened dp secret (tells dp)) (\<lambda>p. passed_tell) (\<lambda>p x. ()) (\<lambda>t a. True)
       (telemetry P) ps (pl c) (tasks c)"
    and 2: "serial queue_router (on_opened dp secret routes) (\<lambda>p. passed_queue) (\<lambda>p x. ()) (\<lambda>t a. True)
       (queue_router P) ps (pl c) (tasks c)"
    using ok by (simp_all add: serial_ok_def)
  show "\<exists>qs. mset qs = mset (map fst (filter (\<lambda>(p, t). accepted t) (zip ps (tasks c)))) \<and>
      telemetry (pl c) = telemetry (after_packets (taking_all dp) P qs)"
    using telling.serial_order [OF 1 n] unfolding passed_finished [OF fin n] run by (metis mset_map)
  show "\<exists>qs. mset qs = mset (map fst (filter (\<lambda>(p, t). accepted t) (zip ps (tasks c)))) \<and>
      queue_router (pl c) = queue_router (after_packets (taking_all dp) P qs)"
    using routing.serial_order [OF 2 n] unfolding passed_finished [OF fin n] run by (metis mset_map)
qed

subsection \<open>Schedules without contention\<close>

text \<open>Tasks that move one at a time, each taking its lock just before it acts.\<close>

fun play where
  "play dp (P, ts) [] = (P, ts)"
| "play dp (P, ts) (i # is) = (let (P', t') = task_step dp P (ts ! i) in play dp (P', ts[i := t']) is)"

lemma gsteps_trans: "gsteps dp c' ls' c'' \<Longrightarrow> gsteps dp c ls c' \<Longrightarrow> gsteps dp c (ls @ ls') c''"
  by (induction rule: gsteps.induct) (simp_all add: append_assoc [symmetric] gsteps.more del: append_assoc)

lemma free_move:
  assumes "holder c = (\<lambda>_. None)" and "i < length (tasks c)" and "task_step dp (pl c) (tasks c ! i) = (P', t')"
  shows "\<exists>ls. gsteps dp c ls (c\<lparr>pl := P', tasks := (tasks c)[i := t']\<rparr>) \<and> arrivals ls = []"
proof (cases "finished (tasks c ! i)")
  case True
  with assms(3) have "c\<lparr>pl := P', tasks := (tasks c)[i := t']\<rparr> = c" by (auto simp: stays_settled)
  then have "gsteps dp c [] (c\<lparr>pl := P', tasks := (tasks c)[i := t']\<rparr>)" using gsteps.none by simp
  then show ?thesis by (intro exI [of _ "[]"]) simp
next
  case False
  show ?thesis
  proof (cases "lock_of (tasks c ! i)")
    case None
    have "gstep dp c (Act i) (c\<lparr>pl := P', tasks := (tasks c)[i := t'], holder := holder c\<rparr>)"
      using gstep.act [OF assms(2) False _ assms(3)] None by (simp add: release_def)
    then have "gsteps dp c ([] @ [Act i]) (c\<lparr>pl := P', tasks := (tasks c)[i := t']\<rparr>)"
      by (intro gsteps.more [OF gsteps.none]) simp
    then show ?thesis by (intro exI [of _ "[Act i]"]) simp
  next
    case (Some l)
    let ?c = "c\<lparr>holder := (holder c)(l := Some i)\<rparr>"
    have "gstep dp c (Acquire i) ?c" using gstep.acquire [OF assms(2) Some] assms(1) by simp
    then have acquired: "gsteps dp c ([] @ [Acquire i]) ?c" by (rule gsteps.more [OF gsteps.none])
    have "release (holder ?c) (lock_of (tasks ?c ! i)) = holder c"
      using assms(1) Some by (auto simp: release_def)
    then have "gstep dp ?c (Act i) (c\<lparr>pl := P', tasks := (tasks c)[i := t']\<rparr>)"
      using gstep.act [of i ?c dp P' t'] assms(2,3) False Some by simp
    from gsteps.more [OF acquired this] show ?thesis by (intro exI [of _ "[Acquire i, Act i]"]) simp
  qed
qed

lemma play_gsteps:
  assumes "holder c = (\<lambda>_. None)" and "\<forall>i\<in>set is. i < length (tasks c)"
    and "play dp (pl c, tasks c) is = (P', ts')"
  shows "\<exists>ls. gsteps dp c ls (c\<lparr>pl := P', tasks := ts'\<rparr>) \<and> arrivals ls = []"
  using assms
proof (induction "is" arbitrary: c)
  case Nil
  from Nil(3) have "c\<lparr>pl := P', tasks := ts'\<rparr> = c" by auto
  then have "gsteps dp c [] (c\<lparr>pl := P', tasks := ts'\<rparr>)" using gsteps.none by simp
  then show ?case by (intro exI [of _ "[]"]) simp
next
  case (Cons i "is")
  obtain P1 t1 where step: "task_step dp (pl c) (tasks c ! i) = (P1, t1)" by fastforce
  let ?c = "c\<lparr>pl := P1, tasks := (tasks c)[i := t1]\<rparr>"
  obtain ls where ls: "gsteps dp c ls ?c" "arrivals ls = []"
    using free_move [OF Cons.prems(1) _ step] Cons.prems(2) by auto
  obtain ls' where "gsteps dp ?c ls' (?c\<lparr>pl := P', tasks := ts'\<rparr>)" "arrivals ls' = []"
    using Cons.IH [of ?c] Cons.prems step by auto
  from gsteps_trans [OF this(1) ls(1)] this(2) ls(2) show ?case
    by (intro exI [of _ "ls @ ls'"]) (simp add: arrivals_append)
qed

subsection \<open>A frame that two tasks cache at once\<close>

text \<open>Both tasks look the frame up before either puts it.\<close>

definition overlapping :: "nat list" where
  "overlapping = [0, 1, 0, 1, 0, 0, 0, 0, 0, 1, 1, 1, 1, 1]"

lemma delta_opens:
  assumes "pipeline_ok dp secret P" and "opened dp secret raw = Some (dev, ver, d)" and "\<not> stored_payload d"
  obtains ks where "open_packet dp P ck raw = (P\<lparr>key_store := ks\<rparr>, At Lookup
      \<lparr>w_clock = ck, w_raw = raw, w_dev = dev, w_ver = ver, w_data = d, w_node = None, w_hit = False,
       w_recipients = [], w_queue = 0\<rparr>)"
  using open_packet_opened [OF assms(1), of ck raw] assms(2,3) by (auto simp: prod_eq_iff)

lemma overlapping_play:
  assumes new: "pipeline_new dp path cap secret lo hi = Inr P" and "cache_honest dp"
    and raw: "opened dp secret raw = Some (dev, ver, d)" "\<not> stored_payload d"
  shows "\<exists>P' r r'. play dp (P, [Fresh ck raw, Fresh ck raw]) overlapping = (P', [Finished (Inr r), Finished (Inr r')]) \<and>
     cache_hits (routing_stats P') = cache_hits (stats_default dp)"
proof -
  let ?w = "\<lparr>w_clock = ck, w_raw = raw, w_dev = dev, w_ver = ver, w_data = d, w_node = None, w_hit = False,
       w_recipients = [], w_queue = 0\<rparr>"
  have ok: "pipeline_ok dp secret P" using new by (rule pipeline_new_ok)
  obtain ks where first: "open_packet dp P ck raw = (P\<lparr>key_store := ks\<rparr>, At Lookup ?w)"
    using delta_opens [OF ok raw] .
  have ok1: "pipeline_ok dp secret (P\<lparr>key_store := ks\<rparr>)"
    using open_packet_ok [OF ok, of raw ck] first by simp
  obtain ks' where second: "open_packet dp (P\<lparr>key_store := ks\<rparr>) ck raw = (P\<lparr>key_store := ks'\<rparr>, At Lookup ?w)"
    using delta_opens [OF ok1 raw] by auto
  have queues: "queue_count (queue_router P) = 4" using ok by (simp add: pipeline_ok_def)
  have cache: "frame_cache P = cache_new dp cap" "routing_stats P = stats_default dp"
    using new by (auto simp: pipeline_new_def split: sum.splits)
  have miss: "snd (cache_get dp (cache_new dp n) k) = None"
    "snd (cache_get dp (fst (cache_get dp (cache_new dp n) k')) k) = None" for n k k'
    using assms(2) by (simp_all add: cache_honest_def)
  show ?thesis
    by (simp add: overlapping_def first second miss queues cache sync_device_def queue_message_def
        record_telemetry_def count_request_def route_with_priority_queue checked_rem_def split_def Let_def)
qed

lemma opened_result:
  assumes "opened dp secret raw = Some (dev, ver, d)" and "\<not> stored_payload d"
  shows "fst (packet_result dp secret P ck raw) = accepted_state dp (keys_after dp P dev) ck raw dev ver d"
  using assms by (auto simp: packet_result_def verdict_def opened_def split_def Let_def split: if_splits sum.splits)

lemma sequential_hit:
  assumes new: "pipeline_new dp path cap secret lo hi = Inr P" and "cache_honest dp"
    and raw: "opened dp secret raw = Some (dev, ver, d)" "\<not> stored_payload d"
  shows "cache_hits (routing_stats (after_packets dp P [(ck, raw), (ck, raw)])) = cache_hits (stats_default dp) + 1"
proof -
  let ?P1 = "fst (packet_result dp secret P ck raw)"
  have ok: "pipeline_ok dp secret P" using new by (rule pipeline_new_ok)
  have start: "frame_cache P = cache_new dp cap" "routing_stats P = stats_default dp"
    using new by (auto simp: pipeline_new_def split: sum.splits)
  have "after_packets dp P [(ck, raw), (ck, raw)] = fst (packet_result dp secret ?P1 ck raw)"
    by (simp add: after_packets_def packets_in_order_def pipe_step_Packet [OF ok]
        pipe_step_Packet [OF packet_result_ok [OF ok]] del: pipe_step.simps)
  moreover have "snd (cache_get dp (cache_new dp cap) k) = None" "snd (cache_get dp (cache_put dp c k v) k) = Some v"
    for c k v using assms(2) by (simp_all add: cache_honest_def cache_keeps_def)
  ultimately show ?thesis
    by (simp add: opened_result [OF raw] accepted_state_def cache_calls_def start split_def Let_def)
qed

lemma only_order: "mset qs = mset [x, x] \<Longrightarrow> qs = [x, x]"
proof -
  assume eq: "mset qs = mset [x, x]"
  have "y = x" if "y \<in> set qs" for y
    using mset_eq_setD [OF eq] that by simp
  moreover have "length qs = 2" using mset_eq_length [OF eq] by simp
  ultimately have "qs = replicate 2 x" by (intro replicate_eqI)
  then show "qs = [x, x]" by (simp add: numeral_2_eq_2)
qed

lemma overlapping_schedule:
  assumes "pipeline_new dp path cap secret lo hi = Inr P" and "cache_honest dp"
    and "opened dp secret raw = Some (dev, ver, d)" and "\<not> stored_payload d"
  obtains ls c where "gsteps dp (initial P) ls c" "arrivals ls = [(ck, raw), (ck, raw)]"
    "list_all accepted (tasks c)" "length (tasks c) = 2"
    "cache_hits (routing_stats (pl c)) = cache_hits (stats_default dp)"
proof -
  obtain P' r r' where run: "play dp (P, [Fresh ck raw, Fresh ck raw]) overlapping =
      (P', [Finished (Inr r), Finished (Inr r')])"
      "cache_hits (routing_stats P') = cache_hits (stats_default dp)"
    using overlapping_play [OF assms] by blast
  let ?c = "initial P\<lparr>packets := [raw, raw], tasks := [Fresh ck raw, Fresh ck raw]\<rparr>"
  have two: "gsteps dp (initial P) (([] @ [Arrive ck raw]) @ [Arrive ck raw]) ?c"
    using gsteps.more [OF gsteps.more [OF gsteps.none gstep.arrive] gstep.arrive, of dp "initial P" ck raw ck raw]
    by (simp add: initial_def)
  obtain ls where ls: "gsteps dp ?c ls (?c\<lparr>pl := P', tasks := [Finished (Inr r), Finished (Inr r')]\<rparr>)"
      "arrivals ls = []"
    using play_gsteps [of ?c overlapping dp P'] run(1) by (auto simp: initial_def overlapping_def)
  from gsteps_trans [OF ls(1) two] show ?thesis
    by (rule that) (simp_all add: arrivals_append ls(2) run(2))
qed

text \<open>A delta packet of the demonstration crates.\<close>

definition demo_delta :: bytes where
  "demo_delta = packet_for 1 1 (device_key demo_deps (replicate 32 42) 1 @ test_payload False)"

lemma demo_delta_opened:
  "opened demo_deps (replicate 32 42) demo_delta = Some (1, 1, test_payload False)"
  "\<not> stored_payload (test_payload False)"
proof -
  have "crypto_open demo_deps k (k @ m) = Inr m" for k m by (simp add: demo_deps_def)
  then show "opened demo_deps (replicate 32 42) demo_delta = Some (1, 1, test_payload False)"
    by (intro opened_simps) (simp_all add: demo_delta_def header_of_packet)
  show "\<not> stored_payload (test_payload False)"
    by (simp add: stored_payload_def is_keyframe_payload_eq test_payload_def)
qed

lemma demo_stats: "cache_hits (stats_default demo_deps) = 0"
  by (simp add: demo_deps_def)

subsection \<open>Properties\<close>

text \<open>C3. Component by component the concurrent tasks are a sequential pipeline, whatever the schedule and
  whatever errors the storage reports. When all tasks are finished: (1) there is an order of the packets in
  which \<open>process_packet\<close>, one packet after the other, leaves the same storage and gives every packet the
  answer its task got (the same error, or acceptance for the same device, version, kind and queue);
  (2) the synchronisation hub is as \<open>process_packet\<close> leaves it on the accepted packets in some order, and
  informed the same number of devices of each; (3, 4) telemetry, sketches included, and queue router are
  as it leaves them on the accepted packets in some order. (In 2 to 4 the sequential storage takes every
  frame, \<open>taking_all\<close>, because only accepted packets are processed.)\<close>

theorem components_serialise:
  assumes "pipeline_new dp path cap secret lo hi = Inr P"
    and "gsteps dp (initial P) ls c" and "list_all finished (tasks c)"
  shows "let answered = zip (arrivals ls) (tasks c); taken = filter (\<lambda>(p, t). accepted t) answered
     in (\<exists>qs. mset qs = mset answered \<and>
           sdf_storage (pl c) = sdf_storage (after_packets dp P (map fst qs)) \<and>
           list_all2 same_verdict (map snd qs) (snd (run (pipe_step dp) P (packets_in_order (map fst qs))))) \<and>
        (\<exists>qs. mset qs = mset taken \<and>
           sync_hub (pl c) = sync_hub (after_packets (taking_all dp) P (map fst qs)) \<and>
           list_all2 same_recipients (map snd qs)
             (snd (run (pipe_step (taking_all dp)) P (packets_in_order (map fst qs))))) \<and>
        (\<exists>ps. mset ps = mset (map fst taken) \<and>
           telemetry (pl c) = telemetry (after_packets (taking_all dp) P ps)) \<and>
        (\<exists>ps. mset ps = mset (map fst taken) \<and>
           queue_router (pl c) = queue_router (after_packets (taking_all dp) P ps))"
proof -
  have good: "pipeline_good dp secret (world_min P) (world_max P) P"
    using pipeline_new_ok [OF assms(1)] by (simp add: pipeline_good_def)
  have ok: "serial_ok dp secret (world_min P) (world_max P) P (arrivals ls) c"
    using serial_ok_steps [OF assms(2)] serial_ok_initial [OF good] by blast
  show ?thesis
    unfolding Let_def
  proof (intro conjI counting_orders [OF ok assms(3) good])
    show "\<exists>qs. mset qs = mset (zip (arrivals ls) (tasks c)) \<and>
        sdf_storage (pl c) = sdf_storage (after_packets dp P (map fst qs)) \<and>
        list_all2 same_verdict (map snd qs) (snd (run (pipe_step dp) P (packets_in_order (map fst qs))))"
      using storage_order [OF ok assms(3) good] by blast
    show "\<exists>qs. mset qs = mset (filter (\<lambda>(p, t). accepted t) (zip (arrivals ls) (tasks c))) \<and>
        sync_hub (pl c) = sync_hub (after_packets (taking_all dp) P (map fst qs)) \<and>
        list_all2 same_recipients (map snd qs)
          (snd (run (pipe_step (taking_all dp)) P (packets_in_order (map fst qs))))"
      using hub_order [OF ok assms(3) good] by blast
  qed
qed

lemma components_serialise_witness:
  "\<exists>ls c. gsteps demo_deps (initial demo_pipeline) ls c \<and> list_all accepted (tasks c) \<and>
     (\<exists>ps. mset ps = mset [(demo_clock, demo_delta), (demo_clock, demo_delta)] \<and>
        sdf_storage (pl c) = sdf_storage (after_packets demo_deps demo_pipeline ps))"
proof -
  obtain ls c where ls: "gsteps demo_deps (initial demo_pipeline) ls c"
      "arrivals ls = [(demo_clock, demo_delta), (demo_clock, demo_delta)]" "list_all accepted (tasks c)"
      "length (tasks c) = 2"
    using overlapping_schedule [OF demo_pipeline_new demo_cache_honest demo_delta_opened] .
  have "list_all finished (tasks c)" using ls(3) by (rule list.pred_mono_strong) (auto elim: accepted.elims)
  from components_serialise [OF demo_pipeline_new ls(1) this]
  obtain qs where "mset qs = mset (zip (arrivals ls) (tasks c))"
      "sdf_storage (pl c) = sdf_storage (after_packets demo_deps demo_pipeline (map fst qs))"
    unfolding Let_def by blast
  moreover have "map fst (zip (arrivals ls) (tasks c)) = arrivals ls"
    by (rule map_fst_zip) (simp add: ls(2,4))
  ultimately have "mset (map fst qs) = mset (arrivals ls)" by (metis mset_map)
  with ls(2) have "mset (map fst qs) = mset [(demo_clock, demo_delta), (demo_clock, demo_delta)]" by (simp only:)
  with ls(1,3) \<open>sdf_storage (pl c) = _\<close> show ?thesis by blast
qed

text \<open>C20. The whole pipeline is no sequential one, because looking a frame up and putting it are two critical
  sections: when the same delta frame arrives twice at once, there is a schedule in which both tasks miss
  the cache, while one after the other, in either order, the second finds it. The count of cache
  hits then is one less than sequential processing gives.\<close>

theorem cache_hit_lost:
  assumes "pipeline_new dp path cap secret lo hi = Inr P" and "cache_honest dp"
    and "opened dp secret raw = Some (dev, ver, d)" and "\<not> stored_payload d"
  shows "\<exists>ls c. gsteps dp (initial P) ls c \<and> arrivals ls = [(ck, raw), (ck, raw)] \<and>
     list_all accepted (tasks c) \<and>
     cache_hits (routing_stats (pl c)) = cache_hits (stats_default dp) \<and>
     (\<forall>qs. mset qs = mset (arrivals ls) \<longrightarrow>
        cache_hits (routing_stats (after_packets dp P qs)) = cache_hits (stats_default dp) + 1)"
proof -
  obtain ls c where ls: "gsteps dp (initial P) ls c" "arrivals ls = [(ck, raw), (ck, raw)]"
      "list_all accepted (tasks c)" "cache_hits (routing_stats (pl c)) = cache_hits (stats_default dp)"
    using overlapping_schedule [OF assms] .
  have "\<forall>qs. mset qs = mset (arrivals ls) \<longrightarrow>
      cache_hits (routing_stats (after_packets dp P qs)) = cache_hits (stats_default dp) + 1"
    unfolding ls(2)
  proof (intro allI impI)
    fix qs
    assume "mset qs = mset [(ck, raw), (ck, raw)]"
    then have "qs = [(ck, raw), (ck, raw)]" by (rule only_order)
    then show "cache_hits (routing_stats (after_packets dp P qs)) = cache_hits (stats_default dp) + 1"
      by (simp only: sequential_hit [OF assms])
  qed
  with ls show ?thesis by blast
qed

lemma cache_hit_lost_witness:
  "\<exists>ls c. gsteps demo_deps (initial demo_pipeline) ls c \<and>
     arrivals ls = [(demo_clock, demo_delta), (demo_clock, demo_delta)] \<and>
     list_all accepted (tasks c) \<and> cache_hits (routing_stats (pl c)) = 0"
  using cache_hit_lost [OF demo_pipeline_new demo_cache_honest demo_delta_opened, of demo_clock]
  by (auto simp: demo_stats)

end
