(* ===== verification/Lock_Order.thy ===== *)
theory Lock_Order
  imports Concurrent_Ingest "HOL-Library.Sublist"
begin

text \<open>
  The lock discipline that the documentation of \<^verbatim>\<open>IngestPipeline\<close> (\<^verbatim>\<open>src/ingest.rs\<close>) demands: locks are
  taken in the canonical order, and the key cache's lock is released before any other. The step
  relation of \<open>Concurrent_Ingest\<close> is extended by the history of the locks each task has taken; the
  lemmas show that this history follows, lock by lock, a plan fixed by the task's packet.
\<close>

text \<open>The numbers of the locks in the documentation, the internal key lock before them.\<close>

fun lock_rank :: "lock \<Rightarrow> nat" where
  "lock_rank KeyLock = 0"
| "lock_rank CdnLock = 1"
| "lock_rank HubLock = 2"
| "lock_rank QueueLock = 3"
| "lock_rank TelemetryLock = 4"
| "lock_rank StatsLock = 5"

text \<open>The locks that the packet \<open>raw\<close> makes its task take, in order.\<close>

definition lock_plan where
  "lock_plan dp secret raw =
     (if length raw < 12 then []
      else KeyLock #
        (case crypto_open dp (device_key dp secret (fst (header_of raw))) (drop 12 raw) of
           Inl e \<Rightarrow> []
         | Inr d \<Rightarrow> (if stored_payload d then [CdnLock] else []) @
             [HubLock, QueueLock, TelemetryLock, StatsLock]))"

fun locks_to_come where
  "locks_to_come dp secret raw (Fresh ck raw') = lock_plan dp secret raw"
| "locks_to_come dp secret raw (At s w) =
     (case s of
        Store \<Rightarrow> [CdnLock, HubLock, QueueLock, TelemetryLock, StatsLock]
      | Route \<Rightarrow> [CdnLock, HubLock, QueueLock, TelemetryLock, StatsLock]
      | Lookup \<Rightarrow> [HubLock, QueueLock, TelemetryLock, StatsLock]
      | Put \<Rightarrow> [HubLock, QueueLock, TelemetryLock, StatsLock]
      | Sync \<Rightarrow> [HubLock, QueueLock, TelemetryLock, StatsLock]
      | Queue \<Rightarrow> [QueueLock, TelemetryLock, StatsLock]
      | Tell \<Rightarrow> [TelemetryLock, StatsLock]
      | Count \<Rightarrow> [StatsLock])"
| "locks_to_come dp secret raw _ = []"

fun rejected :: "task \<Rightarrow> bool" where
  "rejected (Finished (Inl e)) = True"
| "rejected _ = False"

lemma lock_plan_ascending: "sorted_wrt (<) (map lock_rank (lock_plan dp secret raw))"
  by (auto simp: lock_plan_def split: sum.split)

lemma next_lock:
  assumes "task_ok dp secret raw t" and "lock_of t = Some l"
  shows "locks_to_come dp secret raw t = l # tl (locks_to_come dp secret raw t)"
proof (cases t)
  case (At s w)
  with assms show ?thesis by (cases s) simp_all
qed (use assms in \<open>simp_all add: lock_plan_def split: if_splits\<close>)

lemma locks_to_come_open:
  assumes "pipeline_ok dp secret P" and "\<not> rejected (snd (open_packet dp P ck raw))"
  shows "locks_to_come dp secret raw (snd (open_packet dp P ck raw)) = tl (lock_plan dp secret raw)"
proof (cases "length raw < 12")
  case True
  with assms show ?thesis by (simp add: task_defs)
next
  case False
  obtain dev ver where h: "header_of raw = (dev, ver)" by (cases "header_of raw")
  have "subslice 12 (length raw) raw = Some (drop 12 raw)" using False by (simp add: subslice_def)
  with False h assms derive_shared(1) [OF assms(1), of dev] show ?thesis
    by (auto simp: task_defs lock_plan_def stored_payload_def split_def Let_def split: sum.splits)
qed

lemma locks_to_come_step:
  assumes "pipeline_ok dp secret P" and "task_ok dp secret raw t" and "\<not> finished t"
    and "\<not> rejected (snd (task_step dp P t))"
  shows "locks_to_come dp secret raw (snd (task_step dp P t)) =
     (if lock_of t = None then locks_to_come dp secret raw t else tl (locks_to_come dp secret raw t))"
proof (cases t)
  case (Fresh ck raw')
  with assms locks_to_come_open [OF assms(1), of ck raw] show ?thesis
    by (auto simp: lock_plan_def)
next
  case (At s w)
  with assms show ?thesis
    by (cases s)
      (auto simp: task_defs sync_device_def queue_message_def pipeline_ok_def
        route_with_priority_queue checked_rem_def split_def Let_def split: sum.splits)
qed (use assms in simp_all)

subsection \<open>Runs with the history of locks\<close>

definition taken where
  "taken h c l = (case l of Acquire i \<Rightarrow> h(i := h i @ [the (lock_of (tasks c ! i))]) | _ \<Rightarrow> h)"

inductive lsteps for dp where
  none: "lsteps dp c [] (\<lambda>_. []) c"
| more: "lsteps dp c ls h c' \<Longrightarrow> gstep dp c' l c'' \<Longrightarrow> lsteps dp c (ls @ [l]) (taken h c' l) c''"

lemma lsteps_gsteps: "lsteps dp c ls h c' \<Longrightarrow> gsteps dp c ls c'"
  by (induction rule: lsteps.induct) (auto intro: gsteps.intros)

lemma gsteps_lsteps: "gsteps dp c ls c' \<Longrightarrow> \<exists>h. lsteps dp c ls h c'"
  by (induction rule: gsteps.induct) (auto intro: lsteps.intros)

text \<open>The locks that task \<open>i\<close> still has to take.\<close>

definition remaining where
  "remaining dp secret c i =
     (let t = tasks c ! i; ls = locks_to_come dp secret (packets c ! i) t
      in if \<exists>l. lock_of t = Some l \<and> holder c l = Some i then tl ls else ls)"

definition history_ok where
  "history_ok dp secret h c \<longleftrightarrow>
     (\<forall>i\<ge>length (tasks c). h i = []) \<and>
     (\<forall>i<length (tasks c). prefix (h i) (lock_plan dp secret (packets c ! i)) \<and>
        (\<not> rejected (tasks c ! i) \<longrightarrow>
           lock_plan dp secret (packets c ! i) = h i @ remaining dp secret c i))"

lemma history_okI:
  assumes "\<And>i. length (tasks c) \<le> i \<Longrightarrow> h i = []"
    and "\<And>i. i < length (tasks c) \<Longrightarrow> prefix (h i) (lock_plan dp secret (packets c ! i))"
    and "\<And>i. i < length (tasks c) \<Longrightarrow> \<not> rejected (tasks c ! i) \<Longrightarrow>
       lock_plan dp secret (packets c ! i) = h i @ remaining dp secret c i"
  shows "history_ok dp secret h c"
  using assms by (simp add: history_ok_def)

lemma history_okD:
  assumes "history_ok dp secret h c"
  shows "length (tasks c) \<le> i \<Longrightarrow> h i = []"
    and "i < length (tasks c) \<Longrightarrow> prefix (h i) (lock_plan dp secret (packets c ! i))"
    and "i < length (tasks c) \<Longrightarrow> \<not> rejected (tasks c ! i) \<Longrightarrow>
       lock_plan dp secret (packets c ! i) = h i @ remaining dp secret c i"
  using assms by (simp_all add: history_ok_def)

lemma not_rejected: "\<not> finished t \<Longrightarrow> \<not> rejected t"
  by (cases t rule: rejected.cases) simp_all

text \<open>How a move changes the histories of the tasks.\<close>

lemma history_ok_arrive:
  assumes "history_ok dp secret h c" and "locks_ok c" and "length (packets c) = length (tasks c)"
  shows "history_ok dp secret h (c\<lparr>packets := packets c @ [raw], tasks := tasks c @ [Fresh ck raw]\<rparr>)"
    (is "history_ok dp secret h ?c")
proof (rule history_okI)
  have fresh: "holder c m \<noteq> Some (length (tasks c))" for m
    using assms(2) by (auto simp: locks_ok_def)
  fix i
  assume i: "i < length (tasks ?c)"
  consider "i < length (tasks c)" | "i = length (tasks c)" using i by fastforce
  then show "prefix (h i) (lock_plan dp secret (packets ?c ! i))"
    by cases (simp_all add: history_okD [OF assms(1)] nth_append assms(3))
  assume "\<not> rejected (tasks ?c ! i)"
  then show "lock_plan dp secret (packets ?c ! i) = h i @ remaining dp secret ?c i"
    using i history_okD [OF assms(1)] fresh
    by (cases "i < length (tasks c)") (simp_all add: remaining_def Let_def nth_append assms(3) less_Suc_eq)
qed (use history_okD(1) [OF assms(1)] in simp)

lemma history_ok_acquire:
  assumes "history_ok dp secret h c" and "task_ok dp secret (packets c ! i) (tasks c ! i)"
    and "i < length (tasks c)" and "lock_of (tasks c ! i) = Some m" and "holder c m = None"
  shows "history_ok dp secret (h(i := h i @ [m])) (c\<lparr>holder := (holder c)(m \<mapsto> i)\<rparr>)"
    (is "history_ok dp secret ?h ?c")
proof -
  let ?ls = "locks_to_come dp secret (packets c ! i) (tasks c ! i)"
  have plan: "lock_plan dp secret (packets c ! i) = h i @ m # tl ?ls"
    using history_okD(3) [OF assms(1,3) not_rejected [OF lock_of_unfinished [OF assms(4)]]]
      next_lock [OF assms(2,4)] assms(4,5) by (simp add: remaining_def)
  have others: "remaining dp secret ?c j = remaining dp secret c j" if "j \<noteq> i" for j
  proof -
    have "holder ?c l = Some j \<longleftrightarrow> holder c l = Some j" for l using that assms(5) by simp
    then show ?thesis by (simp add: remaining_def)
  qed
  have own: "remaining dp secret ?c i = tl ?ls" using assms(4) by (simp add: remaining_def)
  show ?thesis
  proof (rule history_okI)
    fix j
    assume j: "j < length (tasks ?c)"
    then show "prefix (?h j) (lock_plan dp secret (packets ?c ! j))"
      using history_okD(2) [OF assms(1), of j] plan by (cases "j = i") simp_all
    assume "\<not> rejected (tasks ?c ! j)"
    then show "lock_plan dp secret (packets ?c ! j) = ?h j @ remaining dp secret ?c j"
      using j history_okD(3) [OF assms(1), of j] plan own others by (cases "j = i") simp_all
  qed (use history_okD(1) [OF assms(1)] assms(3) in auto)
qed

lemma release_other:
  "(\<And>l. ol = Some l \<Longrightarrow> h l = Some i) \<Longrightarrow> j \<noteq> i \<Longrightarrow> release h ol m = Some j \<longleftrightarrow> h m = Some j"
  by (cases ol) (auto simp: release_def)

lemma history_ok_act:
  assumes "history_ok dp secret h c" and "locks_ok c"
    and "task_ok dp secret (packets c ! i) (tasks c ! i)" and "pipeline_ok dp secret (pl c)"
    and "i < length (tasks c)" and "\<not> finished (tasks c ! i)"
    and "\<And>l. lock_of (tasks c ! i) = Some l \<Longrightarrow> holder c l = Some i"
    and "task_step dp (pl c) (tasks c ! i) = (P', t')"
  shows "history_ok dp secret h (c\<lparr>pl := P', tasks := (tasks c)[i := t'],
     holder := release (holder c) (lock_of (tasks c ! i))\<rparr>)" (is "history_ok dp secret h ?c")
proof -
  have held: "holder c m = Some i \<longleftrightarrow> lock_of (tasks c ! i) = Some m" for m
    using assms(2) assms(7) [of m] unfolding locks_ok_def by blast
  have others: "remaining dp secret ?c j = remaining dp secret c j" if "j \<noteq> i" for j
  proof -
    have "holder ?c m = Some j \<longleftrightarrow> holder c m = Some j" for m
      using release_other [OF assms(7) that] by simp
    then show ?thesis using that by (simp add: remaining_def)
  qed
  have own: "remaining dp secret ?c i = remaining dp secret c i" if "\<not> rejected t'"
  proof -
    have "holder ?c m \<noteq> Some i" for m
      using held [of m] by (cases "lock_of (tasks c ! i)") (simp_all add: release_def)
    moreover have "locks_to_come dp secret (packets c ! i) t' =
        (if lock_of (tasks c ! i) = None then locks_to_come dp secret (packets c ! i) (tasks c ! i)
         else tl (locks_to_come dp secret (packets c ! i) (tasks c ! i)))"
      using locks_to_come_step [OF assms(4,3,6)] assms(8) that by simp
    ultimately show ?thesis using assms(5) held by (cases "lock_of (tasks c ! i)") (simp_all add: remaining_def)
  qed
  show ?thesis
  proof (rule history_okI)
    fix j
    assume j: "j < length (tasks ?c)"
    then show "prefix (h j) (lock_plan dp secret (packets ?c ! j))"
      using history_okD(2) [OF assms(1), of j] by simp
    assume "\<not> rejected (tasks ?c ! j)"
    then show "lock_plan dp secret (packets ?c ! j) = h j @ remaining dp secret ?c j"
      using j history_okD(3) [OF assms(1), of j] own others assms(5) not_rejected [OF assms(6)]
      by (cases "j = i") simp_all
  qed (use history_okD(1) [OF assms(1)] in simp)
qed

lemma history_ok_step:
  assumes "gstep dp c l c'" and "config_ok dp secret base c" and "locks_ok c"
    and "history_ok dp secret h c"
  shows "history_ok dp secret (taken h c l) c'"
proof -
  have tasks: "length (packets c) = length (tasks c)" "pipeline_ok dp secret (pl c)"
    and task: "i < length (tasks c) \<Longrightarrow> task_ok dp secret (packets c ! i) (tasks c ! i)" for i
    using assms(2) by (auto simp: config_ok_def list_all2_conv_all_nth)
  from assms(1) show ?thesis
  proof cases
    case (arrive ck raw)
    with history_ok_arrive [OF assms(4,3) tasks(1)] show ?thesis by (simp add: taken_def)
  next
    case (acquire i m)
    with history_ok_acquire [OF assms(4) task [OF acquire(3)] acquire(3-5)] show ?thesis
      by (simp add: taken_def)
  next
    case (act i P' t')
    with history_ok_act [OF assms(4,3) task [OF act(3)] tasks(2) act(3-6)] show ?thesis
      by (simp add: taken_def)
  next
    case (install r)
    with assms(4) show ?thesis by (simp add: history_ok_def taken_def remaining_def)
  qed
qed

lemma lsteps_history_ok:
  assumes "lsteps dp c ls h c'" and "config_ok dp secret base c" and "locks_ok c" and "tasks c = []"
  shows "history_ok dp secret h c' \<and> config_ok dp secret base c' \<and> locks_ok c'"
  using assms
proof (induction rule: lsteps.induct)
  case (more c ls h c' l c'')
  then have "history_ok dp secret h c'" "config_ok dp secret base c'" "locks_ok c'" by simp_all
  with more.hyps(2) history_ok_step config_ok_step locks_ok_step show ?case by metis
qed (simp add: history_ok_def)

lemma sorted_wrt_prefix: "prefix xs ys \<Longrightarrow> sorted_wrt P ys \<Longrightarrow> sorted_wrt P xs"
  by (auto simp: prefix_def sorted_wrt_append)

text \<open>A run of the demonstration pipeline that takes the key lock.\<close>

definition demo_locked where
  "demo_locked = (initial demo_pipeline)
     \<lparr>packets := [replicate 12 0], tasks := [Fresh demo_clock (replicate 12 0)],
      holder := (\<lambda>_. None)(KeyLock \<mapsto> 0)\<rparr>"

lemma demo_lsteps:
  "lsteps demo_deps (initial demo_pipeline) [Arrive demo_clock (replicate 12 0), Acquire 0]
     ((\<lambda>_. [])(0 := [KeyLock])) demo_locked"
proof -
  let ?c = "(initial demo_pipeline)\<lparr>packets := [replicate 12 0], tasks := [Fresh demo_clock (replicate 12 0)]\<rparr>"
  have arrive: "lsteps demo_deps (initial demo_pipeline) [Arrive demo_clock (replicate 12 0)] (\<lambda>_. []) ?c"
    using lsteps.more [OF lsteps.none gstep.arrive, of demo_deps "initial demo_pipeline" demo_clock "replicate 12 0"]
    by (simp add: initial_def taken_def)
  have acquire: "gstep demo_deps ?c (Acquire 0) demo_locked"
    using gstep.acquire [of 0 ?c KeyLock demo_deps] by (simp add: initial_def demo_locked_def)
  from lsteps.more [OF arrive acquire] show ?thesis by (simp add: taken_def)
qed

text \<open>C12. The documented lock discipline is kept: under every schedule the locks a task has taken are,
  in this order, a part of the plan its packet fixes (key lock, CDN router if a keyframe is
  stored, hub, queue router, telemetry, statistics) and all of it when the packet is accepted;
  so their numbers strictly ascend, and a task never holds two locks at once.\<close>

theorem canonical_lock_order:
  assumes "pipeline_new dp path cap secret lo hi = Inr P" and "lsteps dp (initial P) ls h c"
    and "i < length (tasks c)"
  shows "prefix (h i) (lock_plan dp secret (packets c ! i)) \<and>
     (accepted (tasks c ! i) \<longrightarrow> h i = lock_plan dp secret (packets c ! i)) \<and>
     sorted_wrt (<) (map lock_rank (h i)) \<and>
     (\<forall>l l'. holder c l = Some i \<and> holder c l' = Some i \<longrightarrow> l = l')"
proof -
  have inv: "history_ok dp secret h c" "locks_ok c"
    using lsteps_history_ok [OF assms(2) initial_config_ok [OF assms(1)] initial_locks_ok]
    by (simp_all add: initial_def)
  note part = history_okD(2) [OF inv(1) assms(3)]
  have "h i = lock_plan dp secret (packets c ! i)" if "accepted (tasks c ! i)"
    using that history_okD(3) [OF inv(1) assms(3)] by (cases "tasks c ! i") (auto simp: remaining_def)
  moreover have "sorted_wrt (<) (map lock_rank (h i))"
    using sorted_wrt_prefix [OF map_mono_prefix [OF part] lock_plan_ascending] .
  moreover have "\<forall>l l'. holder c l = Some i \<and> holder c l' = Some i \<longrightarrow> l = l'"
    using inv(2) unfolding locks_ok_def by (metis option.inject)
  ultimately show ?thesis using part by blast
qed

lemma canonical_lock_order_witness:
  "prefix [KeyLock] (lock_plan demo_deps (replicate 32 42) (replicate 12 0)) \<and>
   sorted_wrt (<) (map lock_rank [KeyLock])"
  using canonical_lock_order [OF demo_pipeline_new demo_lsteps, of 0] by (simp add: demo_locked_def)

end
