(* ===== verification/Socket_Addr.thy ===== *)
theory Socket_Addr
  imports Rust_Bytes
begin

text \<open>
  \<^verbatim>\<open>std::net::SocketAddr\<close>, both versions, and its text under \<^verbatim>\<open>{}\<close>, which the gateway's log lines
  contain: an IPv6 address is written in hexadecimal segments with the first of the longest runs of two or
  more zero segments left out, an IPv4-mapped one with its last four bytes in decimal.
\<close>

type_synonym ipv4_addr = "u8 \<times> u8 \<times> u8 \<times> u8"
type_synonym ipv6_addr = "128 word"

datatype ip_addr = IpV4 ipv4_addr | IpV6 ipv6_addr

text \<open>The version 6 variant carries port, flow information and scope.\<close>

datatype socket_addr = V4 ipv4_addr u16 | V6 ipv6_addr u16 u32 u32

fun ip :: "socket_addr \<Rightarrow> ip_addr" where
  "ip (V4 a p) = IpV4 a"
| "ip (V6 a p flow scope) = IpV6 a"

fun port :: "socket_addr \<Rightarrow> u16" where
  "port (V4 a p) = p"
| "port (V6 a p flow scope) = p"

subsection \<open>Text\<close>

definition hex_digit :: "nat \<Rightarrow> char" where
  "hex_digit d = (if d < 10 then digit d else char_of (87 + d))"

fun fmt_hex :: "nat \<Rightarrow> string" where
  "fmt_hex n = (if n < 16 then [hex_digit n] else fmt_hex (n div 16) @ [hex_digit (n mod 16)])"

declare fmt_hex.simps [simp del]

definition segments :: "ipv6_addr \<Rightarrow> u16 list" where
  "segments a = map (\<lambda>i. ucast (drop_bit (16 * (7 - i)) a)) [0..<8]"

text \<open>The longest run of zeros (start and length), the first one of several: \<open>i\<close> is the position,
  \<open>current\<close> the run that ends there.\<close>

fun longest_zeros :: "nat \<Rightarrow> nat \<times> nat \<Rightarrow> nat \<times> nat \<Rightarrow> u16 list \<Rightarrow> nat \<times> nat" where
  "longest_zeros i current longest [] = longest"
| "longest_zeros i current longest (s # ss) =
     (if s = 0
      then let current' = (if snd current = 0 then i else fst current, snd current + 1)
        in longest_zeros (i + 1) current' (if snd longest < snd current' then current' else longest) ss
      else longest_zeros (i + 1) (0, 0) longest ss)"

fun fmt_subslice :: "u16 list \<Rightarrow> string" where
  "fmt_subslice [] = []"
| "fmt_subslice [s] = fmt_hex (unat s)"
| "fmt_subslice (s # t # ss) = fmt_hex (unat s) @ '':'' @ fmt_subslice (t # ss)"

fun fmt_ipv4 :: "ipv4_addr \<Rightarrow> string" where
  "fmt_ipv4 (a, b, c, d) =
     fmt_nat (unat a) @ ''.'' @ fmt_nat (unat b) @ ''.'' @ fmt_nat (unat c) @ ''.'' @ fmt_nat (unat d)"

definition fmt_segments :: "u16 list \<Rightarrow> string" where
  "fmt_segments ss =
     (let (start, len) = longest_zeros 0 (0, 0) (0, 0) ss; byte = (\<lambda>s. (ucast (drop_bit 8 s) :: u8, ucast s :: u8))
      in if take 6 ss = [0, 0, 0, 0, 0, 0xFFFF]
         then ''::ffff:'' @ (let (a, b) = byte (ss ! 6); (c, d) = byte (ss ! 7) in fmt_ipv4 (a, b, c, d))
         else if 1 < len then fmt_subslice (take start ss) @ ''::'' @ fmt_subslice (drop (start + len) ss)
         else fmt_subslice ss)"

definition fmt_ipv6 :: "ipv6_addr \<Rightarrow> string" where
  "fmt_ipv6 a = fmt_segments (segments a)"

fun fmt_addr :: "socket_addr \<Rightarrow> string" where
  "fmt_addr (V4 a p) = fmt_ipv4 a @ '':'' @ fmt_nat (unat p)"
| "fmt_addr (V6 a p flow scope) =
     ''['' @ fmt_ipv6 a @ (if scope = 0 then [] else ''%'' @ fmt_nat (unat scope)) @ '']:'' @ fmt_nat (unat p)"

subsection \<open>Examples\<close>

lemma loopback_text: "fmt_addr (V6 1 80 0 0) = ''[::1]:80''"
  by code_simp

lemma ipv6_texts:
  "fmt_segments [0, 0, 0, 0, 0, 0, 0, 0] = ''::''"
  "fmt_segments [0x2001, 0xDB8, 0, 0, 8, 0x800, 0x200C, 0x417A] = ''2001:db8::8:800:200c:417a''"
  "fmt_segments [0x2001, 0, 0, 1, 0, 0, 0, 1] = ''2001:0:0:1::1''"
  "fmt_segments [0x2001, 0xDB8, 0, 1, 1, 1, 1, 1] = ''2001:db8:0:1:1:1:1:1''"
  "fmt_segments [0, 0, 0, 0, 0, 0xFFFF, 0xC0A8, 1] = ''::ffff:192.168.0.1''"
  by (simp_all add: fmt_segments_def fmt_hex.simps fmt_nat.simps hex_digit_def digit_def char_of_def bit_0 Let_def)

end
