(* ===== verification/Gateway_Main.thy ===== *)
theory Gateway_Main
  imports Ingest Socket_Addr
begin

text \<open>
  \<^verbatim>\<open>src/lib.rs\<close> and the parts of \<^verbatim>\<open>src/main.rs\<close> without concurrency: the configuration and the log lines.
  The gateway itself, a receive loop with a spawned task per datagram, is in \<open>Gateway_Tasks\<close>.
\<close>

record gateway_config =
  listen_addr :: socket_addr
  max_packet_size :: usize
  db_path :: string
  cache_capacity :: usize
  gw_master_secret :: bytes
  gw_world_min :: vec3
  gw_world_max :: vec3

text \<open>The bit patterns of \<^verbatim>\<open>-100.0f32\<close> and \<^verbatim>\<open>100.0f32\<close>.\<close>

definition f32_minus_100 :: f32 where "f32_minus_100 = 0xC2C80000"
definition f32_100 :: f32 where "f32_100 = 0x42C80000"

lemma f32_constants: "f32_value f32_100 = Fin False 100" "f32_value f32_minus_100 = Fin True (-100)"
  by (simp_all add: f32_value_def f32_100_def f32_minus_100_def Let_def power_int_minus)

definition gateway_config_default :: gateway_config where
  "gateway_config_default =
     \<lparr>listen_addr = V4 (0, 0, 0, 0) 4433, max_packet_size = 65535,
      db_path = ''./alice-gateway-data'', cache_capacity = 100000,
      gw_master_secret = replicate 32 0,
      gw_world_min = (f32_minus_100, f32_minus_100, f32_minus_100),
      gw_world_max = (f32_100, f32_100, f32_100)\<rparr>"

datatype net_event = Datagram bytes socket_addr clock | RecvError string

text \<open>One line of the log, by level.\<close>

datatype log_line = LogInfo string | LogWarn string | LogError string

text \<open>\<^verbatim>\<open>recv_from\<close> fills the buffer: what does not fit is dropped.\<close>

definition received :: "gateway_config \<Rightarrow> bytes \<Rightarrow> bytes" where
  "received cfg d = take (max_packet_size cfg) d"

text \<open>What a task logs about the answer \<open>r\<close> to a packet of \<open>len\<close> bytes from \<open>src\<close>.\<close>

definition keyframe_line :: "socket_addr \<Rightarrow> usize \<Rightarrow> u64 \<Rightarrow> u32 \<Rightarrow> log_line" where
  "keyframe_line src len dev ver =
     LogInfo (''Keyframe from '' @ fmt_addr src @ '' (device '' @ fmt_u64 dev @ ''): '' @ fmt_nat len @
       '' bytes, scene v'' @ fmt_nat (unat ver))"

definition rejection_line :: "socket_addr \<Rightarrow> ingest_error \<Rightarrow> log_line" where
  "rejection_line src e = LogWarn (''Packet from '' @ fmt_addr src @ '' rejected: '' @ fmt_error e)"

definition recv_error_line :: "string \<Rightarrow> log_line" where
  "recv_error_line e = LogError (''UDP recv error: '' @ e)"

definition answer_log :: "socket_addr \<Rightarrow> usize \<Rightarrow> ingest_error + ingest_result \<Rightarrow> log_line list" where
  "answer_log src len r =
     (case r of
        Inr stats \<Rightarrow>
          (if r_is_keyframe stats
           then [keyframe_line src len (r_device_id stats) (r_scene_version stats)] else [])
      | Inl e \<Rightarrow> [rejection_line src e])"

definition startup_log :: "gateway_config \<Rightarrow> log_line list" where
  "startup_log cfg =
     [LogInfo (''ALICE Cloud Gateway starting on '' @ fmt_addr (listen_addr cfg)),
      LogInfo (''Listening on UDP '' @ fmt_addr (listen_addr cfg))]"

end
