(* ===== verification/Gateway_Tasks.thy ===== *)
theory Gateway_Tasks
  imports Serialisation Gateway_Main
begin

text \<open>
  \<^verbatim>\<open>src/main.rs\<close>: the receive loop with a spawned task per datagram. The loop receives, the tasks
  process their packets on the shared pipeline under its locks (\<open>Concurrent_Ingest\<close>), and each
  task writes its log lines when it is done, in any order. The specification is a gateway whose only
  state is the storage and which logs, for each datagram, what the packet calls for; the lemmas show that
  under every schedule the log and the storage are those of the specification for the same events in
  some order, and that after finitely many moves every datagram has been answered.
\<close>

subsection \<open>The loop and its tasks\<close>

record ('key, 'sdf, 'cache, 'cdn, 'hub, 'dd, 'hll, 'cms) gateway =
  core :: "('key, 'sdf, 'cache, 'cdn, 'hub, 'dd, 'hll, 'cms) config"
  sources :: "socket_addr list"
  reported :: "nat list"
  log_lines :: "log_line list"

datatype gw_label = Receive net_event | Take nat | Move nat | Report nat

text \<open>Start-up: what has been logged when it fails, or the gateway that listens. Opening the socket is the
  argument \<open>bound\<close>.\<close>

definition gateway_start where
  "gateway_start dp cfg bound =
     (case pipeline_new dp (db_path cfg) (cache_capacity cfg) (gw_master_secret cfg)
             (gw_world_min cfg) (gw_world_max cfg) of
        Inl e \<Rightarrow> Inl (e, take 1 (startup_log cfg))
      | Inr P \<Rightarrow>
          (case bound (listen_addr cfg) of
             Inl e \<Rightarrow> Inl (e, take 1 (startup_log cfg))
           | Inr _ \<Rightarrow> Inr \<lparr>core = initial P, sources = [], reported = [], log_lines = startup_log cfg\<rparr>))"

text \<open>\<^verbatim>\<open>main\<close> runs the gateway with the default configuration.\<close>

definition gateway_main where
  "gateway_main dp bound = gateway_start dp gateway_config_default bound"

inductive gw_step for dp cfg where
  receive: "gstep dp (core g) (Arrive ck (received cfg d)) c' \<Longrightarrow>
     gw_step dp cfg g (Receive (Datagram d src ck)) (g\<lparr>core := c', sources := sources g @ [src]\<rparr>)"
| recv_error: "gw_step dp cfg g (Receive (RecvError e))
     (g\<lparr>log_lines := log_lines g @ [recv_error_line e]\<rparr>)"
| take_lock: "gstep dp (core g) (Acquire i) c' \<Longrightarrow> gw_step dp cfg g (Take i) (g\<lparr>core := c'\<rparr>)"
| move: "gstep dp (core g) (Act i) c' \<Longrightarrow> gw_step dp cfg g (Move i) (g\<lparr>core := c'\<rparr>)"
| report: "i < length (tasks (core g)) \<Longrightarrow> tasks (core g) ! i = Finished r \<Longrightarrow> i \<notin> set (reported g) \<Longrightarrow>
     gw_step dp cfg g (Report i) (g\<lparr>reported := reported g @ [i],
       log_lines := log_lines g @ answer_log (sources g ! i) (length (packets (core g) ! i)) r\<rparr>)"

inductive gw_steps for dp cfg where
  none: "gw_steps dp cfg g [] g"
| more: "gw_steps dp cfg g ls g' \<Longrightarrow> gw_step dp cfg g' l g'' \<Longrightarrow> gw_steps dp cfg g (ls @ [l]) g''"

fun received_events :: "gw_label list \<Rightarrow> net_event list" where
  "received_events [] = []"
| "received_events (Receive ev # ls) = ev # received_events ls"
| "received_events (l # ls) = received_events ls"

fun is_receive :: "gw_label \<Rightarrow> bool" where
  "is_receive (Receive ev) = True"
| "is_receive _ = False"

definition all_answered where
  "all_answered g \<longleftrightarrow> (\<forall>i<length (tasks (core g)). i \<in> set (reported g))"

lemma received_events_append: "received_events (xs @ ys) = received_events xs @ received_events ys"
  by (induction xs rule: received_events.induct) simp_all

subsection \<open>The invariant\<close>

fun arrival :: "gateway_config \<Rightarrow> net_event \<Rightarrow> (bytes \<times> socket_addr) list" where
  "arrival cfg (Datagram d src ck) = [(received cfg d, src)]"
| "arrival cfg (RecvError e) = []"

fun error_log :: "net_event \<Rightarrow> log_line list" where
  "error_log (Datagram d src ck) = []"
| "error_log (RecvError e) = [recv_error_line e]"

fun report_of :: "socket_addr \<Rightarrow> bytes \<Rightarrow> task \<Rightarrow> log_line list" where
  "report_of src raw (Finished r) = answer_log src (length raw) r"
| "report_of src raw _ = []"

definition report_at where
  "report_at g i = report_of (sources g ! i) (packets (core g) ! i) (tasks (core g) ! i)"

definition core_ok where
  "core_ok dp secret base g \<longleftrightarrow>
     config_ok dp secret base (core g) \<and> locks_ok (core g) \<and>
     length (sources g) = length (tasks (core g)) \<and>
     distinct (reported g) \<and>
     (\<forall>i\<in>set (reported g). i < length (tasks (core g)) \<and> finished (tasks (core g) ! i))"

definition log_ok where
  "log_ok cfg evs g \<longleftrightarrow>
     zip (packets (core g)) (sources g) = concat (map (arrival cfg) evs) \<and>
     mset (log_lines g) = mset (startup_log cfg) + mset (concat (map error_log evs)) +
       mset (concat (map (report_at g) (reported g)))"

lemma gateway_start_ok:
  assumes "gateway_start dp cfg bound = Inr g"
  shows "core_ok dp (gw_master_secret cfg) (total_requests (stats_default dp)) g" "log_ok cfg [] g"
proof -
  from assms obtain P where P: "pipeline_new dp (db_path cfg) (cache_capacity cfg) (gw_master_secret cfg)
      (gw_world_min cfg) (gw_world_max cfg) = Inr P"
    and g: "g = \<lparr>core = initial P, sources = [], reported = [], log_lines = startup_log cfg\<rparr>"
    by (auto simp: gateway_start_def split: sum.splits)
  show "core_ok dp (gw_master_secret cfg) (total_requests (stats_default dp)) g"
    using initial_config_ok [OF P] by (simp add: core_ok_def g initial_locks_ok) (simp add: initial_def)
  show "log_ok cfg [] g" by (simp add: log_ok_def g initial_def)
qed

lemma gstep_tasks:
  assumes "gstep dp c l c'"
  shows "case l of
      Arrive ck raw \<Rightarrow> packets c' = packets c @ [raw] \<and> tasks c' = tasks c @ [Fresh ck raw]
    | Act i \<Rightarrow> packets c' = packets c \<and> i < length (tasks c) \<and> \<not> finished (tasks c ! i) \<and>
        (\<exists>t. tasks c' = (tasks c)[i := t])
    | _ \<Rightarrow> packets c' = packets c \<and> tasks c' = tasks c"
  using assms by cases auto

lemma config_lengths: "config_ok dp secret base c \<Longrightarrow> length (packets c) = length (tasks c)"
  by (auto simp: config_ok_def dest: list_all2_lengthD)

lemma core_ok_step:
  assumes "gw_step dp cfg g l g'" and "core_ok dp secret base g"
  shows "core_ok dp secret base g'"
proof -
  have step: "config_ok dp secret base c'" "locks_ok c'" if "gstep dp (core g) l' c'" for l' c'
    using that assms(2) config_ok_step locks_ok_step by (auto simp: core_ok_def)
  from assms(1) show ?thesis
  proof cases
    case (receive ck d c' src)
    with step gstep_tasks [OF receive(3)] assms(2) show ?thesis
      by (auto simp: core_ok_def nth_append)
  next
    case (take_lock i c')
    with step gstep_tasks [OF take_lock(3)] assms(2) show ?thesis by (simp add: core_ok_def)
  next
    case (move i c')
    with step gstep_tasks [OF move(3)] assms(2) show ?thesis
      by (fastforce simp: core_ok_def nth_list_update)
  qed (use assms(2) in \<open>auto simp: core_ok_def\<close>)
qed

lemma log_ok_step:
  assumes "gw_step dp cfg g l g'" and "core_ok dp secret base g" and "log_ok cfg evs g"
  shows "log_ok cfg (evs @ received_events [l]) g'"
proof -
  have len: "length (packets (core g)) = length (tasks (core g))" "length (sources g) = length (tasks (core g))"
    and rep: "\<And>i. i \<in> set (reported g) \<Longrightarrow> i < length (tasks (core g)) \<and> finished (tasks (core g) ! i)"
    using assms(2) by (auto simp: core_ok_def dest: config_lengths)
  have same: "log_ok cfg (evs @ evs') g'"
    if "reported g' = reported g" "\<And>i. i \<in> set (reported g) \<Longrightarrow> report_at g' i = report_at g i"
      "zip (packets (core g')) (sources g') = zip (packets (core g)) (sources g) @ concat (map (arrival cfg) evs')"
      "log_lines g' = log_lines g @ concat (map error_log evs')" for evs'
  proof -
    have "map (report_at g') (reported g') = map (report_at g) (reported g)" using that(1,2) by simp
    then show ?thesis using assms(3) that(3,4) unfolding log_ok_def by (simp only:) (simp add: ac_simps)
  qed
  from assms(1) show ?thesis
  proof cases
    case (receive ck d c' src)
    with gstep_tasks [OF receive(3)] len rep show ?thesis
      by (intro same) (auto simp: report_at_def nth_append)
  next
    case (recv_error e)
    then show ?thesis by (intro same) (simp_all add: report_at_def)
  next
    case (take_lock i c')
    with gstep_tasks [OF take_lock(3)] show ?thesis by (intro same) (simp_all add: report_at_def)
  next
    case (move i c')
    with gstep_tasks [OF move(3)] rep show ?thesis
      by (intro same) (auto simp: report_at_def nth_list_update)
  next
    case (report i r)
    then have "report_at g' j = report_at g j" for j by (simp add: report_at_def)
    with report assms(3) show ?thesis by (simp add: log_ok_def report_at_def ac_simps cong: map_cong)
  qed
qed

lemma gw_steps_ok:
  assumes "gw_steps dp cfg g ls g'" and "core_ok dp secret base g" and "log_ok cfg [] g"
  shows "core_ok dp secret base g' \<and> log_ok cfg (received_events ls) g'"
  using assms
proof (induction rule: gw_steps.induct)
  case (more g ls g' l g'')
  then have "core_ok dp secret base g'" "log_ok cfg (received_events ls) g'" by simp_all
  with more.hyps(2) core_ok_step log_ok_step show ?case
    by (metis received_events_append)
qed simp

subsection \<open>The specification\<close>

text \<open>The lines a packet from \<open>src\<close> calls for, given the error the storage reports for it, if any.\<close>

definition packet_log where
  "packet_log dp secret report raw src =
     (if length raw < 12 then [rejection_line src (MalformedPacket ''Packet too short (< 12 bytes)'')]
      else let (dev, ver) = header_of raw
        in case crypto_open dp (device_key dp secret dev) (drop 12 raw) of
             Inl e \<Rightarrow> [rejection_line src (DecryptionFailed e)]
           | Inr d \<Rightarrow>
               (case report of
                  Some msg \<Rightarrow> [rejection_line src (StorageError msg)]
                | None \<Rightarrow> if is_keyframe_payload d then [keyframe_line src (length raw) dev ver] else []))"

text \<open>One event: the storage takes the frame, and the lines are logged.\<close>

fun spec_step where
  "spec_step dp cfg s (RecvError e) = (s, [recv_error_line e])"
| "spec_step dp cfg s (Datagram d src ck) =
     (let secret = gw_master_secret cfg; lo = gw_world_min cfg; hi = gw_world_max cfg; p = (ck, received cfg d)
      in (on_opened dp secret (stores dp lo hi) p s,
          packet_log dp secret (storage_report dp secret lo hi p s) (received cfg d) src))"

lemma answer_log_settled:
  assumes "settled dp secret raw r" and "heard_storage (Finished r) report"
  shows "answer_log src (length raw) r = packet_log dp secret report raw src"
  using assms
  by (auto simp: settled_def answer_log_def packet_log_def split_def Let_def
      split: if_splits sum.splits ingest_error.splits)

fun is_datagram :: "net_event \<Rightarrow> bool" where
  "is_datagram (Datagram d src ck) = True"
| "is_datagram (RecvError e) = False"

fun arrival_of :: "gateway_config \<Rightarrow> net_event \<Rightarrow> arrival list" where
  "arrival_of cfg (Datagram d src ck) = [(ck, received cfg d)]"
| "arrival_of cfg (RecvError e) = []"

lemma gw_serial:
  assumes "gw_steps dp cfg g ls g'" and "serial_ok dp secret lo hi P0 [] (core g)"
  shows "serial_ok dp secret lo hi P0 (concat (map (arrival_of cfg) (received_events ls))) (core g')"
  using assms
proof (induction rule: gw_steps.induct)
  case (more g ls g' l g'')
  then have ok: "serial_ok dp secret lo hi P0 (concat (map (arrival_of cfg) (received_events ls))) (core g')" by simp
  from more.hyps(2) show ?case
    by cases (use serial_ok_step [OF ok] in \<open>fastforce simp: received_events_append ok\<close>)+
qed simp

text \<open>The \<open>i\<close>-th datagram, its arrival and its source.\<close>

lemma datagram_at:
  assumes "zip raws srcs = concat (map (arrival cfg) evs)" and "length raws = length srcs"
    and "i < length (filter is_datagram evs)"
  shows "\<exists>d src ck. filter is_datagram evs ! i = Datagram d src ck \<and>
     concat (map (arrival_of cfg) evs) ! i = (ck, received cfg d) \<and> raws ! i = received cfg d \<and> srcs ! i = src"
proof -
  have "\<exists>d src ck. filter is_datagram evs ! i = Datagram d src ck \<and>
     concat (map (arrival_of cfg) evs) ! i = (ck, received cfg d) \<and>
     concat (map (arrival cfg) evs) ! i = (received cfg d, src) \<and> i < length (concat (map (arrival cfg) evs))"
    using assms(3)
  proof (induction evs arbitrary: i)
    case (Cons ev evs)
    show ?case
    proof (cases ev)
      case (Datagram d src ck)
      with Cons show ?thesis by (cases i) auto
    next
      case (RecvError e)
      with Cons show ?thesis by simp
    qed
  qed simp
  with assms(1,2) show ?thesis by (metis length_zip min.idem nth_zip prod.inject)
qed

lemma count_datagrams: "length (concat (map (arrival_of cfg) evs)) = length (filter is_datagram evs)"
proof (induction evs)
  case (Cons ev evs)
  then show ?case by (cases ev) simp_all
qed simp

lemma spec_run_errors:
  "list_all (\<lambda>ev. \<not> is_datagram ev) evs \<Longrightarrow> run (spec_step dp cfg) s evs = (s, map error_log evs)"
proof (induction evs)
  case (Cons ev evs)
  then show ?case by (cases ev) (simp_all add: run_Cons)
qed simp

lemma mset_concat_map: "mset (concat (map f xs)) = (\<Sum>x\<in>#mset xs. mset (f x))"
  by (induction xs) simp_all

lemma error_log_only: "concat (map error_log evs) = concat (map error_log (filter (\<lambda>ev. \<not> is_datagram ev) evs))"
proof (induction evs)
  case (Cons ev evs)
  then show ?case by (cases ev) simp_all
qed simp

lemma mset_split: "mset (filter P xs) + mset (filter (\<lambda>x. \<not> P x) xs) = mset xs"
  by (induction xs) simp_all

text \<open>What the gateway stores after the datagrams \<open>js\<close> of the arrivals \<open>ps\<close>, from the storage \<open>s\<close>.\<close>

definition stored_after where
  "stored_after dp cfg ps s js =
     foldl (\<lambda>x j. on_opened dp (gw_master_secret cfg) (stores dp (gw_world_min cfg) (gw_world_max cfg)) (ps ! j) x) s js"

lemma spec_run_storage:
  assumes "\<forall>j\<in>set js. \<exists>d src ck. ds ! j = Datagram d src ck \<and> ps ! j = (ck, received cfg d)"
  shows "fst (run (spec_step dp cfg) s (map ((!) ds) js)) = stored_after dp cfg ps s js"
  unfolding stored_after_def using assms
proof (induction js arbitrary: s)
  case (Cons j js)
  then obtain d src ck where "ds ! j = Datagram d src ck" "ps ! j = (ck, received cfg d)" by auto
  with Cons show ?case by (simp add: Let_def)
qed simp

text \<open>The order in which the tasks of an answered gateway went through the storage.\<close>

lemma finished_order:
  assumes ser: "serial_ok dp (gw_master_secret cfg) (gw_world_min cfg) (gw_world_max cfg) P0 ps c"
    and fin: "\<And>i. i < length (tasks c) \<Longrightarrow> finished (tasks c ! i)"
  obtains js where "distinct js" "set js = {..<length (tasks c)}"
    "sdf_storage (pl c) = stored_after dp cfg ps (sdf_storage P0) js"
    "\<And>k. k < length js \<Longrightarrow> heard_storage (tasks c ! (js ! k))
       (storage_report dp (gw_master_secret cfg) (gw_world_min cfg) (gw_world_max cfg) (ps ! (js ! k))
         (stored_after dp cfg ps (sdf_storage P0) (take k js)))"
proof -
  from ser have serial: "serial sdf_storage
      (on_opened dp (gw_master_secret cfg) (stores dp (gw_world_min cfg) (gw_world_max cfg))) passed_store
      (storage_report dp (gw_master_secret cfg) (gw_world_min cfg) (gw_world_max cfg)) heard_storage
      (sdf_storage P0) ps (pl c) (tasks c)"
    by (simp only: serial_ok_def)
  have passed: "passed_store (ps ! i) (tasks c ! i)" if "i < length (tasks c)" for i
    using fin [OF that] by (cases "tasks c ! i") simp_all
  show ?thesis
    by (rule serialE [OF serial], rule that) (auto simp: stored_after_def passed)
qed

lemma answered_tasks:
  assumes "core_ok dp secret base g" and "all_answered g"
  shows "set (reported g) = {..<length (tasks (core g))}"
    and "i < length (tasks (core g)) \<Longrightarrow> finished (tasks (core g) ! i)"
  using assms by (auto simp: core_ok_def all_answered_def)

text \<open>One task of an answered gateway: the specification logs for its datagram what the task logs.\<close>

lemma task_explained:
  assumes "works_on dp (gw_master_secret cfg) (ck, received cfg d) t" and "finished t"
    and "heard_storage t (storage_report dp (gw_master_secret cfg) (gw_world_min cfg) (gw_world_max cfg)
       (ck, received cfg d) s)"
  shows "snd (spec_step dp cfg s (Datagram d src ck)) = report_of src (received cfg d) t"
proof -
  from assms(1,2) obtain r where "t = Finished r" "settled dp (gw_master_secret cfg) (received cfg d) r"
    by (cases t) auto
  with answer_log_settled [OF this(2)] assms(3) show ?thesis by (simp add: Let_def)
qed

lemma answers_explained:
  assumes works: "list_all2 (works_on dp (gw_master_secret cfg)) ps (tasks c)"
    and fin: "\<And>i. i < length (tasks c) \<Longrightarrow> finished (tasks c ! i)"
    and js: "set js = {..<length (tasks c)}"
    and heard: "\<And>k. k < length js \<Longrightarrow> heard_storage (tasks c ! (js ! k))
       (storage_report dp (gw_master_secret cfg) (gw_world_min cfg) (gw_world_max cfg) (ps ! (js ! k))
         (stored_after dp cfg ps s (take k js)))"
    and at: "\<And>i. i < length (tasks c) \<Longrightarrow>
       \<exists>d src ck. ds ! i = Datagram d src ck \<and> ps ! i = (ck, received cfg d) \<and> raws ! i = received cfg d \<and> srcs ! i = src"
  shows "run (spec_step dp cfg) s (map ((!) ds) js) =
     (stored_after dp cfg ps s js, map (\<lambda>i. report_of (srcs ! i) (raws ! i) (tasks c ! i)) js)"
proof (rule prod_eqI)
  have state: "fst (run (spec_step dp cfg) s (map ((!) ds) ks)) = stored_after dp cfg ps s ks"
    if "set ks \<subseteq> set js" for ks
  proof (rule spec_run_storage, rule ballI)
    fix j
    assume "j \<in> set ks"
    with that js have "j < length (tasks c)" by auto
    from at [OF this] show "\<exists>d src ck. ds ! j = Datagram d src ck \<and> ps ! j = (ck, received cfg d)" by blast
  qed
  then show "fst (run (spec_step dp cfg) s (map ((!) ds) js)) =
      fst (stored_after dp cfg ps s js, map (\<lambda>i. report_of (srcs ! i) (raws ! i) (tasks c ! i)) js)" by simp
  have "snd (run (spec_step dp cfg) s (map ((!) ds) js)) = map (\<lambda>i. report_of (srcs ! i) (raws ! i) (tasks c ! i)) js"
  proof (rule nth_equalityI)
    fix k
    assume "k < length (snd (run (spec_step dp cfg) s (map ((!) ds) js)))"
    then have k: "k < length js" by simp
    then have i: "js ! k < length (tasks c)" using nth_mem js by blast
    obtain d src ck where ev: "ds ! (js ! k) = Datagram d src ck" "ps ! (js ! k) = (ck, received cfg d)"
        "raws ! (js ! k) = received cfg d" "srcs ! (js ! k) = src"
      using at [OF i] by blast
    have "works_on dp (gw_master_secret cfg) (ck, received cfg d) (tasks c ! (js ! k))"
      using works i ev(2) by (metis list_all2_conv_all_nth)
    note explained = task_explained [OF this fin [OF i] heard [OF k, unfolded ev(2)], of src]
    have "snd (run (spec_step dp cfg) s (map ((!) ds) js)) ! k =
        snd (spec_step dp cfg (stored_after dp cfg ps s (take k js)) (ds ! (js ! k)))"
      using k state [OF set_take_subset, of k] by (simp only: run_nth length_map take_map nth_map)
    then show "snd (run (spec_step dp cfg) s (map ((!) ds) js)) ! k =
        map (\<lambda>i. report_of (srcs ! i) (raws ! i) (tasks c ! i)) js ! k"
      using k by (simp only: explained ev nth_map)
  qed simp
  then show "snd (run (spec_step dp cfg) s (map ((!) ds) js)) =
      snd (stored_after dp cfg ps s js, map (\<lambda>i. report_of (srcs ! i) (raws ! i) (tasks c ! i)) js)" by simp
qed

text \<open>When everything is answered, the order in which the tasks went through the storage explains the log.\<close>

lemma answered_log:
  assumes core: "core_ok dp (gw_master_secret cfg) base g" and log: "log_ok cfg evs g" and answered: "all_answered g"
    and ser: "serial_ok dp (gw_master_secret cfg) (gw_world_min cfg) (gw_world_max cfg) P0
      (concat (map (arrival_of cfg) evs)) (core g)"
  shows "\<exists>evs'. mset evs' = mset evs \<and>
    mset (log_lines g) = mset (startup_log cfg @ concat (snd (run (spec_step dp cfg) (sdf_storage P0) evs'))) \<and>
    sdf_storage (pl (core g)) = fst (run (spec_step dp cfg) (sdf_storage P0) evs')"
proof -
  let ?n = "length (tasks (core g))" and ?ps = "concat (map (arrival_of cfg) evs)"
  let ?ds = "filter is_datagram evs" and ?errs = "filter (\<lambda>ev. \<not> is_datagram ev) evs"
  note all = answered_tasks [OF core answered]
  have len: "length (packets (core g)) = ?n" "length (sources g) = ?n" and rep: "distinct (reported g)"
    using core by (auto simp: core_ok_def dest: config_lengths)
  have works: "list_all2 (works_on dp (gw_master_secret cfg)) ?ps (tasks (core g))"
    using ser by (simp only: serial_ok_def)
  then have n: "length ?ds = ?n" by (metis count_datagrams list_all2_lengthD)
  obtain js where js: "distinct js" "set js = {..<?n}"
    "sdf_storage (pl (core g)) = stored_after dp cfg ?ps (sdf_storage P0) js"
    and heard: "\<And>k. k < length js \<Longrightarrow> heard_storage (tasks (core g) ! (js ! k))
       (storage_report dp (gw_master_secret cfg) (gw_world_min cfg) (gw_world_max cfg) (?ps ! (js ! k))
         (stored_after dp cfg ?ps (sdf_storage P0) (take k js)))"
    using finished_order [OF ser all(2)] by blast
  have "zip (packets (core g)) (sources g) = concat (map (arrival cfg) evs)" using log by (simp only: log_ok_def)
  note at = datagram_at [OF this, unfolded len n, OF refl]
  have "run (spec_step dp cfg) (sdf_storage P0) (map ((!) ?ds) js) =
      (sdf_storage (pl (core g)), map (report_at g) js)"
    unfolding js(3) report_at_def [abs_def] by (rule answers_explained [OF works all(2) js(2) heard at])
  moreover have "list_all (\<lambda>ev. \<not> is_datagram ev) ?errs" by (simp add: list_all_iff)
  ultimately have run: "run (spec_step dp cfg) (sdf_storage P0) (map ((!) ?ds) js @ ?errs) =
      (sdf_storage (pl (core g)), map (report_at g) js @ map error_log ?errs)"
    by (simp add: run_append spec_run_errors)
  have "set js = set [0..<?n]" by (simp only: js(2) set_upt atLeast0LessThan)
  then have perm1: "mset js = mset [0..<?n]" by (simp only: set_eq_iff_mset_eq_distinct [OF js(1) distinct_upt])
  have "set (reported g) = set js" by (simp only: js(2) all(1))
  then have perm2: "mset (reported g) = mset js" by (simp only: set_eq_iff_mset_eq_distinct [OF rep js(1)])
  have "mset (map ((!) ?ds) js) = mset (map ((!) ?ds) [0..<?n])" by (simp only: mset_map perm1)
  also have "map ((!) ?ds) [0..<?n] = ?ds" using map_nth [of ?ds] by (simp only: n)
  finally have "mset (map ((!) ?ds) js @ ?errs) = mset evs" using mset_split [of is_datagram evs] by simp
  moreover have "mset (concat (map (report_at g) (reported g))) = mset (concat (map (report_at g) js))"
    unfolding mset_concat_map by (simp only: perm2)
  then have "mset (log_lines g) = mset (startup_log cfg @ concat (map (report_at g) js @ map error_log ?errs))"
    using log error_log_only [of evs] by (simp add: log_ok_def ac_simps)
  ultimately show ?thesis using run by (metis fst_conv snd_conv)
qed

subsection \<open>Every datagram is answered\<close>

text \<open>The moves left to the tasks, and one for each report that is still missing.\<close>

definition gw_moves_left where
  "gw_moves_left g = moves_left (core g) + (length (tasks (core g)) - length (reported g))"

lemma reported_bound:
  assumes "core_ok dp secret base g" and "i < length (tasks (core g))" and "i \<notin> set (reported g)"
  shows "length (reported g) < length (tasks (core g))"
proof -
  from assms have "set (reported g) \<subset> {..<length (tasks (core g))}" by (auto simp: core_ok_def)
  then have "card (set (reported g)) < card {..<length (tasks (core g))}" by (intro psubset_card_mono) simp_all
  with assms(1) show ?thesis by (simp add: core_ok_def distinct_card)
qed

lemma gw_moves_left_less:
  assumes "gw_step dp cfg g l g'" and "\<not> is_receive l" and "core_ok dp secret base g"
  shows "gw_moves_left g' < gw_moves_left g"
  using assms(1)
proof cases
  case (take_lock i c')
  with moves_left_acquire [OF take_lock(3)] gstep_tasks [OF take_lock(3)] show ?thesis
    by (simp add: gw_moves_left_def)
next
  case (move i c')
  with moves_left_act [OF move(3)] gstep_tasks [OF move(3)] show ?thesis
    by (auto simp: gw_moves_left_def)
next
  case (report i r)
  with reported_bound [OF assms(3) report(3,5)] show ?thesis by (simp add: gw_moves_left_def)
qed (use assms(2) in simp_all)

lemma gw_schedule_length:
  assumes "gw_steps dp cfg g ls g'" and "list_all (\<lambda>l. \<not> is_receive l) ls" and "core_ok dp secret base g"
  shows "length ls + gw_moves_left g' \<le> gw_moves_left g \<and> core_ok dp secret base g'"
  using assms
proof (induction rule: gw_steps.induct)
  case (more g ls g' l g'')
  then have "length ls + gw_moves_left g' \<le> gw_moves_left g" "core_ok dp secret base g'" "\<not> is_receive l"
    by simp_all
  moreover from this have "gw_moves_left g'' < gw_moves_left g'" "core_ok dp secret base g''"
    using gw_moves_left_less [OF more.hyps(2)] core_ok_step [OF more.hyps(2)] by blast+
  ultimately show ?case by simp
qed simp

lemma gw_moves_left_bound: "gw_moves_left g \<le> 19 * length (tasks (core g))"
  using moves_left_bound [of "core g"] by (simp add: gw_moves_left_def)

lemma unanswered_moves:
  assumes "core_ok dp secret base g" and "\<not> all_answered g"
  shows "\<exists>l g'. \<not> is_receive l \<and> gw_step dp cfg g l g'"
proof -
  obtain i where i: "i < length (tasks (core g))" "i \<notin> set (reported g)"
    using assms(2) by (auto simp: all_answered_def)
  show ?thesis
  proof (cases "finished (tasks (core g) ! i)")
    case True
    have "task_ok dp secret (packets (core g) ! i) (tasks (core g) ! i)"
      using assms(1) i(1) by (auto simp: core_ok_def config_ok_def list_all2_conv_all_nth)
    with True obtain r where "tasks (core g) ! i = Finished r" by (cases "tasks (core g) ! i") auto
    from gw_step.report [OF i(1) this i(2)] show ?thesis by (metis is_receive.simps(4))
  next
    case False
    from assms(1) have "locks_ok (core g)" by (simp add: core_ok_def)
    from some_task_moves [OF this i(1) False] obtain j c'
      where "gstep dp (core g) (Acquire j) c' \<or> gstep dp (core g) (Act j) c'" by blast
    then show ?thesis using gw_step.take_lock gw_step.move is_receive.simps(2,3) by metis
  qed
qed

lemma answered_stops:
  assumes "core_ok dp secret base g" and "all_answered g" and "gw_step dp cfg g l g'"
  shows "is_receive l"
proof -
  have fin: "finished (tasks (core g) ! i)" if "i < length (tasks (core g))" for i
    using assms(1,2) that by (auto simp: core_ok_def all_answered_def)
  from assms(3) show ?thesis
  proof cases
    case (take_lock i c')
    from take_lock(3) show ?thesis using fin lock_of_unfinished by cases blast
  next
    case (move i c')
    with gstep_tasks [OF move(3)] fin show ?thesis by auto
  next
    case (report i r)
    with assms(2) show ?thesis by (simp add: all_answered_def)
  qed simp_all
qed

subsection \<open>A schedule of the demonstration gateway\<close>

definition demo_gateway_config :: gateway_config where
  "demo_gateway_config = gateway_config_default
     \<lparr>db_path := ''db'', cache_capacity := 10, gw_master_secret := replicate 32 42,
      gw_world_min := (0, 0, 0), gw_world_max := (0, 0, 0)\<rparr>"

definition demo_source :: socket_addr where
  "demo_source = V4 (127, 0, 0, 1) 5000"

definition demo_gateway where
  "demo_gateway = \<lparr>core = initial demo_pipeline, sources = [], reported = [],
     log_lines = startup_log demo_gateway_config\<rparr>"

definition demo_gateway_end where
  "demo_gateway_end = \<lparr>core = demo_config, sources = [demo_source], reported = [0],
     log_lines = startup_log demo_gateway_config @
       [rejection_line demo_source (MalformedPacket ''Packet too short (< 12 bytes)'')]\<rparr>"

abbreviation "demo_bound \<equiv> (\<lambda>a :: socket_addr. Inr () :: string + unit)"

lemma demo_gateway_start: "gateway_start demo_deps demo_gateway_config demo_bound = Inr demo_gateway"
  using demo_pipeline_new by (simp add: gateway_start_def demo_gateway_config_def demo_gateway_def)

abbreviation "demo_gateway_labels \<equiv> [Receive (Datagram [1] demo_source demo_clock), Move 0, Report 0]"

lemma demo_gateway_steps:
  "gw_steps demo_deps demo_gateway_config demo_gateway demo_gateway_labels demo_gateway_end"
proof -
  let ?c = "(initial demo_pipeline)\<lparr>packets := [[1]], tasks := [Fresh demo_clock [1]]\<rparr>"
  let ?g1 = "demo_gateway\<lparr>core := ?c, sources := [demo_source]\<rparr>" and ?g2 = "demo_gateway\<lparr>core := demo_config, sources := [demo_source]\<rparr>"
  have "gstep demo_deps (initial demo_pipeline) (Arrive demo_clock (received demo_gateway_config [1])) ?c"
    using gstep.arrive [of demo_deps "initial demo_pipeline" demo_clock "[1]"]
    by (simp add: initial_def received_def demo_gateway_config_def gateway_config_default_def)
  then have 1: "gw_step demo_deps demo_gateway_config demo_gateway (Receive (Datagram [1] demo_source demo_clock)) ?g1"
    using gw_step.receive [of demo_deps demo_gateway demo_clock demo_gateway_config "[1]" ?c demo_source]
    by (simp add: demo_gateway_def)
  have "gstep demo_deps ?c (Act 0) demo_config"
    using gstep.act [of 0 ?c demo_deps demo_pipeline]
    by (simp add: initial_def demo_config_def release_def task_defs)
  then have 2: "gw_step demo_deps demo_gateway_config ?g1 (Move 0) ?g2"
    using gw_step.move [of demo_deps ?g1 0 demo_config demo_gateway_config]
    by (simp add: demo_gateway_def)
  have 3: "gw_step demo_deps demo_gateway_config ?g2 (Report 0) demo_gateway_end"
    using gw_step.report [of 0 ?g2 _ demo_deps demo_gateway_config]
    by (simp add: demo_config_def demo_gateway_end_def demo_gateway_def answer_log_def)
  from gw_steps.more [OF gw_steps.more [OF gw_steps.more [OF gw_steps.none 1] 2] 3] show ?thesis by simp
qed

subsection \<open>Properties\<close>

text \<open>C4. The concurrent gateway does what its specification says, in some order: whatever the schedule of
  loop and tasks, once every datagram has been answered there is an order of the events (datagrams and
  receive errors) in which the specification, whose only state is the storage, logs the same lines, up
  to their order, and leaves the same storage. So each datagram is logged exactly as its packet calls for: a
  rejection with its reason, a line for a keyframe, nothing for a delta; and the errors the storage
  reports are those of one order of the frames.\<close>

theorem log_refines_spec:
  assumes "gateway_start dp cfg bound = Inr g0" and "gw_steps dp cfg g0 ls g" and "all_answered g"
  shows "\<exists>evs. mset evs = mset (received_events ls) \<and>
     mset (log_lines g) =
       mset (startup_log cfg @ concat (snd (run (spec_step dp cfg) (sdf_storage (pl (core g0))) evs))) \<and>
     sdf_storage (pl (core g)) = fst (run (spec_step dp cfg) (sdf_storage (pl (core g0))) evs)"
proof -
  from assms(1) obtain P where P: "pipeline_new dp (db_path cfg) (cache_capacity cfg) (gw_master_secret cfg)
      (gw_world_min cfg) (gw_world_max cfg) = Inr P" and g0: "core g0 = initial P"
    by (auto simp: gateway_start_def split: sum.splits)
  have "pipeline_good dp (gw_master_secret cfg) (gw_world_min cfg) (gw_world_max cfg) P"
    using pipeline_new_ok [OF P] P by (auto simp: pipeline_good_def pipeline_new_def split: sum.splits)
  then have "serial_ok dp (gw_master_secret cfg) (gw_world_min cfg) (gw_world_max cfg) P [] (core g0)"
    unfolding g0 by (rule serial_ok_initial)
  note serial = gw_serial [OF assms(2) this]
  have "core_ok dp (gw_master_secret cfg) (total_requests (stats_default dp)) g" "log_ok cfg (received_events ls) g"
    using gw_steps_ok [OF assms(2) gateway_start_ok [OF assms(1)]] by simp_all
  from answered_log [OF this assms(3) serial] show ?thesis by (simp add: g0 initial_def)
qed

lemma log_refines_spec_witness:
  "mset (log_lines demo_gateway_end) =
     mset (startup_log demo_gateway_config @
       [rejection_line demo_source (MalformedPacket ''Packet too short (< 12 bytes)'')])"
proof -
  have "all_answered demo_gateway_end"
    by (simp add: all_answered_def demo_gateway_end_def demo_config_def)
  from log_refines_spec [OF demo_gateway_start demo_gateway_steps this] obtain evs
    where evs: "mset evs = mset [Datagram [1] demo_source demo_clock]"
      and log: "mset (log_lines demo_gateway_end) = mset (startup_log demo_gateway_config @
        concat (snd (run (spec_step demo_deps demo_gateway_config) (sdf_storage (pl (core demo_gateway))) evs)))"
    by auto
  from evs have "evs = [Datagram [1] demo_source demo_clock]" by simp
  with log show ?thesis
    by (simp add: packet_log_def received_def demo_gateway_config_def gateway_config_default_def Let_def)
qed

text \<open>C13. Every datagram is answered: from any reachable state, when no more datagrams arrive, the tasks
  can make at most 19 moves each, in whatever order, and they can go on exactly as long as some
  task has not written its log line.\<close>

theorem every_datagram_answered:
  assumes "gateway_start dp cfg bound = Inr g0" and "gw_steps dp cfg g0 ls g"
    and "gw_steps dp cfg g ms g'" and "list_all (\<lambda>l. \<not> is_receive l) ms"
  shows "length ms \<le> 19 * length (tasks (core g)) \<and>
     ((\<exists>l g''. \<not> is_receive l \<and> gw_step dp cfg g' l g'') \<longleftrightarrow> \<not> all_answered g')"
proof -
  note ok = conjunct1 [OF gw_steps_ok [OF assms(2) gateway_start_ok [OF assms(1)]]]
  note rest = gw_schedule_length [OF assms(3,4) ok]
  have "length ms \<le> 19 * length (tasks (core g))" using rest gw_moves_left_bound [of g] by linarith
  with conjunct2 [OF rest] unanswered_moves answered_stops show ?thesis by metis
qed

lemma every_datagram_answered_witness:
  "\<not> (\<exists>l g''. \<not> is_receive l \<and> gw_step demo_deps demo_gateway_config demo_gateway_end l g'')"
proof -
  have "all_answered demo_gateway_end"
    by (simp add: all_answered_def demo_gateway_end_def demo_config_def)
  with every_datagram_answered [OF demo_gateway_start demo_gateway_steps gw_steps.none] show ?thesis by simp
qed

end
