(* ===== verification/Test_Support.thy ===== *)
theory Test_Support
  imports Rust_Float "HOL-Library.Sublist"
begin

text \<open>
  What the unit tests of \<^verbatim>\<open>src/\<close> share: the tolerance comparison, loops that call an operation a
  number of times, and the rules that evaluate the small numbers occurring in them. Each test of
  the repository is a \<open>bool\<close> in one of the theories \<open>Flow_Tests\<close>, \<open>Data_Tests\<close>, \<open>State_Tests\<close>,
  \<open>Sketch_Tests\<close>, \<open>Export_Tests\<close>, \<open>Ingest_Tests\<close>, \<open>Debug_Tests\<close>: the conjunction of its assertions, run on the model; it is proved to hold.
\<close>

text \<open>\<^verbatim>\<open>(x - y).abs() < 1e-10\<close>.\<close>

definition close_to :: "f64 \<Rightarrow> f64 \<Rightarrow> bool" where
  "close_to x y \<longleftrightarrow> flt (fabs (fsub x y)) (flit (1 / 10 ^ 10))"

lemma flit_pos: "pow2 (-1074) \<le> q \<Longrightarrow> flt (Fin s 0) (flit q)"
proof -
  assume q: "pow2 (-1074) \<le> q"
  have "pow2 (-1074) \<le> 1" by simp
  then have lim: "\<bar>pow2 (-1074)\<bar> < f64_limit" by (intro below_f64_limit) simp
  have "flt (Fin s 0) (Fin False (pow2 (-1074)))" by simp
  moreover have "fle (Fin False (pow2 (-1074))) (flit q)"
    unfolding flit_def using q on_grid_pow2 [of "-1074"] lim by (intro round_fp_ge) simp_all
  ultimately show ?thesis by (rule flt_fle_trans)
qed

lemma close_to_self: "is_fin x \<Longrightarrow> close_to x x"
proof -
  assume "is_fin x"
  have "pow2 (-1074) \<le> pow2 (-34)" by (rule pow2_mono) simp
  also have "\<dots> \<le> 1 / 10 ^ 10" by (simp add: power_int_minus)
  finally have "flt (Fin False 0) (flit (1 / 10 ^ 10))" by (rule flit_pos)
  with fsub_self [OF \<open>is_fin x\<close>] show ?thesis by (simp add: close_to_def)
qed

lemma run_replicate [simp]:
  "run f s (replicate (numeral k) e) = run f s (e # replicate (pred_numeral k) e)"
  by (simp add: numeral_eq_Suc)

lemma floor_rat_numeral [simp]:
  "\<lfloor>numeral a / numeral b :: rat\<rfloor> = numeral a div numeral b"
  "\<lfloor>1 / numeral b :: rat\<rfloor> = 1 div numeral b"
  using floor_divide_of_int_eq [of "numeral a" "numeral b", where ?'a = rat]
    floor_divide_of_int_eq [of 1 "numeral b", where ?'a = rat] by simp_all

lemma ceiling_rat_numeral [simp]:
  "\<lceil>numeral a / numeral b :: rat\<rceil> = - (- numeral a div numeral b)"
  using floor_divide_of_int_eq [of "- numeral a" "numeral b", where ?'a = rat]
  by (simp add: ceiling_def)

text \<open>Rounding of a concrete fraction.\<close>

lemmas round_eval = round_fp_def round64_eval f64_limit_def power_int_minus

lemma round_fp_half [simp]: "round_fp s (1 / 2) = Fin False (1 / 2)"
  by (simp add: round_fp_def round64_eval f64_limit_def power_int_minus)

text \<open>\<^verbatim>\<open>s.contains(p)\<close>.\<close>

definition contains_text :: "string \<Rightarrow> string \<Rightarrow> bool" where
  "contains_text s p \<longleftrightarrow> sublist p s"

text \<open>The bit patterns of \<^verbatim>\<open>f32\<close> literals.\<close>

abbreviation "f32_50 \<equiv> 0x42480000 :: f32"
abbreviation "f32_60 \<equiv> 0x42700000 :: f32"

end
