(* ===== verification/Flow_Tests.thy ===== *)
theory Flow_Tests
  imports Test_Support Rate_Limiter Circuit_Breaker Backpressure
begin

text \<open>
  The unit tests of \<^verbatim>\<open>src/rate_limiter.rs\<close>, \<^verbatim>\<open>src/circuit_breaker.rs\<close> and \<^verbatim>\<open>src/backpressure.rs\<close>, run
  on the model: every assertion holds.
\<close>

subsection \<open>\<^verbatim>\<open>src/rate_limiter.rs\<close>\<close>

definition limiter_default_config :: bool where
  "limiter_default_config =
     (let config = rate_limiter_config_default
      in close_to (requests_per_second config) (flit 100) \<and> burst_size config = 200)"

definition limiter_allows_within_burst :: bool where
  "limiter_allows_within_burst =
     (let config = \<lparr>requests_per_second = flit 10, burst_size = 5\<rparr>;
          limiter = rate_limiter_new config (flit 0)
      in list_all id (snd (run try_acquire limiter (replicate 5 (flit 0)))))"

definition limiter_rejects_over_burst :: bool where
  "limiter_rejects_over_burst =
     (let config = \<lparr>requests_per_second = flit 10, burst_size = 3\<rparr>;
          limiter = rate_limiter_new config (flit 0);
          (limiter, oks) = run try_acquire limiter (replicate 3 (flit 0))
      in list_all id oks \<and> \<not> snd (try_acquire limiter (flit 0)))"

definition limiter_refills_over_time :: bool where
  "limiter_refills_over_time =
     (let config = \<lparr>requests_per_second = flit 10, burst_size = 5\<rparr>;
          limiter = rate_limiter_new config (flit 0);
          (limiter, _) = run try_acquire limiter (replicate 5 (flit 0));
          (limiter, ok0) = try_acquire limiter (flit 0);
          (limiter, ok1) = try_acquire limiter (flit (5 / 10))
      in \<not> ok0 \<and> ok1)"

definition limiter_tokens_capped_at_burst :: bool where
  "limiter_tokens_capped_at_burst =
     (let config = \<lparr>requests_per_second = flit 100, burst_size = 10\<rparr>;
          limiter = refill (rate_limiter_new config (flit 0)) (flit 100)
      in fle (available_tokens limiter) (fadd (f64_of_u32 (burst_size config)) (flit (1 / 10 ^ 10))))"

definition device_limiter_separate_buckets :: bool where
  "device_limiter_separate_buckets =
     (let config = \<lparr>requests_per_second = flit 10, burst_size = 2\<rparr>;
          dl = drl_new config;
          (dl, a1) = drl_try_acquire dl 1 (flit 0);
          (dl, a2) = drl_try_acquire dl 1 (flit 0);
          (dl, a3) = drl_try_acquire dl 1 (flit 0);
          (dl, a4) = drl_try_acquire dl 2 (flit 0)
      in a1 \<and> a2 \<and> \<not> a3 \<and> a4)"

definition device_limiter_count :: bool where
  "device_limiter_count =
     (let dl = drl_with_defaults;
          (dl, _) = drl_try_acquire dl 1 (flit 0);
          (dl, _) = drl_try_acquire dl 2 (flit 0);
          (dl, _) = drl_try_acquire dl 3 (flit 0)
      in device_count dl = 3)"

definition device_limiter_total_rejected :: bool where
  "device_limiter_total_rejected =
     (let config = \<lparr>requests_per_second = flit 10, burst_size = 1\<rparr>;
          dl = drl_new config;
          (dl, _) = drl_try_acquire dl 1 (flit 0);
          (dl, _) = drl_try_acquire dl 1 (flit 0);
          (dl, _) = drl_try_acquire dl 1 (flit 0)
      in drl_total_rejected dl = 2)"

definition device_limiter_remove :: bool where
  "device_limiter_remove =
     (let dl = drl_with_defaults;
          (dl, _) = drl_try_acquire dl 1 (flit 0);
          (dl, r1) = remove_device dl 1;
          (dl, r2) = remove_device dl 1
      in r1 \<and> \<not> r2 \<and> device_count dl = 0)"

definition device_limiter_purge_inactive :: bool where
  "device_limiter_purge_inactive =
     (let dl = drl_with_defaults;
          (dl, _) = drl_try_acquire dl 1 (flit 0);
          (dl, _) = drl_try_acquire dl 2 (flit 0);
          (dl, _) = drl_try_acquire dl 3 (flit 100);
          (dl, purged) = purge_inactive dl (flit 100) (flit 60)
      in purged = 2 \<and> device_count dl = 1)"

definition device_limiter_purge_none :: bool where
  "device_limiter_purge_none =
     (let dl = drl_with_defaults;
          (dl, _) = drl_try_acquire dl 1 (flit 100);
          (dl, purged) = purge_inactive dl (flit 100) (flit 60)
      in purged = 0)"

definition limiter_available_tokens :: bool where
  "limiter_available_tokens =
     (let config = \<lparr>requests_per_second = flit 10, burst_size = 5\<rparr>;
          limiter = rate_limiter_new config (flit 0)
      in close_to (available_tokens limiter) (flit 5))"

lemmas limiter_eval = rate_limiter_new_def try_acquire_def refill_def available_tokens_def
  float_eval Let_def

lemmas device_limiter_eval = drl_new_def drl_with_defaults_def drl_try_acquire_def remove_device_def
  purge_inactive_def device_count_def drl_total_rejected_def rate_limiter_config_default_def
  hm_get_def hm_insert_def hm_remove_def hm_retain_def limiter_eval

lemma limiter_tests:
  limiter_default_config limiter_allows_within_burst limiter_rejects_over_burst
  limiter_refills_over_time limiter_available_tokens
  by (simp_all add: limiter_default_config_def limiter_allows_within_burst_def
      limiter_rejects_over_burst_def limiter_refills_over_time_def limiter_available_tokens_def
      rate_limiter_config_default_def close_to_self run.simps(2) limiter_eval cong: let_weak_cong)

lemma fadd_ge:
  assumes "fle (Fin True 0) x" and "\<bar>n\<bar> \<le> 2 ^ 53"
  shows "fle (Fin s (of_int n)) (fadd (Fin t (of_int n)) x)"
  using assms int_below_2_53 [OF assms(2)] by (cases x) (auto intro!: round_fp_ge)

lemma limiter_cap_test: limiter_tokens_capped_at_burst
  using fadd_ge [of "flit (1 / 10 ^ 10)" 10 True False] round_fp_nonneg [of "1 / 10 ^ 10" True False]
  by (simp add: limiter_tokens_capped_at_burst_def limiter_eval)

lemma device_limiter_tests:
  device_limiter_separate_buckets device_limiter_count device_limiter_total_rejected
  device_limiter_remove device_limiter_purge_inactive device_limiter_purge_none
  by (simp_all add: device_limiter_separate_buckets_def device_limiter_count_def
      device_limiter_total_rejected_def device_limiter_remove_def device_limiter_purge_inactive_def
      device_limiter_purge_none_def device_limiter_eval cong: let_weak_cong)

subsection \<open>\<^verbatim>\<open>src/circuit_breaker.rs\<close>\<close>

definition breaker_default_config :: bool where
  "breaker_default_config =
     (let config = circuit_breaker_config_default
      in failure_threshold config = 5 \<and> close_to (recovery_timeout_s config) (flit 30) \<and>
         half_open_max_requests config = 3)"

definition starts_closed :: bool where
  "starts_closed \<longleftrightarrow> cb_state breaker_with_defaults = Closed"

definition allows_in_closed :: bool where
  "allows_in_closed \<longleftrightarrow> snd (allow_request breaker_with_defaults (flit 0))"

definition opens_after_threshold :: bool where
  "opens_after_threshold =
     (let config = circuit_breaker_config_default\<lparr>failure_threshold := 3\<rparr>;
          cb = breaker_new config;
          cb = fold (\<lambda>i cb. record_failure cb (flit (of_nat i))) [0..<3] cb
      in cb_state cb = Open)"

definition rejects_in_open :: bool where
  "rejects_in_open =
     (let config = circuit_breaker_config_default\<lparr>failure_threshold := 1, recovery_timeout_s := flit 10\<rparr>;
          cb = breaker_new config;
          cb = record_failure cb (flit 0)
      in cb_state cb = Open \<and> \<not> snd (allow_request cb (flit 5)))"

definition transitions_to_half_open :: bool where
  "transitions_to_half_open =
     (let config = \<lparr>failure_threshold = 1, recovery_timeout_s = flit 10, half_open_max_requests = 2\<rparr>;
          cb = breaker_new config;
          cb = record_failure cb (flit 0);
          opened = (cb_state cb = Open);
          (cb, allowed) = allow_request cb (flit 11)
      in opened \<and> allowed \<and> cb_state cb = HalfOpen)"

definition half_open_to_closed_on_success :: bool where
  "half_open_to_closed_on_success =
     (let config = \<lparr>failure_threshold = 1, recovery_timeout_s = flit 5, half_open_max_requests = 2\<rparr>;
          cb = breaker_new config;
          cb = record_failure cb (flit 0);
          (cb, _) = allow_request cb (flit 6);
          cb = record_success cb;
          (cb, _) = allow_request cb (flit 6);
          cb = record_success cb
      in cb_state cb = Closed)"

definition half_open_to_open_on_failure :: bool where
  "half_open_to_open_on_failure =
     (let config = \<lparr>failure_threshold = 1, recovery_timeout_s = flit 5, half_open_max_requests = 3\<rparr>;
          cb = breaker_new config;
          cb = record_failure cb (flit 0);
          (cb, _) = allow_request cb (flit 6);
          cb = record_failure cb (flit 6)
      in cb_state cb = Open)"

definition half_open_limits_requests :: bool where
  "half_open_limits_requests =
     (let config = \<lparr>failure_threshold = 1, recovery_timeout_s = flit 5, half_open_max_requests = 2\<rparr>;
          cb = breaker_new config;
          cb = record_failure cb (flit 0);
          (cb, _) = allow_request cb (flit 6);
          (cb, second) = allow_request cb (flit 6);
          (cb, third) = allow_request cb (flit 6)
      in second \<and> \<not> third)"

definition success_resets_failures_in_closed :: bool where
  "success_resets_failures_in_closed =
     (let cb = breaker_with_defaults;
          cb = record_failure cb (flit 0);
          cb = record_failure cb (flit 1);
          two = (consecutive_failures cb = 2);
          cb = record_success cb
      in two \<and> consecutive_failures cb = 0)"

definition manual_reset :: bool where
  "manual_reset =
     (let config = circuit_breaker_config_default\<lparr>failure_threshold := 1\<rparr>;
          cb = breaker_new config;
          cb = record_failure cb (flit 0);
          opened = (cb_state cb = Open);
          cb = breaker_reset cb
      in opened \<and> cb_state cb = Closed \<and> consecutive_failures cb = 0)"

definition transition_count_tracks :: bool where
  "transition_count_tracks =
     (let config = \<lparr>failure_threshold = 1, recovery_timeout_s = flit 5, half_open_max_requests = 1\<rparr>;
          cb0 = breaker_new config;
          cb1 = record_failure cb0 (flit 0);
          (cb2, _) = allow_request cb1 (flit 6)
      in transition_count cb0 = 0 \<and> transition_count cb1 = 1 \<and> transition_count cb2 = 2)"

lemmas breaker_eval = breaker_new_def breaker_with_defaults_def circuit_breaker_config_default_def
  allow_request_def record_success_def record_failure_def breaker_reset_def transition_to_def
  float_eval Let_def

lemma below_threshold: "\<not> 5 \<le> (1 :: u32)"
  by (simp add: word_le_nat_alt)

lemma breaker_tests:
  breaker_default_config starts_closed allows_in_closed opens_after_threshold rejects_in_open
  transitions_to_half_open half_open_to_closed_on_success half_open_to_open_on_failure
  half_open_limits_requests success_resets_failures_in_closed manual_reset transition_count_tracks
  by (simp_all add: breaker_default_config_def starts_closed_def allows_in_closed_def
      opens_after_threshold_def rejects_in_open_def transitions_to_half_open_def
      half_open_to_closed_on_success_def half_open_to_open_on_failure_def half_open_limits_requests_def
      success_resets_failures_in_closed_def manual_reset_def transition_count_tracks_def
      close_to_self upt_rec below_threshold breaker_eval cong: let_weak_cong)

subsection \<open>\<^verbatim>\<open>src/backpressure.rs\<close>\<close>

definition backpressure_default_config :: bool where
  "backpressure_default_config =
     (let config = backpressure_config_default
      in max_inflight config = 10000 \<and> close_to (high_watermark config) (flit (8 / 10)))"

definition allow_when_idle :: bool where
  "allow_when_idle \<longleftrightarrow> snd (evaluate controller_with_defaults) = FlowAllow"

definition throttle_at_high_watermark :: bool where
  "throttle_at_high_watermark =
     (let config = \<lparr>max_inflight = 100, high_watermark = flit (8 / 10), low_watermark = flit (5 / 10),
                    max_queue_len = 1000\<rparr>;
          ctrl = (on_request_start ^^ 80) (controller_new config)
      in snd (evaluate ctrl) = Throttle)"

definition reject_at_max_inflight :: bool where
  "reject_at_max_inflight =
     (let config = backpressure_config_default\<lparr>max_inflight := 10\<rparr>;
          ctrl = (on_request_start ^^ 10) (controller_new config)
      in snd (evaluate ctrl) = Reject)"

definition reject_at_max_queue :: bool where
  "reject_at_max_queue =
     (let config = backpressure_config_default\<lparr>max_queue_len := 5\<rparr>;
          ctrl = update_queue_len (controller_new config) 5
      in snd (evaluate ctrl) = Reject)"

definition hysteresis_test :: bool where
  "hysteresis_test =
     (let config = \<lparr>max_inflight = 100, high_watermark = flit (8 / 10), low_watermark = flit (5 / 10),
                    max_queue_len = 10000\<rparr>;
          ctrl = (on_request_start ^^ 80) (controller_new config);
          (ctrl, at80) = evaluate ctrl;
          ctrl = (on_request_complete ^^ 10) ctrl;
          (ctrl, at70) = evaluate ctrl;
          ctrl = (on_request_complete ^^ 21) ctrl;
          (ctrl, at49) = evaluate ctrl
      in at80 = Throttle \<and> at70 = Throttle \<and> at49 = FlowAllow)"

definition request_lifecycle :: bool where
  "request_lifecycle =
     (let ctrl = on_request_start controller_with_defaults;
          started = inflight ctrl;
          ctrl = on_request_complete ctrl
      in started = 1 \<and> inflight ctrl = 0)"

definition complete_underflow_safe :: bool where
  "complete_underflow_safe \<longleftrightarrow> inflight (on_request_complete controller_with_defaults) = 0"

definition rejected_count_increments :: bool where
  "rejected_count_increments =
     (let config = backpressure_config_default\<lparr>max_inflight := 1\<rparr>;
          ctrl = on_request_start (controller_new config);
          (ctrl, _) = evaluate ctrl;
          (ctrl, _) = evaluate ctrl
      in rejected_count ctrl = 2)"

definition throttled_count_increments :: bool where
  "throttled_count_increments =
     (let config = \<lparr>max_inflight = 10, high_watermark = flit (5 / 10), low_watermark = flit (3 / 10),
                    max_queue_len = 10000\<rparr>;
          ctrl = (on_request_start ^^ 5) (controller_new config);
          (ctrl, _) = evaluate ctrl;
          (ctrl, _) = evaluate ctrl
      in throttled_count ctrl = 2)"

definition is_throttling_flag :: bool where
  "is_throttling_flag \<longleftrightarrow> \<not> throttling controller_with_defaults"

definition update_queue_len_test :: bool where
  "update_queue_len_test \<longleftrightarrow> snd (evaluate (update_queue_len controller_with_defaults 100)) = FlowAllow"

lemma starts: "(on_request_start ^^ n) c = c\<lparr>inflight := inflight c + of_nat n\<rparr>"
  by (induction n) (simp_all add: on_request_start_def algebra_simps)

lemma saturating_sub_1: "m < 2 ^ 64 \<Longrightarrow> saturating_sub (of_nat m) 1 = (of_nat (m - 1) :: u64)"
  by (simp add: word_unat_eq_iff unat_saturating_sub unat_of_nat take_bit_nat_eq_self)

lemma completions: "(on_request_complete ^^ n) c = c\<lparr>inflight := of_nat (unat (inflight c) - n)\<rparr>"
proof (induction n)
  case (Suc n)
  have "unat (inflight c) - n < 2 ^ 64" using unat_u64_less [of "inflight c"] by linarith
  from saturating_sub_1 [OF this] Suc show ?case by (simp add: on_request_complete_def)
qed simp

lemmas controller_eval = controller_new_def controller_with_defaults_def backpressure_config_default_def
  evaluate_def update_queue_len_def starts completions f64_of_u64_exact float_eval Let_def

lemma watermarks:
  "round_fp s (4 / 5) = Fin False (3602879701896397 / 4503599627370496)"
  "round_fp s (7 / 10) = Fin False (3152519739159347 / 4503599627370496)"
  "round_fp s (3 / 10) = Fin False (5404319552844595 / 18014398509481984)"
  "round_fp s (49 / 100) = Fin False (2206763817411543 / 4503599627370496)"
  by (simp_all add: round_eval)

lemma backpressure_tests:
  backpressure_default_config allow_when_idle throttle_at_high_watermark reject_at_max_inflight
  reject_at_max_queue request_lifecycle complete_underflow_safe
  rejected_count_increments throttled_count_increments is_throttling_flag update_queue_len_test
  by (simp_all add: backpressure_default_config_def allow_when_idle_def throttle_at_high_watermark_def
      reject_at_max_inflight_def reject_at_max_queue_def request_lifecycle_def
      complete_underflow_safe_def rejected_count_increments_def throttled_count_increments_def
      is_throttling_flag_def update_queue_len_test_def on_request_start_def on_request_complete_def
      saturating_sub_def close_to_self watermarks controller_eval cong: let_weak_cong)

lemma hysteresis_test_passes: hysteresis_test
  by (simp add: hysteresis_test_def watermarks controller_eval cong: let_weak_cong)

subsection \<open>All of them\<close>

definition flow_tests :: bool where
  "flow_tests \<longleftrightarrow>
     limiter_default_config \<and> limiter_allows_within_burst \<and> limiter_rejects_over_burst \<and>
     limiter_refills_over_time \<and> limiter_tokens_capped_at_burst \<and>
     device_limiter_separate_buckets \<and> device_limiter_count \<and>
     device_limiter_total_rejected \<and> device_limiter_remove \<and>
     device_limiter_purge_inactive \<and> device_limiter_purge_none \<and>
     limiter_available_tokens \<and> breaker_default_config \<and> starts_closed \<and>
     allows_in_closed \<and> opens_after_threshold \<and> rejects_in_open \<and>
     transitions_to_half_open \<and> half_open_to_closed_on_success \<and>
     half_open_to_open_on_failure \<and> half_open_limits_requests \<and>
     success_resets_failures_in_closed \<and> manual_reset \<and> transition_count_tracks \<and>
     backpressure_default_config \<and> allow_when_idle \<and> throttle_at_high_watermark \<and>
     reject_at_max_inflight \<and> reject_at_max_queue \<and> hysteresis_test \<and>
     request_lifecycle \<and> complete_underflow_safe \<and> rejected_count_increments \<and>
     throttled_count_increments \<and> is_throttling_flag \<and> update_queue_len_test"

lemma flow_tests_pass: flow_tests
  by (simp only: flow_tests_def limiter_tests limiter_cap_test device_limiter_tests breaker_tests
      backpressure_tests hysteresis_test_passes simp_thms)

end
