(* ===== verification/Data_Tests.thy ===== *)
theory Data_Tests
  imports Test_Support Queue_Bridge Container_Bridge
begin

text \<open>
  The unit tests of \<^verbatim>\<open>src/container_bridge.rs\<close> and \<^verbatim>\<open>src/queue_bridge.rs\<close>, run on the model: every
  assertion holds. A clone of a value is the value.
\<close>

subsection \<open>\<^verbatim>\<open>src/container_bridge.rs\<close>\<close>

text \<open>The bit patterns of the \<^verbatim>\<open>f32\<close> literals.\<close>

abbreviation "f32_80 \<equiv> 0x42A00000 :: f32"
abbreviation "f32_85 \<equiv> 0x42AA0000 :: f32"
abbreviation "f32_95 \<equiv> 0x42BE0000 :: f32"
abbreviation "f32_96 \<equiv> 0x42C00000 :: f32"

lemma f32_literals:
  "f32_value f32_50 = Fin False 50" "f32_value f32_60 = Fin False 60" "f32_value f32_80 = Fin False 80"
  "f32_value f32_85 = Fin False 85" "f32_value f32_95 = Fin False 95" "f32_value f32_96 = Fin False 96"
  by (simp_all add: f32_value_def Let_def power_int_minus)

definition test_deploy :: bool where
  "test_deploy =
     (let req = \<lparr>image_hash = replicate 32 0xAB, cpu_limit_us = 100000, memory_limit = 256 * 1024 * 1024,
                 replicas = 3, region = 1\<rparr>;
          (orch, result) = deploy orchestrator_new req
      in length (container_ids result) = 3 \<and> container_ids result = [1, 2, 3] \<and>
         status result = Healthy \<and> deployments orch = 1)"

definition test_scale_up :: bool where
  "test_scale_up =
     (let (orch, scaled) = scale (orchestrator_new\<lparr>next_container_id := 4\<rparr>) [1, 2, 3] 5
      in map_option length scaled = Some 5 \<and> Option.bind scaled (\<lambda>s. index s 3) = Some 4 \<and>
         Option.bind scaled (\<lambda>s. index s 4) = Some 5)"

definition test_scale_down :: bool where
  "test_scale_down \<longleftrightarrow> snd (scale orchestrator_new [1, 2, 3, 4, 5] 2) = Some [1, 2]"

definition test_health_check :: bool where
  "test_health_check =
     (let (orch, h1) = health_check orchestrator_new 1 f32_50 f32_60;
          (orch, h2) = health_check orch 1 f32_85 f32_60;
          (orch, h3) = health_check orch 1 f32_96 f32_60
      in h1 = Healthy \<and> h2 = Degraded \<and> h3 = Unhealthy)"

definition test_sequential_deploys :: bool where
  "test_sequential_deploys =
     (let (orch, r1) = deploy orchestrator_new
            \<lparr>image_hash = replicate 32 0, cpu_limit_us = 100000, memory_limit = 256 * 1024 * 1024,
             replicas = 2, region = 0\<rparr>;
          (orch, r2) = deploy orch
            \<lparr>image_hash = replicate 32 1, cpu_limit_us = 200000, memory_limit = 512 * 1024 * 1024,
             replicas = 2, region = 1\<rparr>
      in container_ids r1 = [1, 2] \<and> container_ids r2 = [3, 4] \<and> deployments orch = 2)"

definition test_deploy_zero_replicas :: bool where
  "test_deploy_zero_replicas =
     (let req = \<lparr>image_hash = replicate 32 0, cpu_limit_us = 100000, memory_limit = 256 * 1024 * 1024,
                 replicas = 0, region = 0\<rparr>;
          (orch, result) = deploy orchestrator_new req
      in container_ids result = [] \<and> status result = Healthy \<and> deployments orch = 1)"

definition test_scale_to_same_count :: bool where
  "test_scale_to_same_count =
     (let (orch, scaled) = scale orchestrator_new [1, 2, 3] 3
      in scaled = Some [1, 2, 3] \<and> scale_events orch = 1)"

definition test_scale_to_zero :: bool where
  "test_scale_to_zero =
     (let (orch, scaled) = scale orchestrator_new [1, 2, 3] 0
      in scaled = Some [] \<and> scale_events orch = 1)"

definition test_health_check_boundary_80 :: bool where
  "test_health_check_boundary_80 \<longleftrightarrow> snd (health_check orchestrator_new 1 f32_80 f32_80) = Healthy"

definition test_health_check_boundary_95 :: bool where
  "test_health_check_boundary_95 \<longleftrightarrow> snd (health_check orchestrator_new 1 f32_95 f32_95) = Degraded"

definition test_health_check_mem_degraded :: bool where
  "test_health_check_mem_degraded \<longleftrightarrow> snd (health_check orchestrator_new 1 f32_50 f32_85) = Degraded"

definition test_health_check_mem_unhealthy :: bool where
  "test_health_check_mem_unhealthy \<longleftrightarrow> snd (health_check orchestrator_new 1 f32_50 f32_96) = Unhealthy"

definition test_health_check_counter :: bool where
  "test_health_check_counter =
     (let (orch, _) = health_check orchestrator_new 1 f32_50 f32_50;
          (orch, _) = health_check orch 2 f32_50 f32_50;
          (orch, _) = health_check orch 3 f32_50 f32_50
      in health_checks orch = 3)"

definition test_health_status_repr :: bool where
  "test_health_status_repr \<longleftrightarrow>
     health_repr Healthy = 0 \<and> health_repr Degraded = 1 \<and> health_repr Unhealthy = 2 \<and>
     health_repr UnknownHealth = 3"

definition test_deploy_request_clone :: bool where
  "test_deploy_request_clone =
     (let req = \<lparr>image_hash = replicate 32 0xDE, cpu_limit_us = 50000, memory_limit = 128 * 1024 * 1024,
                 replicas = 5, region = 2\<rparr>;
          cloned = req
      in image_hash cloned = image_hash req \<and> replicas cloned = 5 \<and> region cloned = 2)"

definition test_orchestrator_default :: bool where
  "test_orchestrator_default =
     (let orch = orchestrator_new
      in deployments orch = 0 \<and> scale_events orch = 0 \<and> health_checks orch = 0)"

definition test_scale_from_empty :: bool where
  "test_scale_from_empty \<longleftrightarrow> map_option length (snd (scale orchestrator_new [] 3)) = Some 3"

definition test_health_status_eq :: bool where
  "test_health_status_eq \<longleftrightarrow> Healthy = Healthy \<and> Healthy \<noteq> Degraded"

definition test_health_check_both_high :: bool where
  "test_health_check_both_high \<longleftrightarrow> snd (health_check orchestrator_new 1 f32_96 f32_96) = Unhealthy"

lemmas orchestrator_eval = orchestrator_new_def deploy_def scale_def health_check_def f32_literals
  subslice_def index_def Let_def

lemma push_ids_numeral [simp]:
  "push_ids (numeral k) s ids =
     push_ids (pred_numeral k) (s\<lparr>next_container_id := next_container_id s + 1\<rparr>) (ids @ [next_container_id s])"
  by (simp add: numeral_eq_Suc)

lemma container_tests:
  test_deploy test_scale_up test_scale_down test_health_check test_sequential_deploys
  test_deploy_zero_replicas test_scale_to_same_count test_scale_to_zero test_health_check_boundary_80
  test_health_check_boundary_95 test_health_check_mem_degraded test_health_check_mem_unhealthy
  test_health_check_counter test_health_status_repr test_orchestrator_default test_scale_from_empty
  test_health_status_eq test_health_check_both_high
  by (simp_all add: test_deploy_def test_scale_up_def test_scale_down_def test_health_check_def
      test_sequential_deploys_def test_deploy_zero_replicas_def test_scale_to_same_count_def
      test_scale_to_zero_def test_health_check_boundary_80_def test_health_check_boundary_95_def
      test_health_check_mem_degraded_def test_health_check_mem_unhealthy_def
      test_health_check_counter_def test_health_status_repr_def test_orchestrator_default_def
      test_scale_from_empty_def test_health_status_eq_def
      test_health_check_both_high_def orchestrator_eval cong: let_weak_cong)

subsection \<open>\<^verbatim>\<open>src/queue_bridge.rs\<close>\<close>

definition test_msg :: "u32 \<Rightarrow> message_priority \<Rightarrow> gateway_message" where
  "test_msg key prio =
     \<lparr>source_device_id = 1, timestamp_ms = 1000000, priority = prio, payload = replicate 64 0xAA,
      routing_key = key\<rparr>"

text \<open>\<^verbatim>\<open>from_bytes(buf).unwrap()\<close>; the outer \<open>None\<close> and the inner one are panics alike.\<close>

definition decoded :: "bytes \<Rightarrow> gateway_message option" where
  "decoded buf = Option.bind (from_bytes buf) id"

definition test_message_serialization :: bool where
  "test_message_serialization =
     (let bytes = to_bytes (test_msg 42 Normal)
      in case decoded bytes of
           None \<Rightarrow> False
         | Some restored \<Rightarrow>
             source_device_id restored = 1 \<and> routing_key restored = 42 \<and> priority restored = Normal \<and>
             length (payload restored) = 64)"

definition test_routing :: bool where
  "test_routing \<longleftrightarrow> snd (route (router_new 4) (test_msg 7 Normal)) = Some 3"

definition test_priority_routing :: bool where
  "test_priority_routing \<longleftrightarrow> snd (route_with_priority (router_new 4) (test_msg 7 Critical)) = Some 0"

definition test_router_counters :: bool where
  "test_router_counters =
     (let (router, _) = route (router_new 2) (test_msg 1 Low)
      in messages_routed router = 1 \<and> bytes_routed router = 64)"

definition test_message_too_short :: bool where
  "test_message_too_short \<longleftrightarrow> from_bytes (replicate 10 0) = Some None"

definition test_message_exactly_24_bytes_empty_payload :: bool where
  "test_message_exactly_24_bytes_empty_payload =
     (let msg = \<lparr>source_device_id = 1, timestamp_ms = 100, priority = Low, payload = [], routing_key = 0\<rparr>
      in case decoded (to_bytes msg) of
           None \<Rightarrow> False
         | Some restored \<Rightarrow> source_device_id restored = 1 \<and> payload restored = [])"

definition test_message_invalid_priority_byte :: bool where
  "test_message_invalid_priority_byte \<longleftrightarrow> from_bytes ((replicate 24 0)[16 := 4]) = Some None"

definition test_message_payload_too_short_for_declared_len :: bool where
  "test_message_payload_too_short_for_declared_len =
     (let msg = \<lparr>source_device_id = 1, timestamp_ms = 100, priority = Normal, payload = replicate 10 0xBB,
                 routing_key = 5\<rparr>;
          bytes = take 26 (to_bytes msg)
      in from_bytes bytes = Some None)"

text \<open>One round of the loop; \<open>None\<close> is the panic of an index out of range.\<close>

definition count_route ::
  "nat \<Rightarrow> (gateway_router \<times> u32 list) option \<Rightarrow> (gateway_router \<times> u32 list) option" where
  "count_route key st =
     Option.bind st (\<lambda>(router, counts).
       let (router', idx) = route router (test_msg (of_nat key) Normal)
       in Option.bind idx (\<lambda>i.
            if unat i < length counts
            then Some (router', counts[unat i := counts ! unat i + 1]) else None))"

definition test_routing_distribution :: bool where
  "test_routing_distribution \<longleftrightarrow>
     map_option snd (fold count_route [0..<100] (Some (router_new 4, [0, 0, 0, 0]))) = Some [25, 25, 25, 25]"

definition test_priority_routing_non_critical :: bool where
  "test_priority_routing_non_critical =
     (let (router, i) = route_with_priority (router_new 4) (test_msg 7 High);
          (router, j) = route_with_priority router (test_msg 7 Normal);
          (router, k) = route_with_priority router (test_msg 7 Low)
      in i = Some 3 \<and> j = Some 3 \<and> k = Some 3)"

definition test_router_new_minimum_queue_count :: bool where
  "test_router_new_minimum_queue_count \<longleftrightarrow> snd (route (router_new 0) (test_msg 42 Normal)) = Some 0"

definition test_message_roundtrip_all_priorities :: bool where
  "test_message_roundtrip_all_priorities =
     list_all (\<lambda>(prio, byte_val).
       let msg = \<lparr>source_device_id = 0xDEAD, timestamp_ms = 42, priority = prio, payload = [1, 2, 3],
                  routing_key = 99\<rparr>;
           bytes = to_bytes msg
       in index bytes 16 = Some byte_val \<and> map_option priority (decoded bytes) = Some prio)
     [(Low, 0), (Normal, 1), (High, 2), (Critical, 3)]"

definition test_priority_ordering :: bool where
  "test_priority_ordering \<longleftrightarrow> Low < Normal \<and> Normal < High \<and> High < Critical"

definition test_router_bytes_routed_accumulation :: bool where
  "test_router_bytes_routed_accumulation =
     (let msg = (\<lambda>n. \<lparr>source_device_id = 1, timestamp_ms = 0, priority = Normal, payload = replicate n 0,
                      routing_key = 0\<rparr>);
          (router, _) = route (router_new 2) (msg 100);
          (router, _) = route router (msg 200)
      in bytes_routed router = 300 \<and> messages_routed router = 2)"

definition test_message_clone :: bool where
  "test_message_clone =
     (let cloned = test_msg 5 High in routing_key cloned = 5 \<and> priority cloned = High)"

definition test_routing_key_zero :: bool where
  "test_routing_key_zero \<longleftrightarrow> snd (route (router_new 4) (test_msg 0 Normal)) = Some 0"

definition test_priority_critical_route_with_priority_counters :: bool where
  "test_priority_critical_route_with_priority_counters \<longleftrightarrow>
     messages_routed (fst (route_with_priority (router_new 4) (test_msg 99 Critical))) = 1"

lemmas router_eval = router_new_def route_def route_with_priority_def route_count_def checked_rem_def
  test_msg_def Let_def

lemma decoded_encoding:
  "length (payload m) < 65536 \<Longrightarrow> decoded (to_bytes m) = Some m"
proof -
  assume n: "length (payload m) < 65536"
  then have "unat (of_nat (length (payload m)) :: u16) = length (payload m)"
    by (simp add: unat_of_nat)
  then show ?thesis by (simp add: decoded_def to_bytes_def from_bytes_encoded)
qed

lemma queue_tests:
  test_routing test_priority_routing test_router_counters test_message_too_short
  test_message_serialization test_message_exactly_24_bytes_empty_payload
  test_priority_routing_non_critical test_router_new_minimum_queue_count test_priority_ordering
  test_router_bytes_routed_accumulation test_routing_key_zero
  test_priority_critical_route_with_priority_counters
  by (simp_all add: test_routing_def test_priority_routing_def test_router_counters_def
      test_message_too_short_def test_message_serialization_def
      test_message_exactly_24_bytes_empty_payload_def test_priority_routing_non_critical_def
      test_router_new_minimum_queue_count_def test_priority_ordering_def
      test_router_bytes_routed_accumulation_def test_routing_key_zero_def
      test_priority_critical_route_with_priority_counters_def decoded_encoding from_bytes_def
      less_message_priority_def router_eval cong: let_weak_cong)

lemma distribution_test: test_routing_distribution
  by (simp add: test_routing_distribution_def count_route_def upt_rec router_eval cong: let_weak_cong)

lemma decoding_tests:
  test_message_invalid_priority_byte test_message_payload_too_short_for_declared_len
  test_message_roundtrip_all_priorities
proof -
  show test_message_invalid_priority_byte
    by (simp add: test_message_invalid_priority_byte_def from_bytes_def subslice_def to_array_def index_def
        try_q_def priority_of_u8_def)
  show test_message_payload_too_short_for_declared_len
    by (simp add: test_message_payload_too_short_for_declared_len_def to_bytes_def from_bytes_encoded
        le64.length_enc le32.length_enc le16.length_enc)
  show test_message_roundtrip_all_priorities
    by (simp add: test_message_roundtrip_all_priorities_def decoded_encoding)
      (simp add: to_bytes_def index_def nth_append le64.length_enc)
qed

lemma clone_tests: test_deploy_request_clone test_message_clone
  by (simp_all add: test_deploy_request_clone_def test_message_clone_def test_msg_def Let_def)

subsection \<open>All of them\<close>

definition data_tests :: bool where
  "data_tests \<longleftrightarrow>
     test_deploy \<and> test_scale_up \<and> test_scale_down \<and> test_health_check \<and>
     test_sequential_deploys \<and> test_deploy_zero_replicas \<and> test_scale_to_same_count \<and>
     test_scale_to_zero \<and> test_health_check_boundary_80 \<and> test_health_check_boundary_95 \<and>
     test_health_check_mem_degraded \<and> test_health_check_mem_unhealthy \<and>
     test_health_check_counter \<and> test_health_status_repr \<and> test_orchestrator_default \<and>
     test_scale_from_empty \<and> test_health_status_eq \<and> test_health_check_both_high \<and>
     test_message_serialization \<and> test_routing \<and> test_priority_routing \<and>
     test_router_counters \<and> test_message_too_short \<and>
     test_message_exactly_24_bytes_empty_payload \<and> test_message_invalid_priority_byte \<and>
     test_message_payload_too_short_for_declared_len \<and> test_routing_distribution \<and>
     test_priority_routing_non_critical \<and> test_router_new_minimum_queue_count \<and>
     test_message_roundtrip_all_priorities \<and> test_priority_ordering \<and>
     test_router_bytes_routed_accumulation \<and> test_routing_key_zero \<and>
     test_priority_critical_route_with_priority_counters \<and> test_deploy_request_clone \<and> test_message_clone"

lemma data_tests_pass: data_tests
  by (simp only: data_tests_def container_tests queue_tests distribution_test decoding_tests clone_tests simp_thms)

end
