(* ===== verification/State_Tests.thy ===== *)
theory State_Tests
  imports Test_Support Device_Keys Telemetry
begin

text \<open>
  The unit tests of \<^verbatim>\<open>src/device_keys.rs\<close> and \<^verbatim>\<open>src/telemetry.rs\<close>, run on the model. They are
  functions of the foreign operations they exercise (key derivation, sketches); each is shown to
  hold for all of them that meet the law named with it, most for all without exception. Left out
  are the tests that only measure the accuracy of the foreign sketches, and \<^verbatim>\<open>Debug\<close> output.
\<close>

subsection \<open>\<^verbatim>\<open>src/device_keys.rs\<close>\<close>

text \<open>The parameter \<open>kdf\<close> is \<^verbatim>\<open>alice_crypto::derive_key\<close>, a key stands for its bytes.\<close>

definition test_key_derivation_deterministic :: "(string \<Rightarrow> bytes \<Rightarrow> bytes) \<Rightarrow> bool" where
  "test_key_derivation_deterministic kdf =
     (let store = key_store_new (replicate 32 1);
          (store, key1) = derive_device_key kdf store 42;
          (store, key2) = derive_device_key kdf store 42
      in key1 = key2)"

definition test_different_devices_different_keys :: "(string \<Rightarrow> bytes \<Rightarrow> bytes) \<Rightarrow> bool" where
  "test_different_devices_different_keys kdf =
     (let store = key_store_new (replicate 32 1);
          (store, key_a) = derive_device_key kdf store 1;
          (store, key_b) = derive_device_key kdf store 2
      in key_a \<noteq> key_b)"

definition test_different_masters_different_keys :: "(string \<Rightarrow> bytes \<Rightarrow> bytes) \<Rightarrow> bool" where
  "test_different_masters_different_keys kdf =
     (let store_a = key_store_new (replicate 32 1);
          store_b = key_store_new (replicate 32 2);
          (store_a, key_a) = derive_device_key kdf store_a 1;
          (store_b, key_b) = derive_device_key kdf store_b 1
      in key_a \<noteq> key_b)"

definition test_key_caching :: "(string \<Rightarrow> bytes \<Rightarrow> bytes) \<Rightarrow> bool" where
  "test_key_caching kdf =
     (let s0 = key_store_new (replicate 32 1);
          (s1, _) = derive_device_key kdf s0 1;
          (s2, _) = derive_device_key kdf s1 2;
          (s3, _) = derive_device_key kdf s2 1
      in cached_key_count s0 = 0 \<and> cached_key_count s1 = 1 \<and> cached_key_count s2 = 2 \<and>
         cached_key_count s3 = 2)"

definition test_revoke_device :: "(string \<Rightarrow> bytes \<Rightarrow> bytes) \<Rightarrow> bool" where
  "test_revoke_device kdf =
     (let s0 = key_store_new (replicate 32 1);
          (s1, _) = derive_device_key kdf s0 1;
          (s2, _) = derive_device_key kdf s1 2;
          s3 = revoke_device s2 1;
          (s4, _) = derive_device_key kdf s3 1
      in cached_key_count s2 = 2 \<and> cached_key_count s3 = 1 \<and> cached_key_count s4 = 2)"

definition test_clear_cache :: "(string \<Rightarrow> bytes \<Rightarrow> bytes) \<Rightarrow> bool" where
  "test_clear_cache kdf =
     (let store = key_store_new (replicate 32 1);
          (store, _) = run (derive_device_key kdf) store (map of_nat [0..<10])
      in cached_key_count store = 10 \<and> cached_key_count (clear_cache store) = 0)"

definition test_revoke_nonexistent_device :: "(string \<Rightarrow> bytes \<Rightarrow> bytes) \<Rightarrow> bool" where
  "test_revoke_nonexistent_device kdf \<longleftrightarrow>
     cached_key_count (revoke_device (key_store_new (replicate 32 1) :: bytes device_key_store) 999) = 0"

definition test_key_stability_after_revoke_and_rederive :: "(string \<Rightarrow> bytes \<Rightarrow> bytes) \<Rightarrow> bool" where
  "test_key_stability_after_revoke_and_rederive kdf =
     (let store = key_store_new (replicate 32 1);
          (store, key_before) = derive_device_key kdf store 42;
          store = revoke_device store 42;
          (store, key_after) = derive_device_key kdf store 42
      in key_before = key_after)"

definition test_many_devices_unique_keys :: "(string \<Rightarrow> bytes \<Rightarrow> bytes) \<Rightarrow> bool" where
  "test_many_devices_unique_keys kdf =
     (let store = key_store_new (replicate 32 0xAB);
          (store, keys) = run (derive_device_key kdf) store (map of_nat [0..<100])
      in list_all (\<lambda>i. list_all (\<lambda>j. keys ! i \<noteq> keys ! j) [i + 1..<length keys]) [0..<length keys] \<and>
         cached_key_count store = 100)"

definition test_zero_device_id_key_derivation :: "(string \<Rightarrow> bytes \<Rightarrow> bytes) \<Rightarrow> bool" where
  "test_zero_device_id_key_derivation kdf =
     (let (store, key) = derive_device_key kdf (key_store_new (replicate 32 1)) 0
      in \<not> list_all (\<lambda>b. b = 0) key)"

definition test_max_device_id_key_derivation :: "(string \<Rightarrow> bytes \<Rightarrow> bytes) \<Rightarrow> bool" where
  "test_max_device_id_key_derivation kdf =
     (let (store, key) = derive_device_key kdf (key_store_new (replicate 32 1)) 0xFFFFFFFFFFFFFFFF
      in \<not> list_all (\<lambda>b. b = 0) key \<and> cached_key_count store = 1)"

definition test_clear_then_rederive :: "(string \<Rightarrow> bytes \<Rightarrow> bytes) \<Rightarrow> bool" where
  "test_clear_then_rederive kdf =
     (let store = key_store_new (replicate 32 0x55);
          (store, key1) = derive_device_key kdf store 7;
          store = clear_cache store;
          cleared = cached_key_count store;
          (store, key2) = derive_device_key kdf store 7
      in cleared = 0 \<and> key1 = key2 \<and> cached_key_count store = 1)"

definition test_derive_key_nonzero :: "(string \<Rightarrow> bytes \<Rightarrow> bytes) \<Rightarrow> bool" where
  "test_derive_key_nonzero kdf =
     (let (store, derived) = derive_device_key kdf (key_store_new (replicate 32 0xFF)) 1
      in \<not> list_all (\<lambda>b. b = 0) derived)"

definition test_revoke_and_count :: "(string \<Rightarrow> bytes \<Rightarrow> bytes) \<Rightarrow> bool" where
  "test_revoke_and_count kdf =
     (let store = key_store_new (replicate 32 1);
          (store, _) = derive_device_key kdf store 1;
          (store, _) = derive_device_key kdf store 2;
          (store, _) = derive_device_key kdf store 3
      in cached_key_count (revoke_device store 2) = 2)"

lemmas key_store_eval = key_store_new_def derive_device_key_def revoke_device_def clear_cache_def
  cached_key_count_def hm_get_def hm_insert_def hm_remove_def Let_def

text \<open>These hold for every key derivation function.\<close>

lemma key_cache_tests:
  "test_key_derivation_deterministic kdf" "test_key_caching kdf" "test_revoke_device kdf"
  "test_revoke_nonexistent_device kdf" "test_key_stability_after_revoke_and_rederive kdf"
  "test_clear_then_rederive kdf" "test_revoke_and_count kdf"
  by (simp_all add: test_key_derivation_deterministic_def test_key_caching_def test_revoke_device_def
      test_revoke_nonexistent_device_def test_key_stability_after_revoke_and_rederive_def
      test_clear_then_rederive_def test_revoke_and_count_def key_store_eval cong: let_weak_cong)

lemma run_derive:
  "run (derive_device_key kdf) st ds =
     (fst (run (key_step kdf) st (map Derive ds)),
      map the (snd (run (key_step kdf) st (map Derive ds))))"
  by (induction ds arbitrary: st) (simp_all add: run_Cons split_def Let_def)

lemma run_derive_new:
  "run (derive_device_key kdf) (key_store_new secret) ds =
     (fst (run (key_step kdf) (key_store_new secret) (map Derive ds)),
      map (\<lambda>d. kdf (key_context d) secret) ds)"
proof -
  have "run (fresh_step kdf) (master_secret (key_store_new secret :: 'a device_key_store)) (map Derive ds) =
      (master_secret (fst (run (key_step kdf) (key_store_new secret) (map Derive ds))),
       snd (run (key_step kdf) (key_store_new secret) (map Derive ds)))"
    by (rule key_store_sim.run_sim) (rule key_store_new_ok)
  then have "snd (run (key_step kdf) (key_store_new secret) (map Derive ds)) =
      map (\<lambda>d. Some (kdf (key_context d) secret)) ds"
    by (simp add: run_fresh key_store_new_def comp_def)
  then show ?thesis by (simp add: run_derive comp_def)
qed

lemma cached_devices_derive: "cached_devices D (map Derive ds) = D \<union> set ds"
  by (induction ds arbitrary: D) auto

lemma count_after_derive:
  assumes "n \<le> 2 ^ 64"
  shows "cached_key_count (fst (run (key_step kdf) (key_store_new secret) (map Derive (map of_nat [0..<n])))) = n"
proof -
  let ?ops = "map Derive (map of_nat [0..<n])"
  let ?st = "fst (run (key_step kdf) (key_store_new secret) ?ops)"
  have ok: "key_store_ok kdf secret ?st" by (rule key_store.run_inv) (rule key_store_new_ok)
  then have "cached_key_count ?st = card (dom (hm_get (key_cache ?st)))"
    by (simp add: cached_key_count_def key_store_ok_def hm.len_card)
  also have "dom (hm_get (key_cache ?st)) = of_nat ` {0..<n}"
    using dom_run_keys [OF key_store_new_ok, of kdf secret ?ops]
    unfolding cached_devices_derive by (simp add: key_store_new_def hm.get_emp del: map_map)
  also have "inj_on (of_nat :: nat \<Rightarrow> u64) {0..<n}"
    by (rule inj_onI) (use assms in \<open>auto dest!: arg_cong [of _ _ unat] simp: word_of_nat_unat_small\<close>)
  then have "card ((of_nat :: nat \<Rightarrow> u64) ` {0..<n}) = n" by (simp add: card_image)
  finally show ?thesis .
qed

lemma clear_cache_test: "test_clear_cache kdf"
  using count_after_derive [of 10 kdf "replicate 32 1"]
  by (simp add: test_clear_cache_def run_derive_new Let_def clear_cache_def cached_key_count_def del: map_map)

text \<open>These hold when no two of the keys that the tests compare are equal, or none of them is the zero key:
  two of the first hundred devices under one secret, or one device under the two secrets.\<close>

definition kdf_separates :: "(string \<Rightarrow> bytes \<Rightarrow> bytes) \<Rightarrow> bool" where
  "kdf_separates kdf \<longleftrightarrow>
     (\<forall>d<100. \<forall>d'<100. \<forall>b. d \<noteq> d' \<longrightarrow>
        kdf (key_context d) (replicate 32 b) \<noteq> kdf (key_context d') (replicate 32 b)) \<and>
     (\<forall>d<100. kdf (key_context d) (replicate 32 1) \<noteq> kdf (key_context d) (replicate 32 2))"

definition kdf_nonzero :: "(string \<Rightarrow> bytes \<Rightarrow> bytes) \<Rightarrow> bool" where
  "kdf_nonzero kdf \<longleftrightarrow> (\<forall>d b. \<not> list_all (\<lambda>x. x = 0) (kdf (key_context d) (replicate 32 b)))"

lemma key_difference_tests:
  assumes "kdf_separates kdf"
  shows "test_different_devices_different_keys kdf" "test_different_masters_different_keys kdf"
    "test_many_devices_unique_keys kdf"
proof -
  have ne: "kdf (key_context d) (replicate 32 b) \<noteq> kdf (key_context d') (replicate 32 b)"
    if "d \<noteq> d'" "d < 100" "d' < 100" for d d' b
    using assms that unfolding kdf_separates_def by blast
  show "test_different_devices_different_keys kdf"
    using ne [of 1 2] by (simp add: test_different_devices_different_keys_def key_store_eval)
  have "kdf (key_context d) (replicate 32 1) \<noteq> kdf (key_context d) (replicate 32 2)" if "d < 100" for d
    using assms that unfolding kdf_separates_def by blast
  then show "test_different_masters_different_keys kdf"
    by (simp add: test_different_masters_different_keys_def key_store_eval)
  have "(of_nat i :: u64) \<noteq> of_nat j" if "i < 100" "j < 100" "i \<noteq> j" for i j :: nat
    using that word_of_nat_unat_small [of i, where 'w = 64] word_of_nat_unat_small [of j, where 'w = 64] by auto
  moreover have "(of_nat i :: u64) < 100" if "i < 100" for i :: nat
    using that word_of_nat_unat_small [of i, where 'w = 64] by (simp add: word_less_nat_alt)
  ultimately show "test_many_devices_unique_keys kdf"
    using count_after_derive [of 100 kdf "replicate 32 0xAB"]
    by (simp add: test_many_devices_unique_keys_def run_derive_new Let_def list_all_iff ne del: map_map)
qed

lemma key_nonzero_tests:
  assumes "kdf_nonzero kdf"
  shows "test_zero_device_id_key_derivation kdf" "test_max_device_id_key_derivation kdf"
    "test_derive_key_nonzero kdf"
  using assms
  by (simp_all add: kdf_nonzero_def test_zero_device_id_key_derivation_def
      test_max_device_id_key_derivation_def test_derive_key_nonzero_def key_store_eval)

subsection \<open>\<^verbatim>\<open>src/telemetry.rs\<close>\<close>

text \<open>\<^verbatim>\<open>x.mul_add(a, b)\<close>: one rounding for the product and the sum.\<close>

fun mul_add :: "fp \<Rightarrow> fp \<Rightarrow> fp \<Rightarrow> fp" where
  "mul_add (Fin s p) (Fin t q) (Fin u r) = round_fp ((s \<noteq> t) \<and> u) (p * q + r)"
| "mul_add (Fin s p) (Fin t q) c = c"
| "mul_add a b c = fadd (fmul a b) c"

text \<open>\<^verbatim>\<open>(x - y).abs() < bound\<close>.\<close>

definition near :: "f64 \<Rightarrow> f64 \<Rightarrow> f64 \<Rightarrow> bool" where
  "near bound x y \<longleftrightarrow> flt (fabs (fsub x y)) bound"

definition record_all where
  "record_all sk t ps = fold (\<lambda>(d, n, lat, kf) t. record_packet sk t d n lat kf) ps t"

definition test_telemetry_basic where
  "test_telemetry_basic sk =
     (let tel0 = telemetry_new sk;
          tel = record_packet sk tel0 1 500 (flit (25 / 10)) True
      in total_packets tel0 = 0 \<and> total_packets tel = 1 \<and> keyframe_count tel = 1 \<and> total_bytes tel = 500)"

definition test_telemetry_mixed_packets where
  "test_telemetry_mixed_packets sk =
     (let tel = telemetry_new sk;
          tel = record_all sk tel
            (map (\<lambda>i. (1, 1000, mul_add (flit (of_nat i)) (flit (1 / 10)) (flit 2), True)) [0..<10]);
          tel = record_all sk tel
            (map (\<lambda>i. (2, 200, mul_add (flit (of_nat i)) (flit (1 / 100)) (flit 1), False)) [0..<90])
      in total_packets tel = 100 \<and> keyframe_count tel = 10 \<and> delta_count tel = 90 \<and>
         near (flit (1 / 100)) (keyframe_ratio tel) (flit (1 / 10)))"

definition test_telemetry_summary where
  "test_telemetry_summary sk =
     (let tel = telemetry_new sk;
          tel = record_packet sk tel 1 500 (flit 5) True;
          tel = record_packet sk tel 2 200 (flit 2) False;
          summary = telemetry_summary_of sk tel
      in s_total_packets summary = 2 \<and> s_total_bytes summary = 700 \<and>
         near (flit (1 / 100)) (s_avg_packet_size summary) (flit 350))"

definition test_telemetry_empty_avg_packet_size where
  "test_telemetry_empty_avg_packet_size sk \<longleftrightarrow> feq (avg_packet_size (telemetry_new sk)) (flit 0)"

definition test_telemetry_empty_keyframe_ratio where
  "test_telemetry_empty_keyframe_ratio sk \<longleftrightarrow> feq (keyframe_ratio (telemetry_new sk)) (flit 0)"

text \<open>\<^verbatim>\<open>f64::EPSILON\<close>.\<close>

definition f64_epsilon :: f64 where
  "f64_epsilon = flit (1 / 2 ^ 52)"

definition test_telemetry_all_keyframes where
  "test_telemetry_all_keyframes sk =
     (let tel = record_all sk (telemetry_new sk) (replicate 10 (1, 100, flit 1, True))
      in keyframe_count tel = 10 \<and> delta_count tel = 0 \<and> near f64_epsilon (keyframe_ratio tel) (flit 1))"

definition test_telemetry_all_deltas where
  "test_telemetry_all_deltas sk =
     (let tel = record_all sk (telemetry_new sk) (replicate 10 (1, 100, flit 1, False))
      in keyframe_count tel = 0 \<and> delta_count tel = 10 \<and> near f64_epsilon (keyframe_ratio tel) (flit 0))"

definition test_telemetry_summary_fields_match where
  "test_telemetry_summary_fields_match sk =
     (let tel = telemetry_new sk;
          tel = record_packet sk tel 1 1000 (flit 5) True;
          tel = record_packet sk tel 2 500 (flit 2) False;
          tel = record_packet sk tel 3 750 (flit 3) True;
          summary = telemetry_summary_of sk tel
      in s_total_packets summary = total_packets tel \<and> s_keyframe_count summary = keyframe_count tel \<and>
         s_delta_count summary = delta_count tel \<and> s_total_bytes summary = total_bytes tel \<and>
         near f64_epsilon (s_avg_packet_size summary) (avg_packet_size tel) \<and>
         near f64_epsilon (s_keyframe_ratio summary) (keyframe_ratio tel))"

definition test_telemetry_clone where
  "test_telemetry_clone sk =
     (let tel = record_packet sk (telemetry_new sk) 1 100 (flit 1) True;
          cloned = tel;
          tel = record_packet sk tel 2 200 (flit 2) False
      in total_packets cloned = 1 \<and> keyframe_count cloned = 1 \<and> total_packets tel = 2)"

definition test_telemetry_default where
  "test_telemetry_default sk =
     (let tel = telemetry_new sk in total_packets tel = 0 \<and> total_bytes tel = 0)"

definition test_telemetry_single_device_frequency where
  "test_telemetry_single_device_frequency sk =
     (let tel = record_packet sk (telemetry_new sk) 42 100 (flit 1) False
      in 1 \<le> device_packet_estimate sk tel 42)"

lemma near_self: "is_fin x \<Longrightarrow> pow2 (-1074) \<le> b \<Longrightarrow> near (flit b) x x"
  by (simp add: near_def fsub_self flit_pos)

lemma epsilon_pos: "pow2 (-1074) \<le> 1 / 2 ^ 52" "pow2 (-1074) \<le> 1 / 100"
proof -
  have "pow2 (-1074) \<le> pow2 (-52)" by (rule pow2_mono) simp
  then show small: "pow2 (-1074) \<le> 1 / 2 ^ 52" by (simp add: power_int_minus inverse_eq_divide)
  have "(1 / 2 ^ 52 :: rat) \<le> 1 / 100" by simp
  with small show "pow2 (-1074) \<le> 1 / 100" by linarith
qed

text \<open>\<open>record_all\<close> is the run over recorded events that the lemmas of \<open>Telemetry\<close> are about.\<close>

definition event_of :: "u64 \<times> usize \<times> f64 \<times> bool \<Rightarrow> packet_event" where
  "event_of = (\<lambda>(d, n, lat, kf). \<lparr>ev_device = d, ev_size = n, ev_latency = lat, ev_keyframe = kf\<rparr>)"

lemma record_all_run: "record_all sk t ps = fst (run (record_event sk) t (map event_of ps))"
proof (induction ps arbitrary: t)
  case (Cons p ps)
  then show ?case by (cases p) (simp add: record_all_def event_of_def)
qed (simp add: record_all_def)

lemma record_all_recorded: "record_all sk (telemetry_new sk) ps = recorded sk (map event_of ps)"
  by (simp add: record_all_run recorded_def)

lemma record_all_append: "record_all sk (record_all sk t ps) qs = record_all sk t (ps @ qs)"
  by (simp add: record_all_def)

lemma telemetry_tests:
  "test_telemetry_basic sk" "test_telemetry_empty_avg_packet_size sk"
  "test_telemetry_empty_keyframe_ratio sk" "test_telemetry_clone sk" "test_telemetry_default sk"
  by (simp_all add: test_telemetry_basic_def test_telemetry_empty_avg_packet_size_def
      test_telemetry_empty_keyframe_ratio_def test_telemetry_clone_def test_telemetry_default_def
      telemetry_new_def record_packet_def u64_of_bool_def avg_packet_size_def keyframe_ratio_def
      feq_def Let_def)

text \<open>Counters and ratio of a run that is given by its list of packets.\<close>

lemma recorded_summary:
  assumes "es \<noteq> []" and "length es \<le> 2 ^ 53"
  shows "total_packets (recorded sk es) = of_nat (length es)"
    "keyframe_count (recorded sk es) = of_nat (length (filter ev_keyframe es))"
    "delta_count (recorded sk es) = of_nat (length (filter (\<lambda>e. \<not> ev_keyframe e) es))"
    "keyframe_ratio (recorded sk es) =
       round_fp False (of_nat (length (filter ev_keyframe es)) / of_nat (length es))"
  using assms by (simp_all add: recorded_counters keyframe_ratio_rounded)

lemma mixed_packets_test: "test_telemetry_mixed_packets sk"
proof -
  let ?ps = "map (\<lambda>i. (1, 1000, mul_add (flit (of_nat i)) (flit (1 / 10)) (flit 2), True)) [0..<10] @
    map (\<lambda>i. (2, 200, mul_add (flit (of_nat i)) (flit (1 / 100)) (flit 1), False)) [0..<90]"
  let ?es = "map event_of ?ps"
  have "filter ev_keyframe ?es = take 10 ?es" "filter (\<lambda>e. \<not> ev_keyframe e) ?es = drop 10 ?es"
    by (simp_all add: event_of_def comp_def filter_map)
  then have "total_packets (recorded sk ?es) = 100" "keyframe_count (recorded sk ?es) = 10"
    "delta_count (recorded sk ?es) = 90" "keyframe_ratio (recorded sk ?es) = round_fp False (1 / 10)"
    using recorded_summary [of ?es sk] by simp_all
  moreover have "is_fin (round_fp False (1 / 10))" by (simp add: round_eval)
  ultimately show ?thesis
    using near_self [OF _ epsilon_pos(2)]
    by (simp add: test_telemetry_mixed_packets_def record_all_append record_all_recorded Let_def
        flit_def [of "1 / 10"] del: map_append)
qed

lemma all_of_a_kind_tests: "test_telemetry_all_keyframes sk" "test_telemetry_all_deltas sk"
proof -
  let ?es = "\<lambda>kf. map event_of (replicate 10 (1, 100, flit 1, kf))"
  have "filter ev_keyframe (?es kf) = (if kf then ?es kf else [])"
    "filter (\<lambda>e. \<not> ev_keyframe e) (?es kf) = (if kf then [] else ?es kf)" for kf
    by (simp_all add: event_of_def)
  then have "keyframe_count (recorded sk (?es kf)) = (if kf then 10 else 0)"
    "delta_count (recorded sk (?es kf)) = (if kf then 0 else 10)"
    "keyframe_ratio (recorded sk (?es kf)) = Fin False (if kf then 1 else 0)" for kf
    using recorded_summary [of "?es kf" sk] by (simp_all add: round_fp_numeral)
  then show "test_telemetry_all_keyframes sk" "test_telemetry_all_deltas sk"
    using near_self [OF _ epsilon_pos(1), of "Fin False 1"] near_self [OF _ epsilon_pos(1), of "Fin False 0"]
    by (simp_all add: test_telemetry_all_keyframes_def test_telemetry_all_deltas_def f64_epsilon_def
        record_all_recorded Let_def del: map_replicate)
qed

lemma summary_tests: "test_telemetry_summary sk" "test_telemetry_summary_fields_match sk"
proof -
  show "test_telemetry_summary sk"
    using near_self [OF _ epsilon_pos(2), of "Fin False 350"]
    by (simp add: test_telemetry_summary_def telemetry_summary_of_def telemetry_new_def record_packet_def
        u64_of_bool_def avg_packet_size_def f64_of_u64_exact flit_def [of 350] round_fp_numeral Let_def)
  have "is_fin (round_fp False (2 / 3))" by (simp add: round_eval)
  then show "test_telemetry_summary_fields_match sk"
    using near_self [OF _ epsilon_pos(1), of "Fin False 750"] near_self [OF _ epsilon_pos(1), of "round_fp False (2 / 3)"]
    by (simp add: test_telemetry_summary_fields_match_def telemetry_summary_of_def telemetry_new_def
        record_packet_def u64_of_bool_def avg_packet_size_def keyframe_ratio_def f64_of_u64_exact
        f64_epsilon_def round_fp_numeral Let_def)
qed

lemma device_frequency_test: "cms_counts sk \<Longrightarrow> test_telemetry_single_device_frequency sk"
proof -
  assume "cms_counts sk"
  from cms_fold_counts [OF this, of "cms_new sk" "hash_u64 sk 42" "[hash_u64 sk 42]"] show ?thesis
    by (simp add: test_telemetry_single_device_frequency_def device_packet_estimate_def record_packet_def
        telemetry_new_def word_le_nat_alt)
qed

subsection \<open>All of them\<close>

definition state_tests where
  "state_tests kdf sk \<longleftrightarrow>
     test_key_derivation_deterministic kdf \<and> test_different_devices_different_keys kdf \<and>
     test_different_masters_different_keys kdf \<and> test_key_caching kdf \<and>
     test_revoke_device kdf \<and> test_clear_cache kdf \<and> test_revoke_nonexistent_device kdf \<and>
     test_key_stability_after_revoke_and_rederive kdf \<and> test_many_devices_unique_keys kdf \<and>
     test_zero_device_id_key_derivation kdf \<and> test_max_device_id_key_derivation kdf \<and>
     test_clear_then_rederive kdf \<and> test_derive_key_nonzero kdf \<and>
     test_revoke_and_count kdf \<and> test_telemetry_basic sk \<and>
     test_telemetry_mixed_packets sk \<and> test_telemetry_summary sk \<and>
     test_telemetry_empty_avg_packet_size sk \<and> test_telemetry_empty_keyframe_ratio sk \<and>
     test_telemetry_all_keyframes sk \<and> test_telemetry_all_deltas sk \<and>
     test_telemetry_summary_fields_match sk \<and> test_telemetry_clone sk \<and>
     test_telemetry_default sk \<and> test_telemetry_single_device_frequency sk"

lemma state_tests_pass:
  assumes "kdf_separates kdf" and "kdf_nonzero kdf" and "cms_counts sk"
  shows "state_tests kdf sk"
  by (simp only: state_tests_def key_cache_tests clear_cache_test key_difference_tests [OF assms(1)]
      key_nonzero_tests [OF assms(2)] telemetry_tests mixed_packets_test all_of_a_kind_tests summary_tests
      device_frequency_test [OF assms(3)] simp_thms)

text \<open>A key derivation that meets the laws: a one, the context and the secret.\<close>

definition plain_kdf :: "string \<Rightarrow> bytes \<Rightarrow> bytes" where
  "plain_kdf ctx secret = 1 # map of_char ctx @ secret"

lemma of_char_u8_inject: "(of_char c :: 8 word) = of_char d \<longleftrightarrow> c = d"
proof -
  have "unat (of_char x :: 8 word) = of_char x" for x :: char
  proof -
    have "unat (of_nat (of_char x) :: 8 word) = of_char x"
      by (rule word_of_nat_unat_small) (use nat_of_char_less_256 [of x] in simp)
    then show ?thesis by (simp only: of_nat_of_char)
  qed
  then show ?thesis by (metis char_of_char)
qed

lemma plain_kdf_laws: "kdf_separates plain_kdf" "kdf_nonzero plain_kdf"
proof -
  have "inj (of_char :: char \<Rightarrow> 8 word)" by (rule injI) (simp add: of_char_u8_inject)
  then show "kdf_separates plain_kdf"
    by (simp add: kdf_separates_def plain_kdf_def key_context_inject)
  show "kdf_nonzero plain_kdf" by (simp add: kdf_nonzero_def plain_kdf_def)
qed

end
