(* ===== verification/Sketch_Tests.thy ===== *)
theory Sketch_Tests
  imports State_Tests
begin

text \<open>
  The unit tests of \<^verbatim>\<open>src/telemetry.rs\<close> that measure the sketches of \<^verbatim>\<open>alice_analytics\<close>. What the tests
  need of the sketches is stated as laws: the accuracy the sources document (1% relative error of a
  latency percentile, about 0.4% for the number of devices, frequencies that are never too small and
  nearly exact), on the range of inputs the tests use, with some margin where it is only likely.
\<close>

subsection \<open>The accuracy the tests rely on\<close>

text \<open>A percentile of up to 1000 latencies between 1 and 1000 ms is within 1% of a sample whose rank is off
  by at most one.\<close>

definition dd_accurate :: "('dd, 'hll, 'cms, 'h) sketches \<Rightarrow> bool" where
  "dd_accurate sk \<longleftrightarrow>
     (\<forall>xs s q. xs \<noteq> [] \<and> length xs \<le> 1000 \<and> (\<forall>x\<in>set xs. 1 \<le> x \<and> x \<le> 1000) \<and> 0 \<le> q \<and> q \<le> 1 \<longrightarrow>
        (\<exists>i s' y. i < length xs \<and> \<bar>of_nat i - q * of_nat (length xs)\<bar> \<le> 1 \<and>
           dd_quantile sk (foldl (dd_insert sk) (dd_new sk (flit (1 / 100))) (map (Fin False) xs)) (Fin s q) = Fin s' y \<and>
           \<bar>y - sort xs ! i\<bar> \<le> sort xs ! i / 100))"

text \<open>The number of devices is within 2% when the devices are 1 to 5.\<close>

definition hll_close :: "('dd, 'hll, 'cms, 'h) sketches \<Rightarrow> bool" where
  "hll_close sk \<longleftrightarrow>
     (\<forall>ds. set ds = {1, 2, 3, 4, 5} \<longrightarrow>
        (\<exists>s y. hll_cardinality sk (foldl (hll_insert_hash sk) (hll_new sk) (map (hash_u64 sk) ds)) = Fin s y \<and>
           \<bar>y - 5\<bar> \<le> 1 / 10))"

text \<open>A frequency is not too large: the three devices the tests ask for do not collide in every row.\<close>

definition cms_close :: "('dd, 'hll, 'cms, 'h) sketches \<Rightarrow> bool" where
  "cms_close sk \<longleftrightarrow>
     (\<forall>ds d. set ds \<subseteq> {1, 2} \<and> length ds \<le> 110 \<and> d \<in> {1, 2, 999} \<longrightarrow> unat (cms_estimate_hash sk
          (foldl (\<lambda>s h. cms_insert_hash sk s h 1) (cms_new sk) (map (hash_u64 sk) ds)) (hash_u64 sk d))
        \<le> count_list ds d)"

subsection \<open>The tests\<close>

definition test_telemetry_latency_percentiles where
  "test_telemetry_latency_percentiles sk =
     (let tel = record_all sk (telemetry_new sk) (map (\<lambda>i. (1, 100, flit (of_nat i), False)) [1..<101]);
          p50 = p50_latency_ms sk tel;
          p99 = p99_latency_ms sk tel
      in flt (flit 40) p50 \<and> flt p50 (flit 60) \<and> flt (flit 90) p99 \<and> flt p99 (flit 105))"

definition test_telemetry_unique_devices where
  "test_telemetry_unique_devices sk =
     (let tel = record_all sk (telemetry_new sk)
            (concat (map (\<lambda>device_id. replicate 20 (device_id, 100, flit 1, False)) [1, 2, 3, 4, 5]));
          estimate = estimated_unique_devices sk tel
      in flt (flit 3) estimate \<and> flt estimate (flit 8))"

definition test_telemetry_device_frequency where
  "test_telemetry_device_frequency sk =
     (let tel = record_all sk (telemetry_new sk) (replicate 100 (1, 100, flit 1, False));
          tel = record_all sk tel (replicate 10 (2, 100, flit 1, False));
          freq1 = device_packet_estimate sk tel 1;
          freq2 = device_packet_estimate sk tel 2
      in 100 \<le> freq1 \<and> 10 \<le> freq2 \<and> freq1 < 120 \<and> freq2 < 20)"

definition test_telemetry_p95_between_p50_and_p99 where
  "test_telemetry_p95_between_p50_and_p99 sk =
     (let tel = record_all sk (telemetry_new sk) (map (\<lambda>i. (1, 100, flit (of_nat i), False)) [1..<1001]);
          p50 = p50_latency_ms sk tel;
          p95 = p95_latency_ms sk tel;
          p99 = p99_latency_ms sk tel
      in fle p50 p95 \<and> fle p95 p99)"

definition test_telemetry_device_frequency_unknown_device where
  "test_telemetry_device_frequency_unknown_device sk \<longleftrightarrow>
     device_packet_estimate sk (telemetry_new sk) 999 = 0"

definition test_telemetry_p50_single_sample where
  "test_telemetry_p50_single_sample sk =
     (let tel = record_packet sk (telemetry_new sk) 1 100 (flit 5) False
      in flt (flit 0) (p50_latency_ms sk tel))"

subsection \<open>Percentiles\<close>

lemma latencies_sketch:
  assumes "n \<le> 2 ^ 53"
  shows "latency_sketch (record_all sk (telemetry_new sk) (map (\<lambda>i. (1, 100, flit (of_nat i), False)) [1..<n])) =
     foldl (dd_insert sk) (dd_new sk (flit (1 / 100))) (map (Fin False) (map of_nat [1..<n]))"
proof -
  have "map ev_latency (map event_of (map (\<lambda>i. (1, 100, flit (of_nat i), False)) [1..<n])) =
      map (Fin False) (map of_nat [1..<n])"
    using assms unfolding map_map by (intro map_cong refl) (simp add: event_of_def flit_nat)
  then show ?thesis by (simp only: record_all_recorded recorded_sketches)
qed

text \<open>The percentile \<open>q\<close> of the samples 1 to \<open>n\<close>.\<close>

lemma dd_accurateD:
  assumes "dd_accurate sk" and "xs \<noteq> []" and "length xs \<le> 1000"
    and "\<And>x. x \<in> set xs \<Longrightarrow> 1 \<le> x \<and> x \<le> 1000" and "0 \<le> q" and "q \<le> 1"
  shows "\<exists>i s' y. i < length xs \<and> \<bar>of_nat i - q * of_nat (length xs)\<bar> \<le> 1 \<and>
     dd_quantile sk (foldl (dd_insert sk) (dd_new sk (flit (1 / 100))) (map (Fin False) xs)) (Fin s q) = Fin s' y \<and>
     \<bar>y - sort xs ! i\<bar> \<le> sort xs ! i / 100"
  using assms unfolding dd_accurate_def by simp

lemma rank_error:
  fixes x y m :: rat
  assumes "m \<le> x" "x \<le> m + 2" "x - y \<le> x / 100" "y - x \<le> x / 100"
  shows "m * (99 / 100) \<le> y" "y \<le> (m + 2) * (101 / 100)"
  using assms by (simp_all add: field_simps)

lemma percentile:
  assumes "dd_accurate sk" and "0 < n" and "n \<le> 1000" and "0 \<le> q" and "q \<le> 1"
  obtains s' y where "dd_quantile sk (latency_sketch (record_all sk (telemetry_new sk)
      (map (\<lambda>i. (1, 100, flit (of_nat i), False)) [1..<Suc n]))) (Fin s q) = Fin s' y"
    "q * of_nat n * (99 / 100) \<le> y" "y \<le> (q * of_nat n + 2) * (101 / 100)"
proof -
  let ?xs = "map of_nat [1..<Suc n] :: rat list"
  have len: "length ?xs = n" by simp
  have sorted: "sort ?xs = ?xs" by (rule sorted_sort_id) (simp add: sorted_map del: upt_Suc)
  have "?xs \<noteq> []" "length ?xs \<le> 1000" "\<And>x. x \<in> set ?xs \<Longrightarrow> 1 \<le> x \<and> x \<le> 1000"
    using assms(2,3) by auto
  from dd_accurateD [OF assms(1) this assms(4,5), of s, unfolded len] obtain i s' y where i: "i < n" "\<bar>of_nat i - q * of_nat n\<bar> \<le> 1"
      "dd_quantile sk (foldl (dd_insert sk) (dd_new sk (flit (1 / 100))) (map (Fin False) ?xs)) (Fin s q) = Fin s' y"
      "\<bar>y - sort ?xs ! i\<bar> \<le> sort ?xs ! i / 100"
    by blast
  have x: "sort ?xs ! i = of_nat i + 1" unfolding sorted using i(1) by (simp del: upt_Suc)
  have "q * of_nat n \<le> of_nat i + 1" "of_nat i + 1 \<le> q * of_nat n + 2" using i(2) by linarith+
  moreover have "(of_nat i + 1) - y \<le> (of_nat i + 1) / 100" "y - (of_nat i + 1) \<le> (of_nat i + 1) / 100"
    using i(4) unfolding x by (simp_all only: abs_le_iff minus_diff_eq)
  ultimately have "q * of_nat n * (99 / 100) \<le> y" "y \<le> (q * of_nat n + 2) * (101 / 100)"
    by (rule rank_error)+
  moreover have "dd_quantile sk (latency_sketch (record_all sk (telemetry_new sk)
      (map (\<lambda>i. (1, 100, flit (of_nat i), False)) [1..<Suc n]))) (Fin s q) = Fin s' y"
    using i(3) latencies_sketch [of "Suc n" sk] assms(3) by (simp del: upt_Suc map_map)
  ultimately show ?thesis using that by blast
qed

lemma quantile_levels:
  "flit (50 / 100) = Fin False (1 / 2)"
  "flit (95 / 100) = Fin False (4278419646001971 / 4503599627370496)"
  "flit (99 / 100) = Fin False (4458563631096791 / 4503599627370496)"
  by (simp_all add: flit_def round_eval)

lemma percentile_tests:
  assumes "dd_accurate sk"
  shows "test_telemetry_latency_percentiles sk" "test_telemetry_p95_between_p50_and_p99 sk"
    "test_telemetry_p50_single_sample sk"
proof -
  let ?tel = "\<lambda>n. record_all sk (telemetry_new sk) (map (\<lambda>i. (1, 100, flit (of_nat i), False)) [1..<Suc n])"
  have bounds: "\<exists>s y. dd_quantile sk (latency_sketch (?tel n)) (Fin False q) = Fin s y \<and>
      q * of_nat n * (99 / 100) \<le> y \<and> y \<le> (q * of_nat n + 2) * (101 / 100)"
    if "0 < n" "n \<le> 1000" "0 \<le> q" "q \<le> 1" for n q
    using percentile [OF assms that, of False] by blast
  have tel: "?tel 100 = record_all sk (telemetry_new sk) (map (\<lambda>i. (1, 100, flit (of_nat i), False)) [1..<101])"
    "?tel 1000 = record_all sk (telemetry_new sk) (map (\<lambda>i. (1, 100, flit (of_nat i), False)) [1..<1001])"
    by (simp_all only: Suc_numeral semiring_norm)
  show "test_telemetry_latency_percentiles sk"
    using bounds [of 100 "1 / 2"] bounds [of 100 "4458563631096791 / 4503599627370496"]
    unfolding tel test_telemetry_latency_percentiles_def p50_latency_ms_def p99_latency_ms_def quantile_levels
    by (auto simp: Let_def flit_numeral)
  show "test_telemetry_p95_between_p50_and_p99 sk"
    using bounds [of 1000 "1 / 2"] bounds [of 1000 "4278419646001971 / 4503599627370496"]
      bounds [of 1000 "4458563631096791 / 4503599627370496"]
    unfolding tel test_telemetry_p95_between_p50_and_p99_def p50_latency_ms_def p95_latency_ms_def
      p99_latency_ms_def quantile_levels
    by (auto simp: Let_def)
  have "\<exists>s y. dd_quantile sk (dd_insert sk (dd_new sk (flit (1 / 100))) (Fin False 5)) (Fin False (1 / 2)) = Fin s y \<and>
      0 < y"
    using dd_accurateD [OF assms, of "[5]" "1 / 2" False] by (auto simp: abs_if split: if_splits)
  then show "test_telemetry_p50_single_sample sk"
    unfolding test_telemetry_p50_single_sample_def p50_latency_ms_def quantile_levels
    by (auto simp: Let_def record_packet_def telemetry_new_def flit_numeral)
qed

subsection \<open>Devices\<close>

lemma unique_devices_test:
  assumes "hll_close sk"
  shows "test_telemetry_unique_devices sk"
proof -
  let ?ps = "concat (map (\<lambda>device_id. replicate 20 (device_id, 100, flit 1, False)) [1, 2, 3, 4, 5 :: u64])"
  let ?ds = "map (ev_device \<circ> event_of) ?ps"
  have "set ?ds = {1, 2, 3, 4, 5}" by (auto simp: event_of_def)
  with assms obtain s y where y: "hll_cardinality sk (foldl (hll_insert_hash sk) (hll_new sk) (map (hash_u64 sk) ?ds)) = Fin s y"
      "\<bar>y - 5\<bar> \<le> 1 / 10"
    unfolding hll_close_def by blast
  have "unique_devices (record_all sk (telemetry_new sk) ?ps) =
      foldl (hll_insert_hash sk) (hll_new sk) (map (hash_u64 sk) ?ds)"
    by (simp only: record_all_recorded recorded_sketches map_map comp_assoc)
  with y(1) have "estimated_unique_devices sk (record_all sk (telemetry_new sk) ?ps) = Fin s y"
    by (simp only: estimated_unique_devices_def)
  moreover have "3 < y" "y < 8" using y(2) by (auto simp: abs_if split: if_splits)
  ultimately show ?thesis
    unfolding test_telemetry_unique_devices_def Let_def by (simp only:) (simp add: flit_numeral)
qed

lemma frequency:
  assumes "cms_counts sk" and "cms_close sk" and "set ds \<subseteq> {1, 2}" and "length ds \<le> 110" and "d \<in> {1, 2, 999}"
    and "device_frequency tel = foldl (\<lambda>s h. cms_insert_hash sk s h 1) (cms_new sk) (map (hash_u64 sk) ds)"
  shows "count_list ds d \<le> unat (device_packet_estimate sk tel d)"
    and "unat (device_packet_estimate sk tel d) \<le> count_list ds d"
proof -
  have "count_list ds d \<le> count_list (map (hash_u64 sk) ds) (hash_u64 sk d)"
    by (induction ds) auto
  moreover have "count_list ds d < 2 ^ 64 - 1"
    using count_le_length [of ds d] assms(4) by simp
  ultimately show "count_list ds d \<le> unat (device_packet_estimate sk tel d)"
    using cms_fold_counts [OF assms(1), of "cms_new sk" "hash_u64 sk d" "map (hash_u64 sk) ds"]
    by (simp add: device_packet_estimate_def assms(6))
  show "unat (device_packet_estimate sk tel d) \<le> count_list ds d"
    using assms(2-5) by (simp add: device_packet_estimate_def assms(6) cms_close_def)
qed

lemma count_list_replicate: "count_list (replicate n x) y = (if x = y then n else 0)"
  by (induction n) auto

lemma frequency_tests:
  assumes "cms_counts sk" and "cms_close sk"
  shows "test_telemetry_device_frequency sk" "test_telemetry_device_frequency_unknown_device sk"
proof -
  let ?ps = "replicate 100 (1, 100, flit 1, False) @ replicate 10 (2, 100, flit 1, False)"
  let ?ds = "replicate 100 1 @ replicate 10 2 :: u64 list"
  let ?tel = "record_all sk (telemetry_new sk) ?ps"
  have devices: "map ev_device (map event_of ?ps) = ?ds" by (simp add: event_of_def)
  have tel: "device_frequency ?tel =
      foldl (\<lambda>s h. cms_insert_hash sk s h 1) (cms_new sk) (map (hash_u64 sk) ?ds)"
    by (simp only: record_all_recorded recorded_sketches map_map [symmetric] devices)
  have counts: "count_list ?ds 1 = 100" "count_list ?ds 2 = 10"
    by (simp_all add: count_list_append count_list_replicate)
  have "set ?ds \<subseteq> {1, 2}" "length ?ds \<le> 110" by auto
  note bounds = frequency [OF assms this _ tel, unfolded counts]
  show "test_telemetry_device_frequency sk"
    using bounds [of 1] bounds [of 2]
    by (simp add: test_telemetry_device_frequency_def record_all_append Let_def word_le_nat_alt word_less_nat_alt
        count_list_replicate)
  have "device_frequency (telemetry_new sk) =
      foldl (\<lambda>s h. cms_insert_hash sk s h 1) (cms_new sk) (map (hash_u64 sk) [])"
    by (simp add: telemetry_new_def)
  from frequency(2) [OF assms _ _ _ this, of 999] show "test_telemetry_device_frequency_unknown_device sk"
    by (simp add: test_telemetry_device_frequency_unknown_device_def unat_eq_0)
qed

subsection \<open>All of them\<close>

definition sketch_tests where
  "sketch_tests sk \<longleftrightarrow>
     test_telemetry_latency_percentiles sk \<and> test_telemetry_unique_devices sk \<and>
     test_telemetry_device_frequency sk \<and> test_telemetry_p95_between_p50_and_p99 sk \<and>
     test_telemetry_device_frequency_unknown_device sk \<and> test_telemetry_p50_single_sample sk"

lemma sketch_tests_pass:
  assumes "dd_accurate sk" and "hll_close sk" and "cms_counts sk" and "cms_close sk"
  shows "sketch_tests sk"
  by (simp only: sketch_tests_def percentile_tests [OF assms(1)] unique_devices_test [OF assms(2)]
      frequency_tests [OF assms(3,4)] simp_thms)

text \<open>The exact sketches meet the laws.\<close>

lemma map_insort_key: "insort_key f (g x) (map g xs) = map g (insort_key (\<lambda>x. f (g x)) x xs)"
  by (induction xs) simp_all

lemma map_sort_key: "sort_key f (map g xs) = map g (sort_key (\<lambda>x. f (g x)) xs)"
  by (induction xs) (simp_all add: map_insort_key)

lemma exact_dd_fold: "foldl (dd_insert exact_sketches) s xs = s @ xs"
  by (induction xs arbitrary: s) (simp_all add: exact_sketches_def)

lemma exact_dd_accurate: "dd_accurate exact_sketches"
  unfolding dd_accurate_def
proof (intro allI impI)
  fix xs :: "rat list" and s and q :: rat
  assume "xs \<noteq> [] \<and> length xs \<le> 1000 \<and> (\<forall>x\<in>set xs. 1 \<le> x \<and> x \<le> 1000) \<and> 0 \<le> q \<and> q \<le> 1"
  then have xs: "xs \<noteq> []" "\<And>x. x \<in> set xs \<Longrightarrow> 1 \<le> x" and q: "0 \<le> q" "q \<le> 1" by auto
  let ?n = "length xs" let ?i = "min (?n - 1) (nat \<lfloor>q * of_nat ?n\<rfloor>)"
  have "q * of_nat ?n \<le> of_nat ?n" using q by (simp add: mult_left_le_one_le)
  moreover have "0 \<le> q * of_nat ?n" using q by simp
  then have "of_nat (nat \<lfloor>q * of_nat ?n\<rfloor>) \<le> q * of_nat ?n" "q * of_nat ?n < of_nat (nat \<lfloor>q * of_nat ?n\<rfloor>) + 1"
    by linarith+
  moreover have "?n \<noteq> 0" using xs by simp
  moreover from this have pred: "(of_nat (?n - 1) :: rat) = of_nat ?n - 1" by (cases ?n) simp_all
  ultimately have i: "?i < ?n" "\<bar>of_nat ?i - q * of_nat ?n\<bar> \<le> 1"
    by (auto simp: min_def abs_if pred simp del: of_nat_diff)
  have "dd_quantile exact_sketches (foldl (dd_insert exact_sketches) (dd_new exact_sketches (flit (1 / 100)))
      (map (Fin False) xs)) (Fin s q) = Fin False (sort xs ! ?i)"
    using xs i(1) unfolding exact_dd_fold
    by (simp add: exact_sketches_def exact_quantile_def map_sort_key)
  moreover have "0 \<le> sort xs ! ?i" using xs(2) [of "sort xs ! ?i"] nth_mem [of ?i "sort xs"] i(1) by simp
  ultimately show "\<exists>i s' y. i < ?n \<and> \<bar>of_nat i - q * of_nat ?n\<bar> \<le> 1 \<and>
      dd_quantile exact_sketches (foldl (dd_insert exact_sketches) (dd_new exact_sketches (flit (1 / 100)))
        (map (Fin False) xs)) (Fin s q) = Fin s' y \<and> \<bar>y - sort xs ! i\<bar> \<le> sort xs ! i / 100"
    using i by (intro exI [of _ ?i] exI [of _ False] exI [of _ "sort xs ! ?i"]) simp
qed

lemma exact_hll_close: "hll_close exact_sketches"
proof -
  have "distinct (foldl (hll_insert_hash exact_sketches) s ds) \<and>
      set (foldl (hll_insert_hash exact_sketches) s ds) = set s \<union> set ds" if "distinct s" for s ds
    using that by (induction ds arbitrary: s) (auto simp: exact_sketches_def)
  from this [of "[]"] have "length (foldl (hll_insert_hash exact_sketches) [] ds) = card (set ds)" for ds
    by (metis distinct.simps(1) distinct_card empty_set sup_bot_left)
  note count = this
  have empty: "hll_new exact_sketches = []" "hash_u64 exact_sketches = (\<lambda>d. d)"
    and size: "hll_cardinality exact_sketches s = flit (of_nat (length s))" for s
    by (simp_all add: exact_sketches_def)
  have "hll_cardinality exact_sketches (foldl (hll_insert_hash exact_sketches) (hll_new exact_sketches)
      (map (hash_u64 exact_sketches) ds)) = Fin False 5" if "set ds = {1, 2, 3, 4, 5}" for ds
  proof -
    have "card (set ds) = 5" unfolding that by simp
    then show ?thesis by (simp add: empty size count flit_numeral)
  qed
  then show ?thesis unfolding hll_close_def by (intro allI impI exI conjI) (assumption | simp)+
qed

lemma exact_cms_close: "cms_close exact_sketches"
proof -
  have "foldl (\<lambda>s h. cms_insert_hash exact_sketches s h 1) s ds = rev ds @ s" for s ds
    by (induction ds arbitrary: s) (simp_all add: exact_sketches_def)
  moreover have "cms_new exact_sketches = []" "hash_u64 exact_sketches = (\<lambda>d. d)"
    by (simp_all add: exact_sketches_def)
  ultimately show ?thesis unfolding cms_close_def exact_cms_estimate by (simp add: min_le_iff_disj)
qed

end
