(* ===== verification/Export_Tests.thy ===== *)
theory Export_Tests
  imports Test_Support Metrics_Export Gateway_Main
begin

text \<open>
  The unit tests of \<^verbatim>\<open>src/metrics_export.rs\<close> and \<^verbatim>\<open>src/lib.rs\<close>, run on the model: every
  assertion holds.
\<close>

subsection \<open>\<^verbatim>\<open>src/metrics_export.rs\<close>\<close>

text \<open>\<^verbatim>\<open>(x.unwrap() - y).abs() < 1e-10\<close>.\<close>

definition some_close :: "f64 option \<Rightarrow> f64 \<Rightarrow> bool" where
  "some_close x y = (case x of None \<Rightarrow> False | Some v \<Rightarrow> close_to v y)"

definition register_and_get :: bool where
  "register_and_get =
     (let reg = registry_new;
          reg = register reg ''requests_total'' ''Total requests'' Counter;
          reg = counter_inc reg ''requests_total'' (flit 5)
      in some_close (registry_get reg ''requests_total'') (flit 5))"

definition gauge_set_test :: bool where
  "gauge_set_test =
     (let reg = registry_new;
          reg = register reg ''temperature'' ''Current temp'' Gauge;
          reg = gauge_set reg ''temperature'' (flit (425 / 10))
      in some_close (registry_get reg ''temperature'') (flit (425 / 10)))"

definition counter_increment :: bool where
  "counter_increment =
     (let reg = registry_new;
          reg = register reg ''errors'' ''Error count'' Counter;
          reg = counter_inc reg ''errors'' (flit 1);
          reg = counter_inc reg ''errors'' (flit 2)
      in some_close (registry_get reg ''errors'') (flit 3))"

definition unregistered_metric_noop :: bool where
  "unregistered_metric_noop =
     (let reg = counter_inc registry_new ''nonexistent'' (flit 1)
      in registry_get reg ''nonexistent'' = None)"

abbreviation "label_get \<equiv> ''method='' @ [CHR 0x22] @ ''GET'' @ [CHR 0x22]"
abbreviation "label_post \<equiv> ''method='' @ [CHR 0x22] @ ''POST'' @ [CHR 0x22]"

definition labeled_metrics :: bool where
  "labeled_metrics =
     (let reg = registry_new;
          reg = register reg ''http_requests'' ''HTTP requests'' Counter;
          reg = counter_inc_labels reg ''http_requests'' label_get (flit 10);
          reg = counter_inc_labels reg ''http_requests'' label_post (flit 3)
      in case bt_get (metrics reg) ''http_requests'' of
           None \<Rightarrow> False
         | Some entry \<Rightarrow>
             some_close (entry_get entry label_get) (flit 10) \<and>
             some_close (entry_get entry label_post) (flit 3))"

definition len_and_empty :: bool where
  "len_and_empty =
     (let reg0 = registry_new;
          reg = register reg0 ''m1'' ''help'' Counter
      in registry_is_empty reg0 \<and> registry_len reg0 = 0 \<and> \<not> registry_is_empty reg \<and> registry_len reg = 1)"

definition prometheus_format_counter :: bool where
  "prometheus_format_counter =
     (let reg = register registry_new ''requests_total'' ''Total requests'' Counter;
          reg = counter_inc reg ''requests_total'' (flit 42);
          output = render_prometheus reg
      in contains_text output ''# HELP requests_total Total requests'' \<and>
         contains_text output ''# TYPE requests_total counter'' \<and>
         contains_text output ''requests_total 42'')"

definition prometheus_format_gauge :: bool where
  "prometheus_format_gauge =
     (let reg = register registry_new ''queue_depth'' ''Queue depth'' Gauge;
          reg = gauge_set reg ''queue_depth'' (flit 100);
          output = render_prometheus reg
      in contains_text output ''# TYPE queue_depth gauge'' \<and> contains_text output ''queue_depth 100'')"

definition prometheus_format_with_labels :: bool where
  "prometheus_format_with_labels =
     (let reg = register registry_new ''http_requests'' ''HTTP requests'' Counter;
          reg = counter_inc_labels reg ''http_requests'' label_get (flit 5);
          output = render_prometheus reg
      in contains_text output (''http_requests{'' @ label_get @ ''} 5''))"

definition default_registry :: bool where
  "default_registry \<longleftrightarrow> registry_is_empty registry_new"

lemmas registry_eval = registry_new_def registry_defs entry_new_def entry_increment_def entry_set_def
  increment_with_labels_def add_at_def registry_get_def entry_get_def registry_len_def
  registry_is_empty_def bt_get_def some_close_def close_to_self float_eval Let_def

lemma round_fp_temperature: "round_fp s (85 / 2) = Fin False (85 / 2)"
  by (simp add: round_eval)

lemma registry_tests:
  register_and_get gauge_set_test counter_increment unregistered_metric_noop labeled_metrics
  len_and_empty default_registry
  by (simp_all add: register_and_get_def gauge_set_test_def counter_increment_def
      unregistered_metric_noop_def labeled_metrics_def len_and_empty_def default_registry_def
      round_fp_temperature registry_eval cong: let_weak_cong)

lemma value_texts:
  "value_text (Fin False 5) = ''5''" "value_text (Fin False 42) = ''42''" "value_text (Fin False 100) = ''100''"
  by (simp_all add: value_text_def ffract_def trunc_def float_eval fmt_int_def fmt_nat.simps digit_def
      char_of_def bit_0)

lemma contains_textI: "s = pre @ p @ post \<Longrightarrow> contains_text s p"
  by (simp add: contains_text_def)

lemma prometheus_tests:
  prometheus_format_counter prometheus_format_gauge prometheus_format_with_labels
proof -
  show prometheus_format_counter
    by (simp add: prometheus_format_counter_def registry_eval render_prometheus_def render_entry_def
        render_value_def series_text_def type_text_def value_texts contains_text_def sublist_Cons_right
        cong: let_weak_cong)
  show prometheus_format_gauge
    by (simp add: prometheus_format_gauge_def registry_eval render_prometheus_def render_entry_def
        render_value_def series_text_def type_text_def value_texts contains_text_def sublist_Cons_right
        cong: let_weak_cong)
  show prometheus_format_with_labels
    by (simp add: prometheus_format_with_labels_def registry_eval render_prometheus_def render_entry_def
        render_value_def series_text_def type_text_def value_texts contains_text_def sublist_Cons_right
        cong: let_weak_cong)
qed

subsection \<open>\<^verbatim>\<open>src/lib.rs\<close>\<close>

definition test_gateway_config_default :: bool where
  "test_gateway_config_default =
     (let config = gateway_config_default
      in port (listen_addr config) = 4433 \<and> max_packet_size config = 65535 \<and>
         cache_capacity config = 100000)"

text \<open>\<^verbatim>\<open>Ipv4Addr::UNSPECIFIED\<close> is 0.0.0.0.\<close>

definition test_gateway_config_default_listen_addr_ip :: bool where
  "test_gateway_config_default_listen_addr_ip \<longleftrightarrow> ip (listen_addr gateway_config_default) = IpV4 (0, 0, 0, 0)"

definition test_gateway_config_default_master_secret_zeroed :: bool where
  "test_gateway_config_default_master_secret_zeroed \<longleftrightarrow>
     gw_master_secret gateway_config_default = replicate 32 0"

definition test_gateway_config_default_db_path :: bool where
  "test_gateway_config_default_db_path \<longleftrightarrow> db_path gateway_config_default = ''./alice-gateway-data''"

text \<open>Comparison of \<^verbatim>\<open>f32\<close> triples with \<^verbatim>\<open>==\<close>, against literals given by their values.\<close>

definition f32_is :: "f32 \<Rightarrow> rat \<Rightarrow> bool" where
  "f32_is w q \<longleftrightarrow> feq (f32_value w) (flit q)"

definition vec3_is :: "vec3 \<Rightarrow> rat \<times> rat \<times> rat \<Rightarrow> bool" where
  "vec3_is v q = (case (v, q) of ((x, y, z), (a, b, c)) \<Rightarrow> f32_is x a \<and> f32_is y b \<and> f32_is z c)"

definition test_gateway_config_default_world_bounds :: bool where
  "test_gateway_config_default_world_bounds =
     (let config = gateway_config_default
      in vec3_is (gw_world_min config) (-100, -100, -100) \<and> vec3_is (gw_world_max config) (100, 100, 100))"

definition test_gateway_config_custom :: bool where
  "test_gateway_config_custom =
     (let config = \<lparr>listen_addr = V4 (127, 0, 0, 1) 8080, max_packet_size = 1024,
                    db_path = ''/tmp/test'', cache_capacity = 500, gw_master_secret = replicate 32 0xFF,
                    gw_world_min = (0xC2480000, 0xC2480000, 0xC2480000),
                    gw_world_max = (0x42480000, 0x42480000, 0x42480000)\<rparr>
      in port (listen_addr config) = 8080 \<and> max_packet_size config = 1024 \<and>
         cache_capacity config = 500 \<and> gw_master_secret config = replicate 32 0xFF)"

text \<open>The literals -1, -2, -3 and 4, 5, 6.\<close>

definition test_gateway_config_custom_world_bounds :: bool where
  "test_gateway_config_custom_world_bounds =
     (let config = gateway_config_default
            \<lparr>gw_world_min := (0xBF800000, 0xC0000000, 0xC0400000),
             gw_world_max := (0x40800000, 0x40A00000, 0x40C00000)\<rparr>
      in f32_is (fst (gw_world_min config)) (-1) \<and> f32_is (snd (snd (gw_world_max config))) 6)"

definition test_gateway_config_custom_max_packet_size :: bool where
  "test_gateway_config_custom_max_packet_size \<longleftrightarrow>
     max_packet_size (gateway_config_default\<lparr>max_packet_size := 128\<rparr>) = 128"

lemma small_literals: "f32_value 0xBF800000 = Fin True (-1)" "f32_value 0x40C00000 = Fin False 6"
  by (simp_all add: f32_value_def Let_def power_int_minus)

lemma round_fp_minus_1: "round_fp s (-1) = Fin True (-1)"
  using round_fp_int [of "-1" s] by simp

lemma config_tests:
  test_gateway_config_default test_gateway_config_default_listen_addr_ip
  test_gateway_config_default_master_secret_zeroed test_gateway_config_default_db_path
  test_gateway_config_default_world_bounds test_gateway_config_custom
  test_gateway_config_custom_world_bounds test_gateway_config_custom_max_packet_size
  by (simp_all add: test_gateway_config_default_def test_gateway_config_default_listen_addr_ip_def
      test_gateway_config_default_master_secret_zeroed_def test_gateway_config_default_db_path_def
      test_gateway_config_default_world_bounds_def test_gateway_config_custom_def
      test_gateway_config_custom_world_bounds_def test_gateway_config_custom_max_packet_size_def
      gateway_config_default_def vec3_is_def f32_is_def f32_constants small_literals round_fp_minus_1 float_eval Let_def)

subsection \<open>All of them\<close>

definition export_tests :: bool where
  "export_tests \<longleftrightarrow>
     register_and_get \<and> gauge_set_test \<and> counter_increment \<and>
     unregistered_metric_noop \<and> labeled_metrics \<and> len_and_empty \<and>
     prometheus_format_counter \<and> prometheus_format_gauge \<and>
     prometheus_format_with_labels \<and> default_registry \<and> test_gateway_config_default \<and>
     test_gateway_config_default_listen_addr_ip \<and>
     test_gateway_config_default_master_secret_zeroed \<and> test_gateway_config_default_db_path \<and>
     test_gateway_config_default_world_bounds \<and> test_gateway_config_custom \<and>
     test_gateway_config_custom_world_bounds \<and> test_gateway_config_custom_max_packet_size"

lemma export_tests_pass: export_tests
  by (simp only: export_tests_def registry_tests prometheus_tests config_tests simp_thms)

end
