(* ===== verification/Ingest_Tests.thy ===== *)
theory Ingest_Tests
  imports Test_Support Gateway_Main
begin

text \<open>
  The unit tests of \<^verbatim>\<open>src/ingest.rs\<close> as functions of the foreign crates they run on (\<open>dp\<close>, and
  \<open>seal\<close> for \<^verbatim>\<open>alice_crypto::seal\<close>), of the clock readings and of the temporary directory. They are
  shown to pass for all crates that behave in them as stated below, not only for one.
  The tests of \<^verbatim>\<open>Debug\<close> output are in \<open>Debug_Tests\<close>.
\<close>

subsection \<open>The fixture\<close>

text \<open>\<^verbatim>\<open>Result::is_ok\<close>.\<close>

definition isr :: "'a + 'b \<Rightarrow> bool" where
  "isr x = (case x of Inl _ \<Rightarrow> False | Inr _ \<Rightarrow> True)"

lemma not_isr: "\<not> isr x \<longleftrightarrow> (\<exists>e. x = Inl e)"
  by (cases x) (simp_all add: isr_def)

text \<open>\<^verbatim>\<open>make_test_pipeline()\<close> and the body \<open>f\<close> of a test that uses it; an \<^verbatim>\<open>unwrap\<close> that panics fails
  the test.\<close>

definition with_pipeline where
  "with_pipeline dp dir f =
     (case pipeline_new dp (dir @ ''/test-gw'') 1000 (replicate 32 42)
             (f32_minus_100, f32_minus_100, f32_minus_100) (f32_100, f32_100, f32_100) of
        Inl e \<Rightarrow> False
      | Inr P \<Rightarrow> f P)"

text \<open>\<^verbatim>\<open>pipeline.process_packet(&packet, src).unwrap()\<close> and \<^verbatim>\<open>unwrap_err()\<close>.\<close>

definition processed where
  "processed dp P ck packet f =
     (case packet of
        None \<Rightarrow> False
      | Some raw \<Rightarrow>
          (case process_packet dp P ck raw of
             Some (P', Inr r) \<Rightarrow> f P' r
           | _ \<Rightarrow> False))"

definition refused where
  "refused dp P ck raw f =
     (case process_packet dp P ck raw of Some (P', Inl e) \<Rightarrow> f e | _ \<Rightarrow> False)"

subsection \<open>The tests\<close>

definition test_ingest_keyframe where
  "test_ingest_keyframe dp seal dir ck =
     with_pipeline dp dir (\<lambda>P.
       processed dp P ck (make_test_packet dp seal 1 1 True) (\<lambda>P' result.
         r_device_id result = 1 \<and> r_is_keyframe result \<and> r_scene_version result = 1 \<and>
         r_cached result \<and> r_cdn_node result = None \<and> fle (flit 0) (r_latency_ms result)))"

definition test_ingest_delta where
  "test_ingest_delta dp seal dir ck =
     with_pipeline dp dir (\<lambda>P.
       processed dp P ck (make_test_packet dp seal 2 5 False) (\<lambda>P' result.
         r_device_id result = 2 \<and> \<not> r_is_keyframe result \<and> r_scene_version result = 5 \<and>
         r_cdn_node result = None))"

definition test_ingest_cache_hit where
  "test_ingest_cache_hit dp seal dir ck =
     with_pipeline dp dir (\<lambda>P.
       processed dp P ck (make_test_packet dp seal 1 1 True) (\<lambda>P' result.
         snd (get_cached_frame dp P' 1 1) \<noteq> None))"

definition test_ingest_malformed_packet where
  "test_ingest_malformed_packet dp dir ck =
     with_pipeline dp dir (\<lambda>P. refused dp P ck (replicate 5 0) (\<lambda>e. True))"

definition test_telemetry_recording where
  "test_telemetry_recording dp seal dir ck =
     with_pipeline dp dir (\<lambda>P.
       processed dp P ck (make_test_packet dp seal 1 1 True) (\<lambda>P' result.
         let tel = telemetry_snapshot P' in total_packets tel = 1 \<and> keyframe_count tel = 1))"

definition test_multi_device_sync where
  "test_multi_device_sync dp seal dir ck =
     with_pipeline dp dir (\<lambda>P.
       processed dp P ck (make_test_packet dp seal 1 1 True) (\<lambda>P' result.
       processed dp P' ck (make_test_packet dp seal 2 1 True) (\<lambda>P'' result.
         connected_device_count dp P'' = 2)))"

definition test_queue_routing where
  "test_queue_routing dp seal dir ck =
     with_pipeline dp dir (\<lambda>P.
       processed dp P ck (make_test_packet dp seal 1 1 True) (\<lambda>P' r1.
       processed dp P' ck (make_test_packet dp seal 1 2 False) (\<lambda>P'' r2.
         r_queue_index r1 < 4 \<and> r_queue_index r2 < 4)))"

definition test_routing_stats_cache_tracking where
  "test_routing_stats_cache_tracking dp seal dir ck =
     with_pipeline dp dir (\<lambda>P.
       processed dp P ck (make_test_packet dp seal 1 1 True) (\<lambda>P' r1.
       processed dp P' ck (make_test_packet dp seal 1 1 True) (\<lambda>P'' r2.
         let stats1 = routing_stats_of P'; stats2 = routing_stats_of P''
         in total_requests stats1 = 1 \<and> cache_hits stats1 = 0 \<and>
            total_requests stats2 = 2 \<and> cache_hits stats2 = 1)))"

text \<open>\<^verbatim>\<open>1.0f32\<close> and \<^verbatim>\<open>-1.0f32\<close>.\<close>

definition f32_1 :: f32 where "f32_1 = 0x3F800000"
definition f32_minus_1 :: f32 where "f32_minus_1 = 0xBF800000"

lemma f32_test_constants: "f32_value f32_1 = Fin False 1" "f32_value f32_minus_1 = Fin True (-1)"
  by (simp_all add: f32_value_def f32_1_def f32_minus_1_def Let_def power_int_minus)

definition test_sdf_value_extraction where
  "test_sdf_value_extraction dp seal dir ck =
     with_pipeline dp dir (\<lambda>P.
       processed dp P ck (make_test_packet dp seal 1 1 True) (\<lambda>P' result.
         r_is_keyframe result \<and>
         isr (query_spatial_region dp P' (f32_minus_1, f32_minus_1, f32_minus_1) (f32_1, f32_1, f32_1))))"

definition test_ingest_packet_exactly_11_bytes where
  "test_ingest_packet_exactly_11_bytes dp dir ck =
     with_pipeline dp dir (\<lambda>P. refused dp P ck (replicate 11 0) (\<lambda>e.
       case e of MalformedPacket msg \<Rightarrow> sublist ''12 bytes'' msg | _ \<Rightarrow> False))"

definition test_ingest_packet_exactly_12_bytes_decryption_failure where
  "test_ingest_packet_exactly_12_bytes_decryption_failure dp dir ck =
     with_pipeline dp dir (\<lambda>P. refused dp P ck (u64_to_le 1 @ u32_to_le 1) (\<lambda>e.
       case e of DecryptionFailed _ \<Rightarrow> True | _ \<Rightarrow> False))"

definition test_ingest_error_display :: bool where
  "test_ingest_error_display \<longleftrightarrow>
     fmt_error (UnknownDevice 42) = ''Unknown device: 42'' \<and>
     fmt_error (DecryptionFailed ''bad key'') = ''Decryption failed: bad key'' \<and>
     fmt_error (MalformedPacket ''too short'') = ''Malformed packet: too short'' \<and>
     fmt_error (StorageError ''disk full'') = ''Storage error: disk full''"

definition test_ingest_error_is_error_trait :: bool where
  "test_ingest_error_is_error_trait \<longleftrightarrow> fmt_error (MalformedPacket ''test'') \<noteq> []"

definition test_get_cached_frame_miss where
  "test_get_cached_frame_miss dp dir =
     with_pipeline dp dir (\<lambda>P. snd (get_cached_frame dp P 1 1) = None)"

definition test_get_cached_frame_wrong_version where
  "test_get_cached_frame_wrong_version dp seal dir ck =
     with_pipeline dp dir (\<lambda>P.
       processed dp P ck (make_test_packet dp seal 1 1 True) (\<lambda>P' result.
         snd (get_cached_frame dp P' 1 2) = None))"

definition test_connected_device_count_initially_zero where
  "test_connected_device_count_initially_zero dp dir =
     with_pipeline dp dir (\<lambda>P. connected_device_count dp P = 0)"

text \<open>The loop over the scene versions, with the rest \<open>f\<close> of the test.\<close>

fun process_versions where
  "process_versions dp seal P ck [] f = f P"
| "process_versions dp seal P ck (ver # vers) f =
     processed dp P ck (make_test_packet dp seal 1 ver (ver mod 2 = 0)) (\<lambda>P' result.
       r_scene_version result = ver \<and> process_versions dp seal P' ck vers f)"

definition test_process_multiple_scene_versions where
  "test_process_multiple_scene_versions dp seal dir ck =
     with_pipeline dp dir (\<lambda>P. process_versions dp seal P ck [1, 2, 3, 4, 5] (\<lambda>P'.
       total_packets (telemetry_snapshot P') = 5))"

definition test_routing_stats_initial where
  "test_routing_stats_initial dp dir =
     with_pipeline dp dir (\<lambda>P.
       total_requests (routing_stats_of P) = 0 \<and> cache_hits (routing_stats_of P) = 0)"

definition test_telemetry_snapshot_independent where
  "test_telemetry_snapshot_independent dp seal dir ck =
     with_pipeline dp dir (\<lambda>P.
       processed dp P ck (make_test_packet dp seal 1 1 True) (\<lambda>P' result.
         let snap1 = telemetry_snapshot P' in
         total_packets snap1 = 1 \<and>
         processed dp P' ck (make_test_packet dp seal 2 1 False) (\<lambda>P'' result.
           let snap2 = telemetry_snapshot P'' in
           total_packets snap1 = 1 \<and> total_packets snap2 = 2)))"

definition test_ingest_wrong_key_decryption_failure where
  "test_ingest_wrong_key_decryption_failure dp seal dir ck =
     with_pipeline dp dir (\<lambda>P.
       let (_, wrong_key) = derive_device_key (derive_key dp) (key_store_new (replicate 32 99)) 1
       in (case seal wrong_key (0x01 # replicate 12 0) of
             None \<Rightarrow> False
           | Some sealed \<Rightarrow> refused dp P ck (u64_to_le 1 @ u32_to_le 1 @ sealed) (\<lambda>e.
               case e of DecryptionFailed _ \<Rightarrow> True | _ \<Rightarrow> False)))"

definition test_spatial_query_empty_region where
  "test_spatial_query_empty_region dp dir =
     with_pipeline dp dir (\<lambda>P.
       case query_spatial_region dp P (f32_50, f32_50, f32_50) (f32_60, f32_60, f32_60) of
         Inl e \<Rightarrow> False | Inr data \<Rightarrow> data = [])"

definition test_ingest_error_is_std_error :: bool where
  "test_ingest_error_is_std_error \<longleftrightarrow> sublist ''test'' (fmt_error (StorageError ''test''))"

subsection \<open>What the tests ask of the foreign crates\<close>

text \<open>While a test runs, the storage it opens in its directory starts empty, and neither the disk nor the
  database fails; opening undoes sealing and sealing succeeds. That the storage does not fail is a
  condition on the machine that runs the tests, not a law of \<^verbatim>\<open>alice_db\<close>.\<close>

definition crates_work where
  "crates_work dp seal dir \<longleftrightarrow>
     (\<exists>s. sdf_open dp (dir @ ''/test-gw/sdf'') (f32_minus_100, f32_minus_100, f32_minus_100)
        (f32_100, f32_100, f32_100) = Inr s \<and> (\<forall>lo hi. sdf_query dp s lo hi = Inr [])) \<and>
     storage_accepts dp \<and> (\<forall>s lo hi. isr (sdf_query dp s lo hi)) \<and>
     (\<forall>k m. \<exists>s. seal k m = Some s \<and> crypto_open dp k s = Inr m) \<and>
     stats_default dp = \<lparr>total_requests = 0, cache_hits = 0\<rparr>"

text \<open>The two texts that the tests try under the key of device 1 do not open: the empty one, and the
  one sealed under another secret's key.\<close>

definition sealing_protects where
  "sealing_protects dp seal \<longleftrightarrow>
     \<not> isr (crypto_open dp (device_key dp (replicate 32 42) 1) []) \<and>
     (\<forall>s. seal (device_key dp (replicate 32 99) 1) (0x01 # replicate 12 0) = Some s \<longrightarrow>
        \<not> isr (crypto_open dp (device_key dp (replicate 32 42) 1) s))"

text \<open>The hub lists the registered devices, each once.\<close>

definition hub_tracks where
  "hub_tracks dp \<longleftrightarrow>
     connected_devices dp (hub_new dp) = [] \<and>
     (\<forall>h d name. set (connected_devices dp (register_device dp h d name)) =
        insert d (set (connected_devices dp h)) \<and>
        (distinct (connected_devices dp h) \<longrightarrow> distinct (connected_devices dp (register_device dp h d name)))) \<and>
     (\<forall>h d ms. connected_devices dp (heartbeat dp h d ms) = connected_devices dp h) \<and>
     (\<forall>h d ver wh region. connected_devices dp (fst (device_update dp h d ver wh region)) = connected_devices dp h)"

lemma demo_crates:
  "crates_work demo_deps demo_seal dir" "sealing_protects demo_deps demo_seal" "cache_honest demo_deps"
  "hub_tracks demo_deps"
proof -
  show "crates_work demo_deps demo_seal dir"
    using demo_storage_accepts by (simp add: crates_work_def isr_def demo_deps_def demo_seal_def)
  have other: "take (length (demo_key c s)) (demo_key c s' @ m) = demo_key c s'" if "length s = length s'"
    for c s s' m
    using that by (simp add: demo_key_def)
  have "demo_key c s = demo_key c s' \<longleftrightarrow> s = s'" "[] \<noteq> demo_key (key_context d) s" for c d s s'
    by (simp_all add: demo_key_def key_context_def)
  then show "sealing_protects demo_deps demo_seal"
    by (simp add: sealing_protects_def isr_def demo_deps_def demo_seal_def device_key_def other del: take_append)
  show "cache_honest demo_deps" by (rule demo_cache_honest)
  show "hub_tracks demo_deps" by (simp add: hub_tracks_def demo_deps_def)
qed

subsection \<open>Running the tests\<close>

lemma with_pipelineI:
  assumes "crates_work dp seal dir"
    and "\<And>P. pipeline_new dp (dir @ ''/test-gw'') 1000 (replicate 32 42)
      (f32_minus_100, f32_minus_100, f32_minus_100) (f32_100, f32_100, f32_100) = Inr P \<Longrightarrow> f P"
  shows "with_pipeline dp dir f"
proof -
  have "isr (pipeline_new dp (dir @ ''/test-gw'') 1000 (replicate 32 42)
      (f32_minus_100, f32_minus_100, f32_minus_100) (f32_100, f32_100, f32_100))"
    using assms(1) by (auto simp: crates_work_def pipeline_new_def isr_def)
  with assms(2) show ?thesis by (auto simp: with_pipeline_def isr_def split: sum.splits)
qed

definition test_packet where
  "test_packet dp seal dev ver kf = the (make_test_packet dp seal dev ver kf)"

text \<open>The pipeline after a test packet.\<close>

definition after where
  "after dp seal P ck dev ver kf =
     accepted_state dp (keys_after dp P dev) ck (test_packet dp seal dev ver kf) dev ver (test_payload kf)"

lemma keyframe_test_payload [simp]: "is_keyframe_payload (test_payload kf) \<longleftrightarrow> kf"
  by (simp add: is_keyframe_payload_eq test_payload_def)

lemma process_test_packet:
  assumes "crates_work dp seal dir" and "pipeline_ok dp (replicate 32 42) P"
  shows "make_test_packet dp seal dev ver kf = Some (test_packet dp seal dev ver kf)"
    and "packet_result dp (replicate 32 42) P ck (test_packet dp seal dev ver kf) =
       (after dp seal P ck dev ver kf, Inr (accepted_result dp P ck dev ver (test_payload kf)))"
proof -
  obtain s where s: "seal (device_key dp (replicate 32 42) dev) (test_payload kf) = Some s"
      "crypto_open dp (device_key dp (replicate 32 42) dev) s = Inr (test_payload kf)"
    using assms(1) unfolding crates_work_def by blast
  then have raw: "make_test_packet dp seal dev ver kf = Some (packet_for dev ver s)"
    by (simp add: test_packet_key)
  then show "make_test_packet dp seal dev ver kf = Some (test_packet dp seal dev ver kf)"
    by (simp add: test_packet_def)
  have "verdict dp (replicate 32 42) P (packet_for dev ver s) = Inr (dev, ver, test_payload kf)"
    by (rule verdict_of_packet [OF s(2)])
      (use assms(1) in \<open>simp add: crates_work_def storage_accepts_def store_call_def\<close>)
  then show "packet_result dp (replicate 32 42) P ck (test_packet dp seal dev ver kf) =
       (after dp seal P ck dev ver kf, Inr (accepted_result dp P ck dev ver (test_payload kf)))"
    by (simp add: packet_result_def after_def test_packet_def raw)
qed

lemma processed_eq:
  assumes "crates_work dp seal dir" and "pipeline_ok dp (replicate 32 42) P"
  shows "processed dp P ck (make_test_packet dp seal dev ver kf) f \<longleftrightarrow>
     f (after dp seal P ck dev ver kf) (accepted_result dp P ck dev ver (test_payload kf))"
  by (simp add: processed_def process_test_packet [OF assms] process_packet_eq [OF assms(2)])

lemma after_ok:
  fixes dp :: "('key, 'sdf, 'mc, 'cache, 'cdn, 'hub, 'dd, 'hll, 'cms, 'h) deps"
    and P :: "('key, 'sdf, 'cache, 'cdn, 'hub, 'dd, 'hll, 'cms) pipeline"
  assumes "crates_work dp seal dir" and "pipeline_ok dp (replicate 32 42) P"
  shows "pipeline_ok dp (replicate 32 42) (after dp seal P ck dev ver kf)"
  using packet_result_ok [OF assms(2), of ck "test_packet dp seal dev ver kf"]
  by (simp add: process_test_packet [OF assms])

lemma refused_eq:
  assumes "pipeline_ok dp (replicate 32 42) P"
  shows "refused dp P ck raw f \<longleftrightarrow>
     (case verdict dp (replicate 32 42) P raw of Inl e \<Rightarrow> f e | Inr _ \<Rightarrow> False)"
  by (cases rule: verdict_cases [of dp "replicate 32 42" P raw])
    (auto simp: refused_def process_packet_eq [OF assms] packet_result_def split_def Let_def)

lemma after_counts:
  "total_packets (telemetry (after dp seal P ck dev ver kf)) = total_packets (telemetry P) + 1"
  "keyframe_count (telemetry (after dp seal P ck dev ver kf)) =
     keyframe_count (telemetry P) + (if kf then 1 else 0)"
  "total_requests (routing_stats (after dp seal P ck dev ver kf)) = total_requests (routing_stats P) + 1"
  "cache_hits (routing_stats (after dp seal P ck dev ver kf)) =
     cache_hits (routing_stats P) + (if snd (cache_get dp (frame_cache P) (cache_key dev ver)) = None then 0 else 1)"
  by (simp_all add: after_def accepted_state_def record_packet_def u64_of_bool_def cache_calls_def split_def Let_def)

lemma after_frame:
  assumes "cache_honest dp"
  shows "snd (get_cached_frame dp (after dp seal P ck dev ver kf) dev ver) = Some (test_payload kf)"
    and "snd (get_cached_frame dp P dev' ver') = None \<Longrightarrow> cache_key dev' ver' \<noteq> cache_key dev ver \<Longrightarrow>
      snd (get_cached_frame dp (after dp seal P ck dev ver kf) dev' ver') = None"
  using assms
  by (simp_all add: after_def accepted_state_def get_cached_frame_def cache_calls_def cache_honest_def
      cache_keeps_def split_def Let_def)

lemma after_devices:
  assumes "hub_tracks dp"
  shows "set (connected_devices dp (sync_hub (after dp seal P ck dev ver kf))) =
      insert dev (set (connected_devices dp (sync_hub P)))"
    and "distinct (connected_devices dp (sync_hub P)) \<Longrightarrow>
      distinct (connected_devices dp (sync_hub (after dp seal P ck dev ver kf)))"
  using assms by (simp_all add: after_def accepted_state_def hub_calls_def hub_tracks_def)

text \<open>A fresh pipeline.\<close>

lemma fresh_pipeline:
  assumes "pipeline_new dp path cap secret lo hi = Inr P"
  shows "telemetry P = telemetry_new (sk dp)" "routing_stats P = stats_default dp"
    "sync_hub P = hub_new dp" "frame_cache P = cache_new dp cap" "cdn_router P = None"
  using assms by (auto simp: pipeline_new_def split: sum.splits)

lemma latency_nonneg: "fle (Fin True 0) (latency_of ck)"
proof -
  have secs: "fle (Fin True 0) (secs_f64 d)" for d
  proof -
    have "fle (Fin True 0) (f64_of_u64 w)" for w
      using f64_of_u64_bound [of w] by auto
    moreover have "fle (Fin True 0) (fdiv (f64_of_u32 v) (flit (10 ^ 9)))" for v
      by (simp add: f64_of_u32_exact flit_numeral round_fp_nonneg del: of_nat_unat)
    ultimately show ?thesis unfolding secs_f64_def by (rule fadd_nonneg)
  qed
  have "fmul x (flit 1000) \<noteq> NaN" if "fle (Fin True 0) x" for x
    using that by (cases x) (simp_all add: flit_numeral)
  moreover have "fle (Fin True 0) (flit 1000)" by (simp add: flit_numeral)
  ultimately show ?thesis
    using fmul_nonneg [OF secs] secs unfolding latency_of_def by blast
qed

lemmas answer_fields = accepted_result_def cdn_target_def latency_nonneg

lemma keyframe_delta_tests:
  assumes "crates_work dp seal dir"
  shows "test_ingest_keyframe dp seal dir ck" "test_ingest_delta dp seal dir ck"
    "test_queue_routing dp seal dir ck"
proof -
  have "w mod 4 < (4 :: u32)" for w by (rule word_mod_less) simp
  then show "test_ingest_keyframe dp seal dir ck" "test_ingest_delta dp seal dir ck"
    "test_queue_routing dp seal dir ck"
    unfolding test_ingest_keyframe_def test_ingest_delta_def test_queue_routing_def
    by (intro with_pipelineI [OF assms];
      simp add: processed_eq [OF assms] pipeline_new_ok after_ok [OF assms] fresh_pipeline answer_fields)+
qed

lemma counting_tests:
  assumes "crates_work dp seal dir"
  shows "test_telemetry_recording dp seal dir ck" "test_routing_stats_initial dp dir"
    "test_process_multiple_scene_versions dp seal dir ck" "test_telemetry_snapshot_independent dp seal dir ck"
proof -
  have stats: "stats_default dp = \<lparr>total_requests = 0, cache_hits = 0\<rparr>"
    using assms by (simp add: crates_work_def)
  note eval = processed_eq [OF assms] pipeline_new_ok after_ok [OF assms] fresh_pipeline after_counts
    telemetry_snapshot_def routing_stats_of_def telemetry_new_def stats accepted_result_def Let_def
  show "test_telemetry_recording dp seal dir ck"
    unfolding test_telemetry_recording_def by (rule with_pipelineI [OF assms]) (simp add: eval)
  show "test_routing_stats_initial dp dir"
    unfolding test_routing_stats_initial_def by (rule with_pipelineI [OF assms]) (simp add: eval)
  show "test_process_multiple_scene_versions dp seal dir ck"
    unfolding test_process_multiple_scene_versions_def by (rule with_pipelineI [OF assms]) (simp add: eval)
  show "test_telemetry_snapshot_independent dp seal dir ck"
    unfolding test_telemetry_snapshot_independent_def by (rule with_pipelineI [OF assms]) (simp add: eval)
qed

lemma other_version:
  assumes "cache_honest dp" and "frame_cache P = cache_new dp n"
  shows "snd (get_cached_frame dp (after dp seal P ck 1 1 True) 1 2) = None"
proof (rule after_frame(2) [OF assms(1)])
  show "snd (get_cached_frame dp P 1 2) = None"
    using assms by (simp add: get_cached_frame_def cache_honest_def split_def Let_def)
  show "cache_key 1 2 \<noteq> cache_key 1 1" by (simp add: cache_key_eq_iff)
qed

lemma cache_tests:
  assumes "crates_work dp seal dir" and "cache_honest dp"
  shows "test_ingest_cache_hit dp seal dir ck" "test_routing_stats_cache_tracking dp seal dir ck"
    "test_get_cached_frame_miss dp dir" "test_get_cached_frame_wrong_version dp seal dir ck"
proof -
  have stats: "stats_default dp = \<lparr>total_requests = 0, cache_hits = 0\<rparr>"
    using assms(1) by (simp add: crates_work_def)
  have empty: "snd (cache_get dp (cache_new dp n) k) = None" for n k
    using assms(2) by (simp add: cache_honest_def)
  have hit: "snd (cache_get dp (frame_cache (after dp seal P ck dev ver kf)) (cache_key dev ver)) =
      Some (test_payload kf)" for P dev ver kf
    using after_frame(1) [OF assms(2), of seal P ck dev ver kf]
    by (simp add: get_cached_frame_def split_def Let_def)
  note eval = processed_eq [OF assms(1)] pipeline_new_ok after_ok [OF assms(1)] fresh_pipeline after_counts
    after_frame [OF assms(2)] routing_stats_of_def stats empty hit Let_def
  show "test_ingest_cache_hit dp seal dir ck"
    unfolding test_ingest_cache_hit_def by (rule with_pipelineI [OF assms(1)]) (simp add: eval)
  show "test_routing_stats_cache_tracking dp seal dir ck"
    unfolding test_routing_stats_cache_tracking_def by (rule with_pipelineI [OF assms(1)]) (simp add: eval)
  show "test_get_cached_frame_miss dp dir"
    unfolding test_get_cached_frame_miss_def
    by (rule with_pipelineI [OF assms(1)]) (simp add: eval get_cached_frame_def split_def)
  show "test_get_cached_frame_wrong_version dp seal dir ck"
    unfolding test_get_cached_frame_wrong_version_def
    by (rule with_pipelineI [OF assms(1)])
      (simp add: processed_eq [OF assms(1)] pipeline_new_ok fresh_pipeline other_version [OF assms(2)])
qed

lemma two_devices:
  assumes "hub_tracks dp" and "sync_hub P = hub_new dp"
  shows "length (connected_devices dp (sync_hub (after dp seal (after dp seal P ck 1 1 True) ck 2 1 True))) = 2"
proof -
  let ?ds = "connected_devices dp (sync_hub (after dp seal (after dp seal P ck 1 1 True) ck 2 1 True))"
  have empty: "connected_devices dp (hub_new dp) = []" using assms(1) by (simp add: hub_tracks_def)
  have "distinct ?ds"
    by (simp add: after_devices(2) [OF assms(1)] assms(2) empty)
  moreover have "set ?ds = {1, 2}"
    by (simp add: after_devices(1) [OF assms(1)] assms(2) empty insert_commute)
  ultimately show ?thesis using distinct_card [of ?ds] by simp
qed

lemma hub_tests:
  assumes "crates_work dp seal dir" and "hub_tracks dp"
  shows "test_multi_device_sync dp seal dir ck" "test_connected_device_count_initially_zero dp dir"
proof -
  have empty: "connected_devices dp (hub_new dp) = []" using assms(2) by (simp add: hub_tracks_def)
  show "test_multi_device_sync dp seal dir ck"
    unfolding test_multi_device_sync_def
    by (rule with_pipelineI [OF assms(1)])
      (simp add: processed_eq [OF assms(1)] pipeline_new_ok after_ok [OF assms(1)] fresh_pipeline
        connected_device_count_def two_devices [OF assms(2)])
  show "test_connected_device_count_initially_zero dp dir"
    unfolding test_connected_device_count_initially_zero_def
    by (rule with_pipelineI [OF assms(1)]) (simp add: fresh_pipeline connected_device_count_def empty)
qed

lemma error_text_tests:
  test_ingest_error_display test_ingest_error_is_error_trait test_ingest_error_is_std_error
  by (simp_all add: test_ingest_error_display_def test_ingest_error_is_error_trait_def
      test_ingest_error_is_std_error_def fmt_error_def fmt_u64_def fmt_nat.simps digit_def char_of_def
      bit_0 sublist_Cons_right)

lemma refusal_tests:
  assumes "crates_work dp seal dir" and "sealing_protects dp seal"
  shows "test_ingest_malformed_packet dp dir ck" "test_ingest_packet_exactly_11_bytes dp dir ck"
    "test_ingest_packet_exactly_12_bytes_decryption_failure dp dir ck"
    "test_ingest_wrong_key_decryption_failure dp seal dir ck"
proof -
  note start = with_pipelineI [OF assms(1)]
  note eval = refused_eq pipeline_new_ok verdict_def
  show "test_ingest_malformed_packet dp dir ck"
    unfolding test_ingest_malformed_packet_def by (rule start) (simp add: eval)
  show "test_ingest_packet_exactly_11_bytes dp dir ck"
    unfolding test_ingest_packet_exactly_11_bytes_def
    by (rule start) (simp add: eval sublist_Cons_right)
  have "header_of (u64_to_le 1 @ u32_to_le 1) = (1, 1)" "drop 12 (u64_to_le 1 @ u32_to_le 1) = []"
      "length (u64_to_le 1 @ u32_to_le 1) = 12"
    using header_of_packet [of 1 1 "[]"] by (simp_all add: packet_for_def)
  moreover have "\<not> isr (crypto_open dp (device_key dp (replicate 32 42) 1) [])"
    using assms(2) unfolding sealing_protects_def by blast
  then obtain e where "crypto_open dp (device_key dp (replicate 32 42) 1) [] = Inl e"
    by (auto simp: not_isr)
  ultimately show "test_ingest_packet_exactly_12_bytes_decryption_failure dp dir ck"
    unfolding test_ingest_packet_exactly_12_bytes_decryption_failure_def
    by (intro start) (simp add: eval)
  obtain s where s: "seal (device_key dp (replicate 32 99) 1) (0x01 # replicate 12 0) = Some s"
    using assms(1) unfolding crates_work_def by blast
  have "\<not> isr (crypto_open dp (device_key dp (replicate 32 42) 1) s)"
    using assms(2) s unfolding sealing_protects_def by blast
  then obtain e' where "crypto_open dp (device_key dp (replicate 32 42) 1) s = Inl e'"
    by (auto simp: not_isr)
  moreover have "snd (derive_device_key (derive_key dp) (key_store_new (replicate 32 99)) 1) =
      device_key dp (replicate 32 99) 1"
    using derive_key_value [OF key_store_new_ok, of "derive_key dp" "replicate 32 99" 1]
    by (simp add: device_key_def)
  ultimately show "test_ingest_wrong_key_decryption_failure dp seal dir ck"
    unfolding test_ingest_wrong_key_decryption_failure_def
    by (intro start) (simp add: eval s header_of_packet packet_for_def [symmetric] split_def)
qed

lemma query_answers:
  assumes "crates_work dp seal dir"
  shows "isr (query_spatial_region dp P lo hi)"
proof -
  have "isr (sdf_query dp (sdf_storage P) lo hi)" using assms unfolding crates_work_def by blast
  then show ?thesis
    by (cases "sdf_query dp (sdf_storage P) lo hi") (simp_all add: query_spatial_region_def isr_def)
qed

lemma query_test:
  assumes "crates_work dp seal dir"
  shows "test_sdf_value_extraction dp seal dir ck"
  unfolding test_sdf_value_extraction_def
  by (rule with_pipelineI [OF assms])
    (simp add: processed_eq [OF assms] pipeline_new_ok answer_fields query_answers [OF assms])

lemma empty_region_test:
  assumes "crates_work dp seal dir"
  shows "test_spatial_query_empty_region dp dir"
  unfolding test_spatial_query_empty_region_def
  by (rule with_pipelineI [OF assms])
    (use assms in \<open>auto simp: crates_work_def pipeline_new_def query_spatial_region_def split: sum.splits\<close>)

subsection \<open>All of them\<close>

definition ingest_tests where
  "ingest_tests dp seal dir ck \<longleftrightarrow>
     test_ingest_keyframe dp seal dir ck \<and> test_ingest_delta dp seal dir ck \<and>
     test_ingest_cache_hit dp seal dir ck \<and> test_ingest_malformed_packet dp dir ck \<and>
     test_telemetry_recording dp seal dir ck \<and> test_multi_device_sync dp seal dir ck \<and>
     test_queue_routing dp seal dir ck \<and> test_routing_stats_cache_tracking dp seal dir ck \<and>
     test_sdf_value_extraction dp seal dir ck \<and>
     test_ingest_packet_exactly_11_bytes dp dir ck \<and>
     test_ingest_packet_exactly_12_bytes_decryption_failure dp dir ck \<and>
     test_ingest_error_display \<and>
     test_ingest_error_is_error_trait \<and> test_ingest_error_is_std_error \<and> test_get_cached_frame_miss dp dir \<and>
     test_get_cached_frame_wrong_version dp seal dir ck \<and>
     test_connected_device_count_initially_zero dp dir \<and>
     test_process_multiple_scene_versions dp seal dir ck \<and> test_routing_stats_initial dp dir \<and>
     test_telemetry_snapshot_independent dp seal dir ck \<and>
     test_ingest_wrong_key_decryption_failure dp seal dir ck \<and> test_spatial_query_empty_region dp dir"

text \<open>The unit tests of the pipeline pass, whatever the clock reads, with every set of crates that behaves in
  them as their authors assume: nothing in the code that is modelled makes one fail.\<close>

lemma ingest_tests_pass:
  assumes "crates_work dp seal dir" and "sealing_protects dp seal" and "cache_honest dp" and "hub_tracks dp"
  shows "ingest_tests dp seal dir ck"
  by (simp only: ingest_tests_def keyframe_delta_tests [OF assms(1)] counting_tests [OF assms(1)]
      cache_tests [OF assms(1,3)] hub_tests [OF assms(1,4)] refusal_tests [OF assms(1,2)]
      query_test [OF assms(1)] empty_region_test [OF assms(1)] error_text_tests simp_thms)

lemma demo_ingest_tests: "ingest_tests demo_deps demo_seal ''/tmp'' demo_clock"
  by (rule ingest_tests_pass [OF demo_crates])

end
