(* ===== verification/Debug_Output.thy ===== *)
theory Debug_Output
  imports Ingest Container_Bridge Decimal
begin

text \<open>
  The text that \<^verbatim>\<open>#[derive(Debug)]\<close> gives the public types under \<^verbatim>\<open>{:?}\<close>: the name, then the fields in
  the order of the declaration. A finite \<^verbatim>\<open>f64\<close> is its shortest decimal, with \<^verbatim>\<open>.0\<close> if it is whole, and
  in scientific notation below \<open>10 ^ -4\<close> and from \<open>10 ^ 16\<close> on.
\<close>

subsection \<open>The parts\<close>

fun join :: "string list \<Rightarrow> string" where
  "join [] = []"
| "join [x] = x"
| "join (x # y # xs) = x @ '', '' @ join (y # xs)"

definition debug_struct :: "string \<Rightarrow> (string \<times> string) list \<Rightarrow> string" where
  "debug_struct name fs = name @ '' { '' @ join (map (\<lambda>(f, v). f @ '': '' @ v) fs) @ '' }''"

definition debug_list :: "('a \<Rightarrow> string) \<Rightarrow> 'a list \<Rightarrow> string" where
  "debug_list f xs = ''['' @ join (map f xs) @ '']''"

definition debug_bool :: "bool \<Rightarrow> string" where
  "debug_bool b = (if b then ''true'' else ''false'')"

definition debug_option :: "('a \<Rightarrow> string) \<Rightarrow> 'a option \<Rightarrow> string" where
  "debug_option f x = (case x of None \<Rightarrow> ''None'' | Some a \<Rightarrow> ''Some('' @ f a @ '')'')"

definition debug_u32 :: "u32 \<Rightarrow> string" where
  "debug_u32 w = fmt_nat (unat w)"

definition debug_u8 :: "u8 \<Rightarrow> string" where
  "debug_u8 w = fmt_nat (unat w)"

definition scientific :: "nat \<Rightarrow> int \<Rightarrow> string" where
  "scientific d e =
     (let ds = fmt_nat d; x = e + int (length ds) - 1
      in hd ds # (if tl ds = [] then [] else CHR ''.'' # tl ds) @ ''e'' @
         (if x < 0 then ''-'' else []) @ fmt_nat (nat \<bar>x\<bar>))"

fun debug_f64 :: "f64 \<Rightarrow> string" where
  "debug_f64 (Fin s q) =
     (if s then ''-'' else []) @
     (if q = 0 then ''0.0''
      else case shortest_decimal \<bar>q\<bar> of
             None \<Rightarrow> []
           | Some (d, e) \<Rightarrow>
               if fle (flit (1 / 10 ^ 4)) (fabs (Fin s q)) \<and> flt (fabs (Fin s q)) (flit (10 ^ 16))
               then (let t = plain_decimal d e in if CHR ''.'' \<in> set t then t else t @ ''.0'')
               else scientific d e)"
| "debug_f64 x = fmt_f64 x"

subsection \<open>The types\<close>

fun debug_health_status :: "health_status \<Rightarrow> string" where
  "debug_health_status Healthy = ''Healthy''"
| "debug_health_status Degraded = ''Degraded''"
| "debug_health_status Unhealthy = ''Unhealthy''"
| "debug_health_status UnknownHealth = ''Unknown''"

definition debug_deploy_result :: "deploy_result \<Rightarrow> string" where
  "debug_deploy_result r = debug_struct ''DeployResult''
     [(''container_ids'', debug_list fmt_u64 (container_ids r)), (''status'', debug_health_status (status r))]"

fun debug_priority :: "message_priority \<Rightarrow> string" where
  "debug_priority Low = ''Low''"
| "debug_priority Normal = ''Normal''"
| "debug_priority High = ''High''"
| "debug_priority Critical = ''Critical''"

definition debug_message :: "gateway_message \<Rightarrow> string" where
  "debug_message m = debug_struct ''GatewayMessage''
     [(''source_device_id'', fmt_u64 (source_device_id m)), (''timestamp_ms'', fmt_u64 (timestamp_ms m)),
      (''priority'', debug_priority (priority m)), (''payload'', debug_list debug_u8 (payload m)),
      (''routing_key'', debug_u32 (routing_key m))]"

definition debug_ingest_result :: "ingest_result \<Rightarrow> string" where
  "debug_ingest_result r = debug_struct ''IngestResult''
     [(''device_id'', fmt_u64 (r_device_id r)), (''is_keyframe'', debug_bool (r_is_keyframe r)),
      (''scene_version'', debug_u32 (r_scene_version r)), (''sync_recipients'', fmt_nat (r_sync_recipients r)),
      (''cached'', debug_bool (r_cached r)), (''cdn_node'', debug_option fmt_u64 (r_cdn_node r)),
      (''queue_index'', debug_u32 (r_queue_index r)), (''latency_ms'', debug_f64 (r_latency_ms r))]"

definition debug_summary :: "telemetry_summary \<Rightarrow> string" where
  "debug_summary s = debug_struct ''TelemetrySummary''
     [(''total_packets'', fmt_u64 (s_total_packets s)), (''keyframe_count'', fmt_u64 (s_keyframe_count s)),
      (''delta_count'', fmt_u64 (s_delta_count s)), (''total_bytes'', fmt_u64 (s_total_bytes s)),
      (''avg_packet_size'', debug_f64 (s_avg_packet_size s)), (''keyframe_ratio'', debug_f64 (s_keyframe_ratio s)),
      (''p50_latency_ms'', debug_f64 (s_p50_latency_ms s)), (''p95_latency_ms'', debug_f64 (s_p95_latency_ms s)),
      (''p99_latency_ms'', debug_f64 (s_p99_latency_ms s)),
      (''estimated_unique_devices'', debug_f64 (s_estimated_unique_devices s))]"

end
