(* ===== verification/Debug_Tests.thy ===== *)
theory Debug_Tests
  imports Debug_Output Data_Tests Sketch_Tests Ingest_Tests
begin

text \<open>The unit tests of \<^verbatim>\<open>Debug\<close> output in all modules.\<close>

definition test_deploy_result_debug :: bool where
  "test_deploy_result_debug =
     (let result = \<lparr>container_ids = [1, 2], status = Healthy\<rparr>;
          debug_str = debug_deploy_result result
      in contains_text debug_str ''container_ids'' \<and> contains_text debug_str ''Healthy'')"

definition test_message_debug :: bool where
  "test_message_debug = contains_text (debug_message (test_msg 1 Low)) ''source_device_id''"

definition test_ingest_result_debug :: bool where
  "test_ingest_result_debug =
     (let result = \<lparr>r_device_id = 1, r_is_keyframe = True, r_scene_version = 42, r_sync_recipients = 3,
                    r_cached = True, r_cdn_node = Some 7, r_queue_index = 2, r_latency_ms = flit (15 / 10)\<rparr>;
          debug_str = debug_ingest_result result
      in contains_text debug_str ''device_id'' \<and> contains_text debug_str ''42'')"

definition test_ingest_result_debug_format where
  "test_ingest_result_debug_format dp seal dir ck =
     with_pipeline dp dir (\<lambda>P.
       processed dp P ck (make_test_packet dp seal 1 1 True) (\<lambda>P' result.
         contains_text (debug_ingest_result result) ''device_id''))"

definition test_telemetry_summary_debug where
  "test_telemetry_summary_debug skt =
     contains_text (debug_summary (telemetry_summary_of skt (telemetry_new skt))) ''total_packets''"

subsection \<open>They pass\<close>

text \<open>The name and the value of a field occur in the text.\<close>

lemma sublist_inside:
  assumes "sublist p x"
  shows "sublist p (a @ x @ b)"
proof -
  obtain c d where "x = c @ p @ d" using assms by (auto simp: sublist_def)
  then have "a @ x @ b = (a @ c) @ p @ (d @ b)" by simp
  then show ?thesis unfolding sublist_def by blast
qed

lemma sublist_join: "x \<in> set xs \<Longrightarrow> sublist p x \<Longrightarrow> sublist p (join xs)"
proof (induction xs rule: join.induct)
  case (3 x' y xs)
  have "sublist p (join (y # xs))" if "x \<in> set (y # xs)" using 3 that by blast
  then show ?case
    using 3(2,3) sublist_inside [of p "join (y # xs)" "x' @ '', ''" "[]"]
      sublist_inside [of p x' "[]" "'', '' @ join (y # xs)"] by auto
qed simp_all

lemma struct_contains:
  assumes "(f, v) \<in> set fs"
  shows "contains_text (debug_struct name fs) f" "contains_text (debug_struct name fs) v"
proof -
  let ?fs = "map (\<lambda>(f, v). f @ '': '' @ v) fs"
  have within: "contains_text (debug_struct name fs) p" if "sublist p (f @ '': '' @ v)" for p
  proof -
    have "f @ '': '' @ v \<in> set ?fs" using assms by force
    then have "sublist p (join ?fs)" using that by (rule sublist_join)
    then have "sublist p ((name @ '' { '') @ join ?fs @ '' }'')" by (rule sublist_inside)
    then show ?thesis by (simp only: contains_text_def debug_struct_def append_assoc)
  qed
  have "sublist f ([] @ f @ '': '' @ v)" "sublist v ((f @ '': '') @ v @ [])" by (rule sublist_inside, rule sublist_order.order_refl)+
  then show "contains_text (debug_struct name fs) f" "contains_text (debug_struct name fs) v"
    by (intro within; simp)+
qed

lemma value_debug_tests:
  test_deploy_result_debug test_message_debug test_ingest_result_debug "test_telemetry_summary_debug skt"
proof -
  note eval = debug_deploy_result_def debug_message_def debug_ingest_result_def debug_summary_def Let_def
  show test_deploy_result_debug
    unfolding test_deploy_result_debug_def eval
    by (rule conjI) (rule struct_contains(1), rule list.set_intros(1),
        rule struct_contains(2) [where f = "''status''"], simp)
  show test_message_debug
    unfolding test_message_debug_def eval
    by (rule struct_contains(1)) (rule list.set_intros(1))
  show test_ingest_result_debug
    unfolding test_ingest_result_debug_def eval
    by (rule conjI)
      (rule struct_contains(1), rule list.set_intros(1), rule struct_contains(2) [where f = "''scene_version''"],
        simp add: debug_u32_def fmt_nat.simps digit_def char_of_def bit_0)
  show "test_telemetry_summary_debug skt"
    unfolding test_telemetry_summary_debug_def eval
    by (rule struct_contains(1)) (rule list.set_intros(1))
qed

lemma ingest_debug_test:
  assumes "crates_work dp seal dir"
  shows "test_ingest_result_debug_format dp seal dir ck"
  unfolding test_ingest_result_debug_format_def
proof (rule with_pipelineI [OF assms])
  fix P
  assume "pipeline_new dp (dir @ ''/test-gw'') 1000 (replicate 32 42)
    (f32_minus_100, f32_minus_100, f32_minus_100) (f32_100, f32_100, f32_100) = Inr P"
  moreover have "contains_text (debug_ingest_result r) ''device_id''" for r
    unfolding debug_ingest_result_def by (rule struct_contains(1)) (rule list.set_intros(1))
  ultimately show "processed dp P ck (make_test_packet dp seal 1 1 True)
      (\<lambda>P' result. contains_text (debug_ingest_result result) ''device_id'')"
    by (simp add: processed_eq [OF assms] pipeline_new_ok)
qed

subsection \<open>All of them\<close>

definition debug_tests where
  "debug_tests dp seal dir ck skt \<longleftrightarrow>
     test_deploy_result_debug \<and> test_message_debug \<and> test_ingest_result_debug \<and>
     test_ingest_result_debug_format dp seal dir ck \<and> test_telemetry_summary_debug skt"

lemma debug_tests_pass: "crates_work dp seal dir \<Longrightarrow> debug_tests dp seal dir ck skt"
  by (simp only: debug_tests_def value_debug_tests ingest_debug_test simp_thms)

end
