(* ===== verification/Spec2Isabelle.thy ===== *)
theory Spec2Isabelle
  imports Queue_Bridge Device_Keys Rate_Limiter Circuit_Breaker Backpressure Container_Bridge
    Telemetry Metrics_Export Ingest Concurrent_Ingest Serialisation Lock_Order Gateway_Main
    Gateway_Tasks Flow_Tests Data_Tests State_Tests Sketch_Tests Export_Tests Ingest_Tests Debug_Output
    Debug_Tests
begin

text \<open>
  ALICE Cloud Gateway: a verification library for the Rust crate under \<^verbatim>\<open>src/\<close>.

  The program. A gateway receives encrypted packets from edge devices over UDP. \<^verbatim>\<open>src/main.rs\<close>
  reads datagrams in a loop and spawns a task per packet; each task runs
  \<^verbatim>\<open>IngestPipeline::process_packet\<close> (\<^verbatim>\<open>src/ingest.rs\<close>): read the header, derive the device's key
  (\<^verbatim>\<open>src/device_keys.rs\<close>), decrypt, store keyframes and pick a CDN node, replace the cached
  frame, tell the synchronisation hub, pick a processing queue (\<^verbatim>\<open>src/queue_bridge.rs\<close>), and count
  (\<^verbatim>\<open>src/telemetry.rs\<close>). Beside the pipeline stand five components that operators use around it:
  token-bucket rate limiting (\<^verbatim>\<open>src/rate_limiter.rs\<close>), a circuit breaker
  (\<^verbatim>\<open>src/circuit_breaker.rs\<close>), watermark backpressure (\<^verbatim>\<open>src/backpressure.rs\<close>), container
  orchestration (\<^verbatim>\<open>src/container_bridge.rs\<close>) and a Prometheus export (\<^verbatim>\<open>src/metrics_export.rs\<close>).

  The theories.
  \<^item> \<open>Prelude\<close>: machine types, runs of a component over a list of operations, and the contracts the
    components meet as locales (an invariant kept by every step, a field no step writes, a counter
    that grows by a known weight, a simulation), each interpreted on the models below.
  \<^item> \<open>Rounding\<close>, \<open>Rust_Float\<close>: binary64 rounding of rationals and the \<^verbatim>\<open>f64\<close> operations the code
    uses, with NaN, infinities and signed zeros. \<open>Decimal\<close>: the text of an \<^verbatim>\<open>f64\<close> under \<^verbatim>\<open>{}\<close>,
    which reads back and than which none is shorter (\<open>shortest_decimal_coarsest\<close>).
  \<^item> \<open>Rust_Bytes\<close>, \<open>Rust_Collections\<close>: slices that may panic, little-endian codecs, decimal
    numbers; \<^verbatim>\<open>HashMap\<close> and \<^verbatim>\<open>BTreeMap\<close> under one map contract. \<open>Socket_Addr\<close>: socket addresses of
    both IP versions and their text.
  \<^item> \<open>Queue_Bridge\<close>, \<open>Device_Keys\<close>, \<open>Rate_Limiter\<close>, \<open>Circuit_Breaker\<close>, \<open>Backpressure\<close>,
    \<open>Container_Bridge\<close>, \<open>Telemetry\<close>, \<open>Metrics_Export\<close>: one theory per source file, in the order
    data, operations, a step function over all operations, invariant, refinement, properties.
    Names follow the source (\<^verbatim>\<open>RateLimiter::try_acquire\<close> is \<open>try_acquire\<close>); a prefix is added where
    two types share a method name (\<open>drl_try_acquire\<close>, \<open>breaker_new\<close>, \<open>registry_get\<close>).
  \<^item> \<open>Ingest\<close>: the pipeline. Each numbered step of \<^verbatim>\<open>process_packet\<close> is a definition
    (\<open>read_header\<close>, \<open>store_and_route\<close>, \<open>cache_frame\<close>, \<open>sync_device\<close>, \<open>queue_message\<close>,
    \<open>record_telemetry\<close>, \<open>count_request\<close>), composed by \<open>process_packet\<close>.
  \<^item> \<open>Concurrent_Ingest\<close>: the tasks of \<^verbatim>\<open>main.rs\<close> as a step relation on the shared pipeline with
    the six locks. \<open>Lock_Order\<close>: the locks each task has taken, against the documented order.
    \<open>Serialisation\<close>: which sequential run a concurrent one amounts to, component by component.
  \<^item> \<open>Gateway_Main\<close>: configuration and log lines. \<open>Gateway_Tasks\<close>: start-up and the receive loop with a
    spawned task per datagram (\<open>gw_step\<close>), a step relation on top of \<open>Concurrent_Ingest\<close>, and its
    specification \<open>spec_step\<close>, which keeps nothing but the storage.
  \<^item> \<open>Debug_Output\<close>: the text that derived \<^verbatim>\<open>Debug\<close> gives the public types.
  \<^item> \<open>Test_Support\<close>, \<open>Flow_Tests\<close>, \<open>Data_Tests\<close>, \<open>State_Tests\<close>, \<open>Sketch_Tests\<close>, \<open>Export_Tests\<close>,
    \<open>Ingest_Tests\<close>, \<open>Debug_Tests\<close>: the repository's unit tests, all of them, as predicates on the
    model, under the names they have in the sources, each shown to hold as a check of the model.

  Modelling choices. Unsigned integers are words and wrap, as in the release profile (which also
  makes a panic abort the process, so every possible panic is an outer \<open>None\<close> and is shown not to
  happen); \<^verbatim>\<open>usize\<close> is \<open>nat\<close>. State is passed explicitly; a \<^verbatim>\<open>Mutex\<close> is its content in the
  sequential model and a lock in the concurrent one. A \<^verbatim>\<open>HashMap\<close> is an association list with
  distinct keys, a \<^verbatim>\<open>BTreeMap\<close> one with ascending keys. Strings are lists of bytes. Clock readings
  are inputs.

  What is foreign. The crates \<^verbatim>\<open>alice_crypto\<close>, \<^verbatim>\<open>alice_db\<close>, \<^verbatim>\<open>alice_cache\<close>, \<^verbatim>\<open>alice_sync\<close>, \<^verbatim>\<open>alice_cdn\<close>
  and \<^verbatim>\<open>alice_analytics\<close> are not in the repository. Their operations are the fields of the records
  \<open>deps\<close> and \<open>sketches\<close>, on which the model is parameterised, and each call is taken to be atomic.
  Laws about them are assumed only as named hypotheses, each with an instance (\<open>demo_deps\<close>,
  \<open>exact_sketches\<close>, \<open>plain_kdf\<close>) that meets it. The properties of the pipeline need that a cache
  returns what was put last (\<open>cache_keeps\<close>, in \<open>cache_hit_lost\<close> also that it returns nothing else,
  \<open>cache_honest\<close>); nothing is assumed of the storage, which may report an error at any time. The lemmas
  on the unit tests assume more, but only of the inputs the tests use: that the storage does not
  fail while a test runs (\<open>crates_work\<close>), that the two forged texts do not open
  (\<open>sealing_protects\<close>), that the hub lists the registered devices (\<open>hub_tracks\<close>), that the derived keys
  differ and are not zero (\<open>kdf_separates\<close>, \<open>kdf_nonzero\<close>), and that the sketches are accurate
  (\<open>dd_accurate\<close>, \<open>hll_close\<close>, \<open>cms_counts\<close>, \<open>cms_close\<close>). Not all of these are laws of the crates.

  What is shown. Codecs: exact language and round trip of the message format, of the decimal text
  of exported values, of the test packets. Refinement: the rate limiter of a token bucket on
  naturals (for whole-number rates and readings up to \<open>2 ^ 53\<close>), the breaker of a three-state automaton, the controller of an integer hysteresis
  whatever its floating-point watermarks, the registry of a map of maps, the key store of one
  without a cache. Floating point: what the limiter can grant in a period, that a device
  that waits long enough is granted again, and how early a breaker can recover, rounding included.
  Pipeline: the verdict on every packet, no trace of rejected ones, counters that agree. Concurrency:
  an undisturbed task is the sequential function, no deadlock, termination of every schedule, counters
  independent of it, the documented lock order kept, every datagram answered. Under every schedule the
  storage and the answers are those of a sequential run of the packets in some order, storage errors
  included (\<open>components_serialise\<close>), the log is that of the specification in some order
  (\<open>log_refines_spec\<close>), and hub, telemetry and queue router each end as after a sequential run of the accepted
  packets in an order of its own, whereas the statistics of the cache need not agree with any
  (\<open>cache_hit_lost\<close>).

  Bounds. No fuel is used except in \<open>alone\<close>, where nine actions are enough for any task. The decimal
  search runs down to \<open>10 ^ -324\<close>, where it always succeeds (\<open>decimal_at_finest\<close>).

  Behaviour that differs from the documentation or is probably not meant, each proved: payloads of
  65536 bytes or more are cut silently (\<open>message_roundtrip\<close>); a clock that steps back earns
  tokens twice (\<open>clock_rollback_double_credit\<close>); a NaN or infinite rate switches limiting off
  (\<open>non_finite_rate_admits_all\<close>); late successes close a half-open breaker (\<open>stale_successes_close\<close>),
  which no timeout reopens (\<open>half_open_has_no_timeout\<close>); devices whose identifiers agree in
  the lower 32 bits share cached frames (\<open>accepted_frame_served\<close>); two tasks that
  look for the same frame before either stores it both count a miss (\<open>cache_hit_lost\<close>); nothing in the Prometheus text
  is escaped (\<open>help_line_break_injects\<close>); counters can be decreased (\<open>counter_not_monotone\<close>).

  Not modelled. The internals of the foreign crates; the async runtime beyond the interleaving of
  tasks; the logging backend; \<^verbatim>\<open>src/prelude.rs\<close>, which only re-exports names; the Python and shell
  scripts and the workflow files, which are not part of the crate.
\<close>

subsection \<open>The components together\<close>

text \<open>The unit tests of the components around the pipeline pass on the model: rate limiter, circuit breaker
  and backpressure controller; orchestrator and message queue; metrics export and configuration; the key
  store, for every key derivation whose values the tests can tell apart; the telemetry, for all sketches
  that are as accurate on the tests' inputs as the tests assume; and the texts of \<^verbatim>\<open>Debug\<close>.\<close>

lemma unit_tests_pass:
  assumes "kdf_separates kdf" and "kdf_nonzero kdf"
    and "dd_accurate skt" and "hll_close skt" and "cms_counts skt" and "cms_close skt"
    and "crates_work dp seal dir"
  shows "flow_tests \<and> data_tests \<and> export_tests \<and> state_tests kdf skt \<and> sketch_tests skt \<and>
    debug_tests dp seal dir ck skt"
  by (intro conjI flow_tests_pass data_tests_pass export_tests_pass state_tests_pass [OF assms(1,2,5)]
      sketch_tests_pass [OF assms(3-6)] debug_tests_pass [OF assms(7)])

lemma unit_tests_of_demo:
  "flow_tests \<and> data_tests \<and> export_tests \<and> state_tests plain_kdf exact_sketches \<and>
    sketch_tests exact_sketches \<and> debug_tests demo_deps demo_seal ''/tmp'' demo_clock exact_sketches"
  by (rule unit_tests_pass [OF plain_kdf_laws exact_dd_accurate exact_hll_close exact_cms_counts
        exact_cms_close demo_crates(1)])

end
